(* ===== verification/Prelude.thy ===== *)
theory Prelude
  imports Main "HOL-Library.Word" "HOL-Library.Monad_Syntax"
begin

unbundle bit_operations_syntax

text \<open>
  Shared vocabulary of the development: the fixed-width integer types of the C sources, the
  outcome type of kernel routines (a value, a kernel panic, or a CPU that never comes back),
  little-endian access to byte buffers, C strings, and the generic lemmas on lists and words
  that the component theories use.
\<close>

section \<open>Machine integers\<close>

type_synonym u8 = "8 word"
type_synonym u16 = "16 word"
type_synonym u32 = "32 word"
type_synonym u64 = "64 word"

text \<open>Lemma collections: invariants of the components, facts about byte access.\<close>

named_theorems kinv \<open>preservation of component invariants\<close>
named_theorems bytes_simps \<open>reading what was written to a byte buffer\<close>

section \<open>Outcomes of kernel routines\<close>

text \<open>
  \<open>Ret x\<close> is a normal return, \<open>Panic m\<close> a call of \<open>panic(m)\<close>, which stops the machine, \<open>Hang s\<close> a CPU
  that sits in an endless \<open>sti; hlt\<close> loop with the kernel left in state \<open>s\<close> (interrupts still run),
  \<open>Diverge\<close> a loop that never ends, such as spinning on a lock nobody will release, and \<open>Fault m\<close> an
  access outside the object \<open>m\<close>, whose effect the language does not define.
\<close>

datatype ('s, 'a) outcome = Ret 'a | Panic string | Hang 's | Diverge | Fault string

fun obind :: "('s, 'a) outcome \<Rightarrow> ('a \<Rightarrow> ('s, 'b) outcome) \<Rightarrow> ('s, 'b) outcome" where
  "obind (Ret x) f = f x"
| "obind (Panic m) f = Panic m"
| "obind (Hang s) f = Hang s"
| "obind Diverge f = Diverge"
| "obind (Fault m) f = Fault m"

text \<open>The result of a loop whose non-termination is \<open>None\<close>.\<close>

definition ends :: "'a option \<Rightarrow> ('s, 'a) outcome" where
  "ends r = (case r of Some x \<Rightarrow> Ret x | None \<Rightarrow> Diverge)"

lemma ends_simps [simp]: "ends (Some x) = Ret x" "ends None = Diverge"
  by (simp_all add: ends_def)

text \<open>A step that stays inside its buffers (\<open>Some\<close>) or leaves the object named.\<close>

definition within :: "string \<Rightarrow> 'a option \<Rightarrow> ('s, 'a) outcome" where
  "within obj r = (case r of Some x \<Rightarrow> Ret x | None \<Rightarrow> Fault obj)"

lemma within_simps [simp]: "within obj (Some x) = Ret x" "within obj None = Fault obj"
  by (simp_all add: within_def)

text \<open>Running a computation on one part of a larger state.\<close>

definition on_part :: "('p \<Rightarrow> 's) \<Rightarrow> ('p, 'a) outcome \<Rightarrow> ('s, 'a) outcome" where
  "on_part put m = (case m of Ret x \<Rightarrow> Ret x | Panic e \<Rightarrow> Panic e | Hang p \<Rightarrow> Hang (put p) | Diverge \<Rightarrow> Diverge
     | Fault e \<Rightarrow> Fault e)"

lemma on_part_simps [simp]:
  "on_part f (Ret x) = Ret x" "on_part f (Panic e) = Panic e" "on_part f (Hang p) = Hang (f p)"
  "on_part f Diverge = Diverge" "on_part f (Fault e) = Fault e"
  by (simp_all add: on_part_def)

lemma obind_Ret_iff: "obind m f = Ret y \<longleftrightarrow> (\<exists>x. m = Ret x \<and> f x = Ret y)"
  by (cases m) auto

lemma obind_assoc: "obind (obind m f) g = obind m (\<lambda>x. obind (f x) g)"
  by (cases m) auto

section \<open>Tasks as other components see them\<close>

text \<open>
  Kernel objects live at addresses; a pointer to a task, a file or a node is its address.
  The scheduling states of kernel/core/task.h are shared by the pipe, the scheduler, the sleep
  queue and the signal code.
\<close>

type_synonym ptr = nat

datatype tstate = TASK_READY | TASK_RUNNING | TASK_WAITING | TASK_ZOMBIE

section \<open>Bounded buffers\<close>

text \<open>
  Access to an array of known size. An access outside it has no defined effect in C; here it is
  \<open>None\<close>, so that a routine that returns \<open>Some\<close> has stayed inside its buffers.
\<close>

definition peek :: "'a list \<Rightarrow> nat \<Rightarrow> 'a option" where
  "peek xs i = (if i < length xs then Some (xs ! i) else None)"

definition poke :: "nat \<Rightarrow> 'a \<Rightarrow> 'a list \<Rightarrow> 'a list option" where
  "poke i x xs = (if i < length xs then Some (xs[i := x]) else None)"

lemma peek_Some [simp]: "i < length xs \<Longrightarrow> peek xs i = Some (xs ! i)"
  by (simp add: peek_def)

lemma peek_None_iff [simp]: "peek xs i = None \<longleftrightarrow> length xs \<le> i"
  by (simp add: peek_def)

lemma poke_Some [simp]: "i < length xs \<Longrightarrow> poke i x xs = Some (xs[i := x])"
  by (simp add: poke_def)

lemma poke_None_iff [simp]: "poke i x xs = None \<longleftrightarrow> length xs \<le> i"
  by (simp add: poke_def)

lemma poke_length: "poke i x xs = Some ys \<Longrightarrow> length ys = length xs"
  by (auto simp: poke_def split: if_splits)

section \<open>Byte-addressed memory\<close>

text \<open>Stores and loads of several bytes at 64-bit addresses, little-endian.\<close>

fun store_bytes :: "u64 \<Rightarrow> u8 list \<Rightarrow> (u64 \<Rightarrow> u8) \<Rightarrow> u64 \<Rightarrow> u8" where
  "store_bytes a [] m = m"
| "store_bytes a (b # bs) m = store_bytes (a + 1) bs (m(a := b))"

definition load_bytes :: "u64 \<Rightarrow> nat \<Rightarrow> (u64 \<Rightarrow> u8) \<Rightarrow> u8 list" where
  "load_bytes a n m = map (\<lambda>i. m (a + of_nat i)) [0..<n]"

definition le_bytes :: "nat \<Rightarrow> u64 \<Rightarrow> u8 list" where
  "le_bytes n v = map (\<lambda>i. ucast (drop_bit (8 * i) v)) [0..<n]"

lemma length_le_bytes [simp]: "length (le_bytes n v) = n"
  by (simp add: le_bytes_def)

lemma store_bytes_outside:
  "(\<And>i. i < length bs \<Longrightarrow> x \<noteq> a + of_nat i) \<Longrightarrow> store_bytes a bs m x = m x"
proof (induction bs arbitrary: a m)
  case (Cons b bs)
  have "x \<noteq> a" using Cons.prems [of 0] by simp
  moreover have "x \<noteq> a + 1 + of_nat i" if "i < length bs" for i
    using Cons.prems [of "Suc i"] that by (simp add: algebra_simps)
  then have "store_bytes (a + 1) bs (m(a := b)) x = (m(a := b)) x" by (rule Cons.IH)
  ultimately show ?case by simp
qed simp

lemma of_nat_u64_inj: "i < 2 ^ 64 \<Longrightarrow> j < 2 ^ 64 \<Longrightarrow> (of_nat i :: u64) = of_nat j \<Longrightarrow> i = j"
  by (simp add: word_of_nat_eq_iff take_bit_nat_eq_self)

lemma store_bytes_inside:
  "length bs \<le> 2 ^ 64 \<Longrightarrow> i < length bs \<Longrightarrow> store_bytes a bs m (a + of_nat i) = bs ! i"
proof (induction bs arbitrary: a m i)
  case (Cons b bs)
  show ?case
  proof (cases i)
    case 0
    have "a \<noteq> a + 1 + of_nat j" if "j < length bs" for j
    proof
      assume "a = a + 1 + of_nat j"
      then have "(of_nat (Suc j) :: u64) = of_nat 0" by (simp add: add.assoc)
      with of_nat_u64_inj [of "Suc j" 0] that Cons.prems(1) show False by simp
    qed
    then have "store_bytes (a + 1) bs (m(a := b)) a = (m(a := b)) a" by (rule store_bytes_outside)
    then show ?thesis using 0 by simp
  next
    case (Suc j)
    then have "store_bytes (a + 1) bs (m(a := b)) (a + 1 + of_nat j) = bs ! j"
      using Cons.prems by (intro Cons.IH) auto
    then show ?thesis using Suc by (simp add: algebra_simps)
  qed
qed simp

lemma load_store_bytes [bytes_simps]:
  "length bs \<le> 2 ^ 64 \<Longrightarrow> load_bytes a (length bs) (store_bytes a bs m) = bs"
  by (rule nth_equalityI) (simp_all add: load_bytes_def store_bytes_inside)

section \<open>Words\<close>

lemma unat_bounds [simp]:
  "unat (w8 :: u8) < 256" "unat (w16 :: u16) < 65536"
  "unat (w32 :: u32) < 4294967296" "unat (w64 :: u64) < 18446744073709551616"
  using unsigned_less [of w8] unsigned_less [of w16]
    unsigned_less [of w32] unsigned_less [of w64]
  by simp_all

lemma unat_add1_less: "(x :: 'a::len word) < y \<Longrightarrow> unat (x + 1) = Suc (unat x)"
  by unat_arith

lemma unat_pred: "(x :: 'a::len word) \<noteq> 0 \<Longrightarrow> unat (x - 1) = unat x - 1"
  by (simp add: unat_minus_one)

lemma unat_pos_iff: "0 < unat x \<longleftrightarrow> (x :: 'a::len word) \<noteq> 0"
  by (simp add: unat_gt_0)

lemma word_pos_Suc:
  assumes "(0 :: 'a::len word) < x"
  obtains n where "unat x = Suc n" "unat (x - 1) = n"
proof -
  from assms have "0 < unat x" by (simp add: word_less_nat_alt)
  then obtain n where "unat x = Suc n" by (cases "unat x") auto
  moreover have "unat (x - 1) = unat x - 1"
    using assms by (intro unat_pred) auto
  ultimately show ?thesis using that by simp
qed

lemma unat_ucast_up [simp]: "unat (ucast (x :: u32) :: u64) = unat x"
  by (simp add: unsigned_ucast_eq take_bit_nat_eq_self less_trans [OF unat_bounds(3)])

lemma and_not_mask: "(a :: 'a::len word) AND NOT (mask n) = push_bit n (drop_bit n a)"
  by (rule bit_eqI) (auto simp: bit_and_iff bit_not_iff bit_mask_iff bit_push_bit_iff bit_drop_bit_eq)

lemma unat_and_not_mask: "unat ((a :: 'a::len word) AND NOT (mask n)) = unat a div 2 ^ n * 2 ^ n"
proof -
  have "unat a < 2 ^ LENGTH('a)" by (rule unsigned_less)
  then have "unat a div 2 ^ n * 2 ^ n < 2 ^ LENGTH('a)"
    using div_times_less_eq_dividend [of "unat a" "2 ^ n"] by linarith
  then show ?thesis
    by (simp add: and_not_mask unsigned_push_bit_eq unat_drop_bit_eq push_bit_eq_mult [of _ "_ :: nat"]
        drop_bit_eq_div [of _ "_ :: nat"] take_bit_nat_eq_self)
qed

lemma unat_page_floor: "unat ((a :: u64) AND NOT 0xFFF) = unat a div 4096 * 4096"
proof -
  have "(0xFFF :: u64) = mask 12" by (simp add: mask_numeral)
  then show ?thesis by (simp only: unat_and_not_mask) simp
qed

lemma unat_page_offset: "unat ((a :: u64) AND 0xFFF) = unat a mod 4096"
proof -
  have "a AND 0xFFF = take_bit 12 a" by (simp add: take_bit_eq_mask mask_numeral)
  then show ?thesis by (simp only: unsigned_take_bit_eq) (simp add: take_bit_eq_mod)
qed

section \<open>Lists\<close>

lemma take_min_length [simp]: "take (min n (length xs)) xs = take n xs"
  by (simp add: min_def)

lemma rotate_nth_mod:
  "length xs \<noteq> 0 \<Longrightarrow> i < length xs \<Longrightarrow> rotate k xs ! i = xs ! ((k + i) mod length xs)"
  by (simp add: nth_rotate add.commute)

section \<open>Fields of byte buffers\<close>

text \<open>Little-endian 16 and 32-bit fields at a byte offset, as packed structures have them.\<close>

definition get16 :: "u8 list \<Rightarrow> nat \<Rightarrow> u16" where
  "get16 b i = ucast (b ! i) OR push_bit 8 (ucast (b ! (i + 1)))"

definition get32 :: "u8 list \<Rightarrow> nat \<Rightarrow> u32" where
  "get32 b i = ucast (b ! i) OR push_bit 8 (ucast (b ! (i + 1))) OR push_bit 16 (ucast (b ! (i + 2)))
     OR push_bit 24 (ucast (b ! (i + 3)))"

definition put16 :: "nat \<Rightarrow> u16 \<Rightarrow> u8 list \<Rightarrow> u8 list" where
  "put16 i v b = b[i := ucast v, i + 1 := ucast (drop_bit 8 v)]"

definition put32 :: "nat \<Rightarrow> u32 \<Rightarrow> u8 list \<Rightarrow> u8 list" where
  "put32 i v b = b[i := ucast v, i + 1 := ucast (drop_bit 8 v), i + 2 := ucast (drop_bit 16 v),
     i + 3 := ucast (drop_bit 24 v)]"

lemma length_put [simp]: "length (put16 i v b) = length b" "length (put32 i w b) = length b"
  by (simp_all add: put16_def put32_def)

lemma nth_put32: "put32 i v b ! j = b ! j" if "j < i \<or> i + 4 \<le> j"
  using that by (auto simp: put32_def)

lemma nth_put16: "put16 i v b ! j = b ! j" if "j < i \<or> i + 2 \<le> j"
  using that by (auto simp: put16_def)

lemma get_put32 [simp]:
  assumes "i + 4 \<le> length b"
  shows "get32 (put32 i v b) i = v"
proof (rule bit_word_eqI)
  fix n assume "n < LENGTH(32)"
  then consider "n < 8" | "8 \<le> n" "n < 16" | "16 \<le> n" "n < 24" | "24 \<le> n" "n < 32" by fastforce
  then show "bit (get32 (put32 i v b) i) n \<longleftrightarrow> bit v n"
    using assms
    by cases (auto simp: get32_def put32_def bit_or_iff bit_push_bit_iff bit_ucast_iff bit_drop_bit_eq)
qed

lemma get_put32_other: "j + 4 \<le> i \<or> i + 4 \<le> j \<Longrightarrow> get32 (put32 i v b) j = get32 b j"
  by (auto simp: get32_def nth_put32)

lemma get_put16 [simp]: "i + 2 \<le> length b \<Longrightarrow> get16 (put16 i v b) i = v"
  by (rule bit_word_eqI) (auto simp: get16_def put16_def bit_or_iff bit_push_bit_iff bit_ucast_iff bit_drop_bit_eq
      nth_list_update not_less)

lemma u32_eqI: "unat (a :: u32) = unat b \<Longrightarrow> a = b"
  by (drule arg_cong [where f = "of_nat :: nat \<Rightarrow> u32"]) simp

lemma and_mask28: "unat (n AND 0x0FFFFFFF :: u32) = unat n mod 2 ^ 28"
proof -
  have "n AND 0x0FFFFFFF = take_bit 28 n" by (simp add: take_bit_eq_mask mask_numeral)
  then show ?thesis by (simp only: unsigned_take_bit_eq) (simp add: take_bit_eq_mod)
qed

lemma and_mask28_id: "unat n < 2 ^ 28 \<Longrightarrow> n AND 0x0FFFFFFF = (n :: u32)"
  by (rule u32_eqI) (simp only: and_mask28, simp)

end
