(* ===== verification/Fifo.thy ===== *)
theory Fifo
  imports Prelude
begin

text \<open>
  The contract of a bounded first-in first-out buffer, as the byte pipe (kernel/core/pipe.c) and
  the keyboard queue (kernel/modules/drivers/keyboard.c) promise it, and what follows from it for
  any sequence of operations. The second half is arithmetic on ring buffers that both
  implementations use: the elements from a tail position onwards, modulo the size.
\<close>

section \<open>The interface\<close>

datatype 'a fifo_op = Put 'a | Get

locale bounded_fifo =
  fixes put :: "'a \<Rightarrow> 'q \<Rightarrow> 'q"
    and get :: "'q \<Rightarrow> ('a \<times> 'q) option"
    and contents :: "'q \<Rightarrow> 'a list"
    and capacity :: "'q \<Rightarrow> nat"
    and invar :: "'q \<Rightarrow> bool"
  assumes invar_put: "invar q \<Longrightarrow> invar (put x q)"
    and invar_get: "invar q \<Longrightarrow> get q = Some (x, q') \<Longrightarrow> invar q'"
    and bounded: "invar q \<Longrightarrow> length (contents q) \<le> capacity q"
    and contents_put: "invar q \<Longrightarrow> contents (put x q) =
      (if length (contents q) < capacity q then contents q @ [x] else contents q)"
    and get_empty: "invar q \<Longrightarrow> get q = None \<longleftrightarrow> contents q = []"
    and contents_get: "invar q \<Longrightarrow> get q = Some (x, q') \<Longrightarrow> contents q = x # contents q'"
    and capacity_put: "capacity (put x q) = capacity q"
    and capacity_get: "get q = Some (x, q') \<Longrightarrow> capacity q' = capacity q"
begin

text \<open>A run of operations: the elements accepted, the elements delivered, the final queue.\<close>

fun run :: "'a fifo_op list \<Rightarrow> 'q \<Rightarrow> 'a list \<times> 'a list \<times> 'q" where
  "run [] q = ([], [], q)"
| "run (Put x # ops) q =
     (let (i, out, q') = run ops (put x q)
      in ((if length (contents q) < capacity q then x # i else i), out, q'))"
| "run (Get # ops) q =
     (case get q of
        None \<Rightarrow> run ops q
      | Some (x, q1) \<Rightarrow> (let (i, out, q') = run ops q1 in (i, x # out, q')))"

lemma run_invar: "invar q \<Longrightarrow> run ops q = (i, out, q') \<Longrightarrow> invar q'"
proof (induction ops q arbitrary: i out q' rule: run.induct)
  case (2 x ops q)
  then show ?case
    by (auto simp: Let_def invar_put split: prod.splits)
next
  case (3 ops q)
  show ?case
  proof (cases "get q")
    case None
    with 3 show ?thesis by auto
  next
    case (Some a)
    obtain x q1 where g: "get q = Some (x, q1)" using Some by (cases a) auto
    obtain i1 out1 q2 where r: "run ops q1 = (i1, out1, q2)" by (cases "run ops q1") auto
    have "invar q2"
      using "3.IH"(2) [OF g refl invar_get [OF "3.prems"(1) g] r] .
    with "3.prems" g r show ?thesis by simp
  qed
qed auto

text \<open>Nothing is lost, duplicated or reordered.\<close>

lemma run_fifo:
  "invar q \<Longrightarrow> run ops q = (i, out, q') \<Longrightarrow> contents q @ i = out @ contents q'"
proof (induction ops q arbitrary: i out q' rule: run.induct)
  case (2 x ops q)
  obtain i1 out1 q1 where r: "run ops (put x q) = (i1, out1, q1)"
    by (cases "run ops (put x q)") auto
  from "2.prems" r have eq: "out = out1" "q' = q1"
    "i = (if length (contents q) < capacity q then x # i1 else i1)"
    by auto
  from "2.IH" [OF invar_put [OF "2.prems"(1)] r]
  have "contents (put x q) @ i1 = out1 @ contents q1" .
  with eq show ?case by (simp add: contents_put [OF "2.prems"(1)] split: if_splits)
next
  case (3 ops q)
  show ?case
  proof (cases "get q")
    case None
    with 3 show ?thesis by auto
  next
    case (Some a)
    obtain x q1 where g: "get q = Some (x, q1)" using Some by (cases a) auto
    obtain i1 out1 q2 where r: "run ops q1 = (i1, out1, q2)" by (cases "run ops q1") auto
    have "contents q1 @ i1 = out1 @ contents q2"
      using "3.IH"(2) [OF g refl invar_get [OF "3.prems"(1) g] r] .
    with "3.prems" g r show ?thesis by (simp add: contents_get [OF "3.prems"(1) g])
  qed
qed auto

text \<open>Filling from a list takes the prefix that fits; draining yields the oldest elements.\<close>

fun puts :: "'a list \<Rightarrow> 'q \<Rightarrow> 'q" where
  "puts [] q = q"
| "puts (x # xs) q = puts xs (put x q)"

lemma invar_puts: "invar q \<Longrightarrow> invar (puts xs q)"
  by (induction xs arbitrary: q) (auto simp: invar_put)

lemma contents_puts:
  "invar q \<Longrightarrow> contents (puts xs q) = contents q @ take (capacity q - length (contents q)) xs"
proof (induction xs arbitrary: q)
  case (Cons x xs)
  have "contents (puts xs (put x q)) =
      contents (put x q) @ take (capacity (put x q) - length (contents (put x q))) xs"
    by (rule Cons.IH) (rule invar_put [OF Cons.prems])
  also have "\<dots> = contents q @ take (capacity q - length (contents q)) (x # xs)"
    by (cases "capacity q - length (contents q)")
      (auto simp: contents_put [OF Cons.prems] capacity_put Suc_diff_Suc
        dest: arg_cong [of _ _ "\<lambda>n. n - 1"])
  finally show ?case by simp
qed simp

end

section \<open>Ring buffers\<close>

text \<open>The \<open>n\<close> elements of a ring buffer from position \<open>t\<close> on.\<close>

definition ring :: "'a list \<Rightarrow> nat \<Rightarrow> nat \<Rightarrow> 'a list" where
  "ring buf t n = map (\<lambda>i. buf ! ((t + i) mod length buf)) [0..<n]"

lemma length_ring [simp]: "length (ring buf t n) = n"
  by (simp add: ring_def)

lemma ring_0 [simp]: "ring buf t 0 = []"
  by (simp add: ring_def)

lemma ring_Suc_front: "ring buf t (Suc n) = buf ! (t mod length buf) # ring buf (Suc t) n"
  by (simp add: ring_def upt_conv_Cons map_Suc_upt [symmetric] del: upt_Suc)

lemma ring_mod: "ring buf (t mod length buf) n = ring buf t n"
  by (simp add: ring_def mod_add_left_eq)

lemma ring_snoc:
  assumes "n < length buf" "h = (t + n) mod length buf"
  shows "ring (buf[h := x]) t (Suc n) = ring buf t n @ [x]"
proof -
  have "h \<noteq> (t + i) mod length buf" if "i < n" for i
  proof
    assume "h = (t + i) mod length buf"
    with assms have "(t + n) mod length buf = (t + i) mod length buf" by simp
    with that have "length buf dvd n - i" by (simp add: mod_eq_dvd_iff_nat)
    with that assms show False by (auto dest: dvd_imp_le)
  qed
  moreover have "h < length buf"
    using assms mod_less_divisor [of "length buf" "t + n"] by linarith
  ultimately show ?thesis using assms(1) by (simp add: ring_def assms(2) [symmetric])
qed

end
