(* ===== verification/Cstring.thy ===== *)
theory Cstring
  imports Prelude "HOL-Library.Signed_Division"
begin

text \<open>
  The string and memory routines of libc/string.c and libc/mem.c. A C string is the part of a byte
  buffer before its first zero byte; a routine that would leave its buffer yields \<open>None\<close>. Shown:
  the routines on terminated strings compute the list operations they stand for exactly when the
  destination is large enough, number formatting can be read back, and the forward copy loop is
  right for overlapping regions when the destination lies below the source.
\<close>

section \<open>Routines of libc/string.c\<close>

fun strlen_loop :: "u8 list \<Rightarrow> nat option" where
  "strlen_loop [] = None"
| "strlen_loop (c # cs) = (if c = 0 then Some 0 else map_option Suc (strlen_loop cs))"

text \<open>\<open>strlen\<close> of a pointer, \<open>None\<close> being the null pointer.\<close>

definition strlen :: "u8 list option \<Rightarrow> nat option" where
  "strlen s = (case s of None \<Rightarrow> Some 0 | Some cs \<Rightarrow> strlen_loop cs)"

function reverse_loop :: "int \<Rightarrow> int \<Rightarrow> u8 list \<Rightarrow> u8 list option" where
  "reverse_loop i j s =
     (if i < j then do {
        c \<leftarrow> peek s (nat i);
        d \<leftarrow> peek s (nat j);
        s1 \<leftarrow> poke (nat i) d s;
        s2 \<leftarrow> poke (nat j) c s1;
        reverse_loop (i + 1) (j - 1) s2
      } else Some s)"
  by pat_completeness auto
termination by (relation "measure (\<lambda>(i, j, s). nat (j - i))") auto

declare reverse_loop.simps [simp del]

definition reverse :: "u8 list \<Rightarrow> u8 list option" where
  "reverse s = do { n \<leftarrow> strlen (Some s); reverse_loop 0 (int n - 1) s }"

definition append_char :: "u8 list \<Rightarrow> u8 \<Rightarrow> u8 list option" where
  "append_char s c = do {
     len \<leftarrow> strlen (Some s);
     s1 \<leftarrow> poke len c s;
     poke (len + 1) 0 s1 }"

definition backspace :: "u8 list \<Rightarrow> u8 list option" where
  "backspace s = do {
     len \<leftarrow> strlen (Some s);
     if 0 < len then poke (len - 1) 0 s else Some s }"

text \<open>\<open>char\<close> is signed on this target: the result is the difference of the sign-extended bytes.\<close>

fun strcmp :: "u8 list \<Rightarrow> u8 list \<Rightarrow> int option" where
  "strcmp (a # as) (b # bs) =
     (if a = b then (if a = 0 then Some 0 else strcmp as bs) else Some (sint a - sint b))"
| "strcmp _ _ = None"

fun strcpy_loop :: "nat \<Rightarrow> u8 list \<Rightarrow> u8 list \<Rightarrow> u8 list option" where
  "strcpy_loop i dest [] = None"
| "strcpy_loop i dest (c # src) =
     (if c = 0 then poke i 0 dest
      else do { d \<leftarrow> poke i c dest; strcpy_loop (i + 1) d src })"

definition strcpy :: "u8 list \<Rightarrow> u8 list \<Rightarrow> u8 list option" where
  "strcpy dest src = strcpy_loop 0 dest src"

definition strcat :: "u8 list \<Rightarrow> u8 list \<Rightarrow> u8 list option" where
  "strcat dest src = do { n \<leftarrow> strlen (Some dest); strcpy_loop n dest src }"

text \<open>
  \<open>int_to_ascii\<close>: \<open>n\<close> is a 32-bit \<open>int\<close>, whose negation wraps at the smallest value; division and
  remainder truncate. The digits are produced least significant first and reversed at the end.
\<close>

definition wrap32 :: "int \<Rightarrow> int" where
  "wrap32 n = signed_take_bit 31 n"

function digits_loop :: "int \<Rightarrow> nat \<Rightarrow> u8 list \<Rightarrow> (nat \<times> u8 list) option" where
  "digits_loop n i str = do {
     s \<leftarrow> poke i (of_int (n smod 10 + 48)) str;
     let n' = n sdiv 10;
     if 0 < n' then digits_loop n' (i + 1) s else Some (i + 1, s) }"
  by pat_completeness auto
termination
proof (relation "measure (\<lambda>(n, i, str). nat n)", simp)
  fix n :: int and i str s n'
  assume "n' = n sdiv 10" "0 < n'"
  then show "((n', i + 1, s), n, i, str) \<in> measure (\<lambda>(n, i, str). nat n)"
    by (auto simp: sgn_if signed_divide_int_def split: if_splits)
qed

declare digits_loop.simps [simp del]

definition int_to_ascii :: "int \<Rightarrow> u8 list \<Rightarrow> u8 list option" where
  "int_to_ascii n str = do {
     let sign = n;
     let n1 = (if n < 0 then wrap32 (- n) else n);
     (i, s1) \<leftarrow> digits_loop n1 0 str;
     (i, s2) \<leftarrow> (if sign < 0 then do { s \<leftarrow> poke i 45 s1; Some (i + 1, s) } else Some (i, s1));
     s3 \<leftarrow> poke i 0 s2;
     reverse s3 }"

text \<open>
  \<open>hex_to_ascii\<close>: the loop index \<open>j\<close> runs over 60, 56, ..., 0; the list holds the rest of that sequence.
\<close>

definition hex_digit :: "u64 \<Rightarrow> u8" where
  "hex_digit d = (if 0xA \<le> d then ucast (d - 0xA + 97) else ucast (d + 48))"

fun hex_loop :: "nat list \<Rightarrow> u64 \<Rightarrow> bool \<Rightarrow> nat \<Rightarrow> u8 list \<Rightarrow> (nat \<times> u8 list) option" where
  "hex_loop [] n zeros i str = Some (i, str)"
| "hex_loop (j # js) n zeros i str =
     (let tmp = drop_bit j n AND 0xF in
      if tmp = 0 \<and> \<not> zeros \<and> 0 < j then hex_loop js n zeros i str
      else do { s \<leftarrow> poke i (hex_digit tmp) str; hex_loop js n True (i + 1) s })"

definition hex_to_ascii :: "u64 \<Rightarrow> u8 list \<Rightarrow> u8 list option" where
  "hex_to_ascii n str = do {
     s0 \<leftarrow> poke 0 48 str;
     s1 \<leftarrow> poke 1 120 s0;
     (i, s) \<leftarrow> hex_loop [60, 56, 52, 48, 44, 40, 36, 32, 28, 24, 20, 16, 12, 8, 4, 0] n False 2 s1;
     poke i 0 s }"

section \<open>Routines of libc/mem.c\<close>

type_synonym mem = "nat \<Rightarrow> u8"

text \<open>
  The loop of \<open>memory_copy\<close> counts with an \<open>int\<close> up to a \<open>size_t\<close>; it has no defined result once the counter
  overflows or an address leaves the address space.
\<close>

fun memory_copy_loop :: "nat \<Rightarrow> nat \<Rightarrow> nat \<Rightarrow> nat \<Rightarrow> mem \<Rightarrow> mem option" where
  "memory_copy_loop 0 i source dest m = Some m"
| "memory_copy_loop (Suc k) i source dest m =
     (if 2 ^ 64 \<le> source + i \<or> 2 ^ 64 \<le> dest + i then None
      else if i = 2 ^ 31 - 1 then None
      else memory_copy_loop k (i + 1) source dest (m(dest + i := m (source + i))))"

definition memory_copy :: "nat \<Rightarrow> nat \<Rightarrow> nat \<Rightarrow> mem \<Rightarrow> mem option" where
  "memory_copy source dest nbytes m = memory_copy_loop nbytes 0 source dest m"

fun memory_set :: "nat \<Rightarrow> u8 \<Rightarrow> nat \<Rightarrow> mem \<Rightarrow> mem" where
  "memory_set temp val 0 m = m"
| "memory_set temp val (Suc len) m = memory_set (temp + 1) val len (m(temp := val))"

fun memory_compare :: "nat \<Rightarrow> nat \<Rightarrow> nat \<Rightarrow> mem \<Rightarrow> int" where
  "memory_compare s1 s2 0 m = 0"
| "memory_compare s1 s2 (Suc n) m =
     (if m s1 \<noteq> m s2 then uint (m s1) - uint (m s2) else memory_compare (s1 + 1) (s2 + 1) n m)"

section \<open>Strings in buffers\<close>

text \<open>The string a buffer holds, and whether it is terminated inside the buffer.\<close>

definition cstr :: "u8 list \<Rightarrow> u8 list" where
  "cstr buf = takeWhile (\<lambda>c. c \<noteq> 0) buf"

definition terminated :: "u8 list \<Rightarrow> bool" where
  "terminated buf \<longleftrightarrow> 0 \<in> set buf"

lemma cstr_append [simp]: "0 \<notin> set cs \<Longrightarrow> cstr (cs @ 0 # r) = cs"
  unfolding cstr_def by (subst takeWhile_append2) auto

lemma cstr_nonzero: "0 \<notin> set (cstr buf)"
  unfolding cstr_def by (auto dest: set_takeWhileD)

lemma terminated_split:
  assumes "terminated buf"
  obtains r where "buf = cstr buf @ 0 # r"
proof -
  obtain ys zs where "buf = ys @ 0 # zs" "0 \<notin> set ys"
    using split_list_first assms by (metis terminated_def)
  then show ?thesis using that by simp
qed

lemma strlen_loop_cstr: "strlen_loop buf = (if terminated buf then Some (length (cstr buf)) else None)"
  by (induction buf) (auto simp: terminated_def cstr_def)

lemma strlen_cstr [simp]: "0 \<notin> set cs \<Longrightarrow> strlen (Some (cs @ 0 # r)) = Some (length cs)"
  by (simp add: strlen_def strlen_loop_cstr terminated_def)

lemma strcpy_loop_fits:
  "0 \<notin> set cs \<Longrightarrow> length a + length cs < length a + length d \<Longrightarrow>
   strcpy_loop (length a) (a @ d) (cs @ 0 # r) = Some (a @ cs @ 0 # drop (Suc (length cs)) d)"
proof (induction cs arbitrary: a d)
  case Nil
  then show ?case by (cases d) auto
next
  case (Cons c cs)
  then obtain y d' where d: "d = y # d'" by (cases d) auto
  from Cons.IH [of "a @ [c]" d'] Cons.prems show ?case by (simp add: d)
qed

lemma strcpy_loop_overflow:
  "0 \<notin> set cs \<Longrightarrow> length d \<le> i + length cs \<Longrightarrow> strcpy_loop i d (cs @ 0 # r) = None"
proof (induction cs arbitrary: i d)
  case (Cons c cs)
  then show ?case by (cases "i < length d") (simp_all add: poke_def)
qed simp

text \<open>
  C36. \<open>strcat\<close> on terminated strings appends the source string and its terminator, leaving the rest
  of the destination alone, exactly when both strings and one terminator fit; in every other case
  it writes outside the destination.
\<close>

theorem strcat_appends:
  assumes "terminated dest" "terminated src"
  shows "strcat dest src =
    (if length (cstr dest) + length (cstr src) < length dest
     then Some (cstr dest @ cstr src @ 0 # drop (Suc (length (cstr dest) + length (cstr src))) dest)
     else None)"
proof -
  obtain d where d: "dest = cstr dest @ 0 # d" using assms(1) by (rule terminated_split)
  obtain r where r: "src = cstr src @ 0 # r" using assms(2) by (rule terminated_split)
  note nz = cstr_nonzero [of dest] cstr_nonzero [of src]
  have len: "strlen (Some dest) = Some (length (cstr dest))"
    using assms by (simp add: strlen_def strlen_loop_cstr)
  show ?thesis
  proof (cases "length (cstr dest) + length (cstr src) < length dest")
    case True
    then have "length (cstr dest) + length (cstr src) < length (cstr dest) + length (0 # d)"
      by (metis d length_append)
    from strcpy_loop_fits [OF nz(2) this, of r] True show ?thesis
      by (metis (no_types, lifting) d r len strcat_def bind.bind_lunit append_eq_conv_conj
          add_Suc_right drop_drop add.commute)
  next
    case False
    then have "length dest \<le> length (cstr dest) + length (cstr src)" by simp
    from strcpy_loop_overflow [OF nz(2) this, of r] False show ?thesis
      using r len by (simp add: strcat_def)
  qed
qed

theorem strcat_appends_witness:
  "strcat [104, 105, 0, 9, 9, 9] [33, 0] = Some [104, 105, 33, 0, 9, 9] \<and>
   strcat [104, 105, 0] [33, 0] = None"
  using strcat_appends [of "[104, 105, 0, 9, 9, 9]" "[33, 0]"] strcat_appends [of "[104, 105, 0]" "[33, 0]"]
  by (simp add: terminated_def cstr_def)

lemma sint_eq_iff: "sint (a :: u8) = sint b \<longleftrightarrow> a = b"
  by (auto intro: signed_word_eqI)

lemma strcmp_zero_iff:
  "terminated a \<Longrightarrow> terminated b \<Longrightarrow> \<exists>r. strcmp a b = Some r \<and> (r = 0 \<longleftrightarrow> cstr a = cstr b)"
  by (induction a b rule: strcmp.induct)
    (auto simp: terminated_def cstr_def sint_eq_iff sint_eq_iff [of _ 0, simplified])

section \<open>Reversal in place\<close>

lemma reverse_loop_segment:
  "reverse_loop (int (length a)) (int (length a) + int (length m) - 1) (a @ m @ b) =
     Some (a @ rev m @ b)"
proof (induction "length m" arbitrary: a m b rule: less_induct)
  case less
  consider "length m \<le> 1" | x m' y where "m = x # m' @ [y]"
  proof (cases m)
    case (Cons x m1)
    then show ?thesis using that by (cases m1 rule: rev_cases) auto
  qed (use that in auto)
  then show ?case
  proof cases
    case 1
    then show ?thesis by (subst reverse_loop.simps) (cases m; auto)
  next
    case 2
    from less [of m' "a @ [y]" "x # b"] 2 show ?thesis
      by (subst reverse_loop.simps)
        (simp add: nat_add_distrib nth_append list_update_append algebra_simps)
  qed
qed

lemma reverse_cstr:
  assumes "0 \<notin> set cs"
  shows "reverse (cs @ 0 # r) = Some (rev cs @ 0 # r)"
  using reverse_loop_segment [of "[]" cs "0 # r"] assms by (simp add: reverse_def)

section \<open>Decimal output\<close>

text \<open>The decimal digits of a natural number, least significant first, and how text is read back.\<close>

fun digs :: "nat \<Rightarrow> u8 list" where
  "digs n = of_nat (n mod 10 + 48) # (if 0 < n div 10 then digs (n div 10) else [])"

declare digs.simps [simp del]

lemma digs_step: "0 < n div 10 \<Longrightarrow> digs n = of_nat (n mod 10 + 48) # digs (n div 10)"
  "\<not> 0 < n div 10 \<Longrightarrow> digs n = [of_nat (n mod 10 + 48)]"
  by (subst digs.simps, simp)+

lemma digs_not_Nil [simp]: "digs n \<noteq> []"
  by (subst digs.simps) simp

definition dec_value :: "u8 list \<Rightarrow> int" where
  "dec_value cs = foldl (\<lambda>v c. 10 * v + (uint c - 48)) 0 cs"

definition parse_int :: "u8 list \<Rightarrow> int" where
  "parse_int cs = (case cs of c # ds \<Rightarrow> if c = 45 then - dec_value ds else dec_value cs | [] \<Rightarrow> 0)"

lemma uint_digit: "uint (of_nat (n mod 10 + 48) :: u8) = int (n mod 10 + 48)"
proof -
  have "n mod 10 + 48 < 256" using mod_less_divisor [of 10 n] by linarith
  then have "unat (of_nat (n mod 10 + 48) :: u8) = n mod 10 + 48"
    by (simp only: unsigned_of_nat) (simp add: take_bit_nat_eq_self)
  then show ?thesis by (metis uint_nat)
qed

lemma digs_ascii: "c \<in> set (digs n) \<Longrightarrow> 48 \<le> uint c \<and> uint c < 58"
proof (induction n rule: digs.induct)
  case (1 n)
  show ?case
  proof (cases "c = of_nat (n mod 10 + 48)")
    case True
    then show ?thesis using uint_digit [of n] mod_less_divisor [of 10 n] by simp
  next
    case False
    have pos: "0 < n div 10"
      using "1.prems" False digs_step(2) [of n] by fastforce
    have "c \<in> set (digs (n div 10))"
      using "1.prems" False unfolding digs_step(1) [OF pos] by simp
    with pos show ?thesis by (rule "1.IH")
  qed
qed

lemma digs_not: "0 \<notin> set (digs n)" "45 \<notin> set (digs n)"
  using digs_ascii [of 0 n] digs_ascii [of 45 n] by auto

lemma dec_value_snoc: "dec_value (cs @ [c]) = 10 * dec_value cs + (uint c - 48)"
  by (simp add: dec_value_def)

lemma dec_value_Nil [simp]: "dec_value [] = 0"
  by (simp add: dec_value_def)

lemma dec_value_digs: "dec_value (rev (digs n)) = int n"
proof (induction n rule: digs.induct)
  case (1 n)
  have split: "10 * int (n div 10) + int (n mod 10) = int n" by presburger
  show ?case
  proof (cases "0 < n div 10")
    case True
    have "dec_value (rev (digs n)) = 10 * int (n div 10) + (int (n mod 10 + 48) - 48)"
      by (simp only: digs_step(1) [OF True] rev.simps dec_value_snoc uint_digit "1.IH" [OF True])
    then show ?thesis using split by linarith
  next
    case False
    have "dec_value (rev (digs n)) = int (n mod 10 + 48) - 48"
      by (simp only: digs_step(2) [OF False] rev.simps dec_value_snoc uint_digit dec_value_Nil)
    then show ?thesis using split False by linarith
  qed
qed

lemma digs_length: "0 < k \<Longrightarrow> n < 10 ^ k \<Longrightarrow> length (digs n) \<le> k"
proof (induction n arbitrary: k rule: digs.induct)
  case (1 n)
  show ?case
  proof (cases "0 < n div 10")
    case True
    then obtain k' where k: "k = Suc k'" "0 < k'"
      using "1.prems" by (cases k; cases "k - 1") auto
    then have "n div 10 < 10 ^ k'" using "1.prems" by (simp add: less_mult_imp_div_less mult.commute)
    from "1.IH" [OF True k(2) this] k show ?thesis by (subst digs.simps) simp
  next
    case False
    with "1.prems" show ?thesis by (subst digs.simps) simp
  qed
qed

lemma digits_loop_step:
  "digits_loop (int n) i str =
     (if i < length str
      then if 0 < n div 10 then digits_loop (int (n div 10)) (i + 1) (str[i := of_nat (n mod 10 + 48)])
           else Some (i + 1, str[i := of_nat (n mod 10 + 48)])
      else None)"
proof -
  have "int n smod 10 = int (n mod 10)" "int n sdiv 10 = int (n div 10)"
    by (cases "n = 0"; simp add: signed_modulo_int_def signed_divide_int_def of_nat_mod of_nat_div)+
  then show ?thesis
    by (subst digits_loop.simps) (simp add: poke_def del: div_greater_zero_iff)
qed

lemma digits_loop_digs:
  "length (digs n) \<le> length d \<Longrightarrow>
   digits_loop (int n) (length a) (a @ d) =
     Some (length a + length (digs n), a @ digs n @ drop (length (digs n)) d)"
proof (induction n arbitrary: a d rule: digs.induct)
  case (1 n)
  then have "d \<noteq> []" by (subst (asm) (2) digs.simps) auto
  then obtain y d' where d: "d = y # d'" by (cases d) auto
  show ?case
  proof (cases "0 < n div 10")
    case True
    with "1.prems" d have len: "length (digs (n div 10)) \<le> length d'" by (simp add: digs_step)
    from "1.IH" [OF True len, of "a @ [of_nat (n mod 10 + 48)]"] show ?thesis
      by (subst digits_loop_step) (simp add: d digs_step(1) [OF True] True del: of_nat_add div_greater_zero_iff)
  next
    case False
    then show ?thesis
      by (subst digits_loop_step) (simp add: d digs_step(2) [OF False] del: of_nat_add div_greater_zero_iff)
  qed
qed

lemma wrap32_id: "- (2 ^ 31) \<le> n \<Longrightarrow> n < 2 ^ 31 \<Longrightarrow> wrap32 n = n"
  by (simp add: wrap32_def signed_take_bit_int_eq_self)

lemma int_to_ascii_text:
  assumes "- (2 ^ 31) < n" "n < 2 ^ 31" "12 \<le> length str"
  shows "\<exists>r. int_to_ascii n str =
    Some ((if n < 0 then [45] else []) @ rev (digs (nat \<bar>n\<bar>)) @ 0 # r)"
proof -
  let ?ds = "digs (nat \<bar>n\<bar>)" and ?d = "drop (length (digs (nat \<bar>n\<bar>))) str"
  have len: "length ?ds \<le> 10" using assms by (intro digs_length) auto
  with assms have loop: "digits_loop \<bar>n\<bar> 0 str = Some (length ?ds, ?ds @ ?d)"
    using digits_loop_digs [of "nat \<bar>n\<bar>" str "[]"] by simp
  obtain x y d where d: "?d = x # y # d"
    using len assms(3) by (cases ?d; cases "tl ?d") (auto dest: arg_cong [of _ _ length])
  have abs: "(if n < 0 then wrap32 (- n) else n) = \<bar>n\<bar>"
    using assms by (auto simp: wrap32_id)
  show ?thesis
  proof (cases "n < 0")
    case True
    have "reverse ((?ds @ [45]) @ 0 # d) = Some (rev (?ds @ [45]) @ 0 # d)"
      by (rule reverse_cstr) (simp add: digs_not)
    with True abs loop d show ?thesis by (simp add: int_to_ascii_def Let_def list_update_append)
  next
    case False
    have "reverse (?ds @ 0 # y # d) = Some (rev ?ds @ 0 # y # d)"
      by (rule reverse_cstr) (simp add: digs_not)
    with False abs loop d show ?thesis by (simp add: int_to_ascii_def Let_def list_update_append)
  qed
qed

text \<open>
  C34. Round trip of \<open>int_to_ascii\<close>: for every 32-bit integer except the smallest, a buffer of 12
  bytes is enough, the result is a terminated string, and reading it back gives the integer.
\<close>

theorem int_to_ascii_roundtrip:
  assumes "- (2 ^ 31) < n" "n < 2 ^ 31" "12 \<le> length str"
  shows "\<exists>s. int_to_ascii n str = Some s \<and> terminated s \<and> parse_int (cstr s) = n"
proof -
  let ?cs = "(if n < 0 then [45] else []) @ rev (digs (nat \<bar>n\<bar>))"
  obtain r where r: "int_to_ascii n str = Some (?cs @ 0 # r)"
    using int_to_ascii_text [OF assms] by auto
  have nz: "0 \<notin> set ?cs" by (auto simp: digs_not)
  obtain c ds where c: "rev (digs (nat \<bar>n\<bar>)) = c # ds"
    by (cases "rev (digs (nat \<bar>n\<bar>))") auto
  have "c \<noteq> 45" using digs_not(2) [of "nat \<bar>n\<bar>"] arg_cong [OF c, of set] by auto
  then have "parse_int ?cs = n"
    using dec_value_digs [of "nat \<bar>n\<bar>"] by (auto simp: parse_int_def c)
  then have "parse_int (cstr (?cs @ 0 # r)) = n" using cstr_append [OF nz] by metis
  moreover have "terminated (?cs @ 0 # r)" by (simp add: terminated_def)
  ultimately show ?thesis using r by blast
qed

theorem int_to_ascii_roundtrip_witness:
  "\<exists>s. int_to_ascii (- 2026) (replicate 12 7) = Some s \<and> terminated s \<and> parse_int (cstr s) = - 2026"
  using int_to_ascii_roundtrip [of "- 2026" "replicate 12 7"] by simp

text \<open>The smallest integer, whose negation wraps to itself, prints as a minus sign and one byte
  below the digits: the remainder is negative and the loop stops after one round.\<close>

lemma int_to_ascii_min: "int_to_ascii (- (2 ^ 31)) (replicate 12 7) = Some (45 # 40 # 0 # replicate 9 7)"
  by code_simp

section \<open>Hexadecimal output\<close>

definition hexval :: "u8 \<Rightarrow> int" where
  "hexval c = (if 97 \<le> uint c then uint c - 87 else uint c - 48)"

definition hex_value :: "int \<Rightarrow> u8 list \<Rightarrow> int" where
  "hex_value v cs = foldl (\<lambda>v c. 16 * v + hexval c) v cs"

lemma hex_digit_all: "\<forall>k \<in> {0..<16::nat}. hexval (hex_digit (of_nat k)) = int k \<and> hex_digit (of_nat k) \<noteq> 0"
  by code_simp

lemma nibble:
  fixes n :: u64
  shows "uint (drop_bit m n) = 16 * uint (drop_bit (m + 4) n) + uint (drop_bit m n AND 0xF)"
    and "\<exists>k < 16. drop_bit m n AND 0xF = of_nat k"
proof -
  have m: "drop_bit m n AND 0xF = take_bit 4 (drop_bit m n)"
    by (simp add: take_bit_eq_mask mask_numeral)
  then have u: "uint (drop_bit m n AND 0xF) = uint (drop_bit m n) mod 16"
    by (simp only: m unsigned_take_bit_eq) (simp add: take_bit_eq_mod)
  have "uint (drop_bit (m + 4) n) = uint (drop_bit m n) div 16"
    unfolding uint_nat unat_drop_bit_eq
    by (simp add: drop_bit_eq_div [of _ "_ :: nat"] power_add div_mult2_eq of_nat_div)
  with u show "uint (drop_bit m n) = 16 * uint (drop_bit (m + 4) n) + uint (drop_bit m n AND 0xF)"
    by simp
  have "unat (drop_bit m n AND 0xF) < 16"
    using u by (simp add: unat_eq_nat_uint nat_less_iff)
  then show "\<exists>k < 16. drop_bit m n AND 0xF = of_nat k" by (auto intro!: exI [of _ "unat (drop_bit m n AND 0xF)"])
qed

lemma hex_loop_digits:
  "k \<le> length d \<Longrightarrow> (\<not> zeros \<Longrightarrow> drop_bit (4 * k) n = 0) \<Longrightarrow>
   \<exists>cs. hex_loop (map ((*) 4) (rev [0..<k])) n zeros (length a) (a @ d) =
      Some (length a + length cs, a @ cs @ drop (length cs) d) \<and>
     length cs \<le> k \<and> 0 \<notin> set cs \<and> hex_value (uint (drop_bit (4 * k) n)) cs = uint n"
proof (induction k arbitrary: zeros a d)
  case 0
  then show ?case by (simp add: hex_value_def)
next
  case (Suc k)
  let ?tmp = "drop_bit (4 * k) n AND 0xF"
  note nib = nibble(1) [of "4 * k" n]
  show ?case
  proof (cases "?tmp = 0 \<and> \<not> zeros \<and> 0 < 4 * k")
    case True
    then have "drop_bit (4 * Suc k) n = 0" using Suc.prems by simp
    with nib True have zero: "uint (drop_bit (4 * k) n) = 0" by (simp add: add.commute)
    then have "drop_bit (4 * k) n = 0" by (simp add: uint_0_iff)
    from Suc.IH [of d zeros a, OF _ this] Suc.prems(1) obtain cs where
      "hex_loop (map ((*) 4) (rev [0..<k])) n zeros (length a) (a @ d) =
         Some (length a + length cs, a @ cs @ drop (length cs) d)"
      "length cs \<le> k" "0 \<notin> set cs" "hex_value (uint (drop_bit (4 * k) n)) cs = uint n"
      by auto
    with True zero \<open>drop_bit (4 * Suc k) n = 0\<close> show ?thesis
      by (intro exI [of _ cs]) (simp add: Let_def)
  next
    case False
    obtain x d' where d: "d = x # d'" using Suc.prems(1) by (cases d) auto
    obtain j where j: "j < 16" "?tmp = of_nat j" using nibble(2) by blast
    from hex_digit_all j have hd: "hexval (hex_digit ?tmp) = uint ?tmp" "hex_digit ?tmp \<noteq> 0"
      by (auto simp: unsigned_of_nat take_bit_nat_eq_self)
    obtain cs where cs:
      "hex_loop (map ((*) 4) (rev [0..<k])) n True (length (a @ [hex_digit ?tmp])) ((a @ [hex_digit ?tmp]) @ d') =
         Some (length (a @ [hex_digit ?tmp]) + length cs, (a @ [hex_digit ?tmp]) @ cs @ drop (length cs) d')"
      "length cs \<le> k" "0 \<notin> set cs" "hex_value (uint (drop_bit (4 * k) n)) cs = uint n"
      using Suc.IH [of d' True "a @ [hex_digit ?tmp]"] Suc.prems(1) d by auto
    from False cs hd nib show ?thesis
      by (intro exI [of _ "hex_digit ?tmp # cs"])
        (auto simp: Let_def d hex_value_def add.commute list_update_append)
  qed
qed

text \<open>
  C35. Round trip of \<open>hex_to_ascii\<close>: for every 64-bit value the 20-byte buffers of its callers are
  large enough, the result is the terminated string of \<open>0x\<close> and at most 16 digits, and the digits
  read back to the value.
\<close>

theorem hex_to_ascii_roundtrip:
  assumes "20 \<le> length str"
  shows "\<exists>s ds. hex_to_ascii n str = Some s \<and> terminated s \<and> cstr s = 48 # 120 # ds \<and>
    length ds \<le> 16 \<and> hex_value 0 ds = uint n"
proof -
  obtain x y d where d: "str = x # y # d" "18 \<le> length d"
    using assms by (cases str; cases "tl str") auto
  have js: "[60, 56, 52, 48, 44, 40, 36, 32, 28, 24, 20, 16, 12, 8, 4, 0] = map ((*) 4) (rev [0..<16::nat])"
    by (simp add: upt_rec)
  have top: "drop_bit (4 * 16) n = 0"
    by (rule bit_word_eqI) (auto simp: bit_drop_bit_eq dest: bit_imp_le_length)
  obtain cs where cs: "hex_loop (map ((*) 4) (rev [0..<16])) n False 2 (48 # 120 # d) =
      Some (2 + length cs, 48 # 120 # cs @ drop (length cs) d)"
    "length cs \<le> 16" "0 \<notin> set cs" "hex_value 0 cs = uint n"
    using hex_loop_digits [of 16 d False n "[48, 120]"] d(2) top by (auto simp: numeral_2_eq_2)
  obtain z e where e: "drop (length cs) d = z # e"
    using cs(2) d(2) by (cases "drop (length cs) d") auto
  have "hex_to_ascii n str = Some ((48 # 120 # cs) @ 0 # e)"
    by (simp add: hex_to_ascii_def js cs(1) d(1) e list_update_append del: upt_rec_numeral)
  moreover have "cstr ((48 # 120 # cs) @ 0 # e) = 48 # 120 # cs"
    by (rule cstr_append) (use cs(3) in simp)
  moreover have "terminated ((48 # 120 # cs) @ 0 # e)" by (simp add: terminated_def)
  ultimately show ?thesis using cs by blast
qed

theorem hex_to_ascii_roundtrip_witness:
  "\<exists>s ds. hex_to_ascii 0xFFFF800000100000 (replicate 20 1) = Some s \<and> terminated s \<and>
     cstr s = 48 # 120 # ds \<and> length ds \<le> 16 \<and> hex_value 0 ds = uint (0xFFFF800000100000 :: u64)"
  using hex_to_ascii_roundtrip [of "replicate 20 1" "0xFFFF800000100000"] by simp

section \<open>Memory\<close>

lemma memory_copy_loop_spec:
  assumes "dest \<le> source \<or> source + i + k \<le> dest + i" "source + i + k \<le> 2 ^ 64" "dest + i + k \<le> 2 ^ 64" "i < 2 ^ 31"
  shows "if i + k < 2 ^ 31
    then \<exists>m'. memory_copy_loop k i source dest m = Some m' \<and>
      (\<forall>a. m' a = (if dest + i \<le> a \<and> a < dest + i + k then m (source + (a - dest)) else m a))
    else memory_copy_loop k i source dest m = None"
  using assms
proof (induction k arbitrary: i m)
  case (Suc k)
  let ?m = "m(dest + i := m (source + i))"
  show ?case
  proof (cases "i = 2 ^ 31 - 1")
    case False
    have in_range: "\<not> (2 ^ 64 \<le> source + i \<or> 2 ^ 64 \<le> dest + i)" using Suc.prems(2,3) by simp
    have step: "memory_copy_loop (Suc k) i source dest m = memory_copy_loop k (i + 1) source dest ?m"
      using in_range False by (simp only: memory_copy_loop.simps if_False)
    have ih: "if (i + 1) + k < 2 ^ 31
      then \<exists>m'. memory_copy_loop k (i + 1) source dest ?m = Some m' \<and>
        (\<forall>a. m' a = (if dest + (i + 1) \<le> a \<and> a < dest + (i + 1) + k then ?m (source + (a - dest)) else ?m a))
      else memory_copy_loop k (i + 1) source dest ?m = None"
      by (rule Suc.IH) (use Suc.prems False in auto)
    have c: "(if dest + (i + 1) \<le> a \<and> a < dest + (i + 1) + k then ?m (source + (a - dest)) else ?m a) =
        (if dest + i \<le> a \<and> a < dest + i + Suc k then m (source + (a - dest)) else m a)" for a
      using Suc.prems(1) by (cases "a = dest + i") auto
    show ?thesis unfolding step using ih unfolding c by (simp only: add.assoc plus_1_eq_Suc add_Suc_right add_Suc)
  qed simp
qed auto

text \<open>
  C37. \<open>memory_copy\<close> moves the source bytes to the destination and changes nothing else, for disjoint
  regions and for overlapping ones whose destination starts below, as long as fewer than 2 GiB are copied.
  For 2 GiB or more the \<open>int\<close> that counts the bytes overflows before the copy is complete.
\<close>

theorem memory_copy_moves:
  assumes "dest \<le> source \<or> source + nbytes \<le> dest" "source + nbytes \<le> 2 ^ 64" "dest + nbytes \<le> 2 ^ 64"
  shows "if nbytes < 2 ^ 31
    then \<exists>m'. memory_copy source dest nbytes m = Some m' \<and>
      (\<forall>a. m' a = (if dest \<le> a \<and> a < dest + nbytes then m (source + (a - dest)) else m a))
    else memory_copy source dest nbytes m = None"
proof -
  have "if 0 + nbytes < 2 ^ 31
    then \<exists>m'. memory_copy_loop nbytes 0 source dest m = Some m' \<and>
      (\<forall>a. m' a = (if dest + 0 \<le> a \<and> a < dest + 0 + nbytes then m (source + (a - dest)) else m a))
    else memory_copy_loop nbytes 0 source dest m = None"
    by (rule memory_copy_loop_spec) (use assms in simp_all)
  then show ?thesis unfolding memory_copy_def by (simp only: add_0 add_0_right)
qed

theorem memory_copy_moves_witness:
  "\<exists>m'. memory_copy 2 0 4 (\<lambda>a. of_nat a) = Some m' \<and> map m' [0, 1, 2, 3, 4, 5] = [2, 3, 4, 5, 4, 5]"
  using memory_copy_moves [of 0 2 4 "\<lambda>a. of_nat a"] by auto

lemma memory_set_spec:
  "memory_set dest v len m a = (if dest \<le> a \<and> a < dest + len then v else m a)"
proof (induction len arbitrary: dest m)
  case (Suc len)
  show ?case by (simp only: memory_set.simps Suc.IH) auto
qed auto

lemma memory_compare_zero_iff:
  "memory_compare s1 s2 n m = 0 \<longleftrightarrow> (\<forall>i<n. m (s1 + i) = m (s2 + i))"
proof (induction s1 s2 n m rule: memory_compare.induct)
  case (2 s1 s2 n m)
  then show ?case by (simp add: All_less_Suc2 word_uint_eq_iff)
qed simp

end
