(* ===== verification/Keyboard.thy ===== *)
theory Keyboard
  imports Fifo Cstring
begin

text \<open>
  The PS/2 keyboard driver, kernel/modules/drivers/keyboard.c: the circular input queue, the
  interrupt handler that decodes scan codes under the shift, control and caps-lock state, and the
  line reader. The queue is a second instance of the bounded FIFO contract, with one slot of its
  256 always unused. Not modelled: the controller's initialisation (port I/O), the trace output and
  the echo.
\<close>

section \<open>State\<close>

record keyboard =
  kb_queue :: "u8 list"
  kb_head :: nat
  kb_tail :: nat
  shift_pressed :: bool
  ctrl_pressed :: bool
  caps_lock :: bool
  kb_irq_count :: u32

definition KB_QUEUE_SIZE :: nat where
  "KB_QUEUE_SIZE = 256"

definition SC_MAX :: u8 where
  "SC_MAX = 58"

definition sc_ascii :: "u8 list" where
  "sc_ascii = map of_char ''??1234567890-=??qwertyuiop[]??asdfghjkl;'' @ [0x27, 0x60, 0x3F, 0x5C] @
     map of_char ''zxcvbnm,./??? ''"

section \<open>Queue\<close>

definition kb_enqueue :: "u8 \<Rightarrow> keyboard \<Rightarrow> keyboard" where
  "kb_enqueue c k =
     (let next = (kb_head k + 1) mod KB_QUEUE_SIZE in
      if next \<noteq> kb_tail k then k\<lparr>kb_queue := (kb_queue k)[kb_head k := c], kb_head := next\<rparr> else k)"

definition kb_dequeue :: "keyboard \<Rightarrow> (u8 \<times> keyboard) option" where
  "kb_dequeue k =
     (if kb_head k = kb_tail k then None
      else Some (kb_queue k ! kb_tail k, k\<lparr>kb_tail := (kb_tail k + 1) mod KB_QUEUE_SIZE\<rparr>))"

section \<open>The interrupt handler\<close>

text \<open>The symbol row of the digits under shift.\<close>

definition shift_symbols :: "u8 list" where
  "shift_symbols = map of_char '')!@#$%^&*(''"

definition shift_other :: "u8 \<Rightarrow> u8" where
  "shift_other letter =
     (if 48 \<le> letter \<and> letter \<le> 57 then shift_symbols ! unat (letter - 48)
      else if letter = 0x2D then 0x5F
      else if letter = 0x3D then 0x2B
      else if letter = 0x3B then 0x3A
      else if letter = 0x5B then 0x7B
      else if letter = 0x5D then 0x7D
      else if letter = 0x2C then 0x3C
      else if letter = 0x2E then 0x3E
      else if letter = 0x2F then 0x3F
      else if letter = 0x27 then 0x22
      else if letter = 0x60 then 0x7E
      else if letter = 0x5C then 0x7C
      else letter)"

text \<open>The modifier logic on a letter of the table.\<close>

definition modify_letter :: "bool \<Rightarrow> bool \<Rightarrow> bool \<Rightarrow> u8 \<Rightarrow> u8" where
  "modify_letter ctrl shift caps letter =
     (if ctrl then (if 97 \<le> letter \<and> letter \<le> 122 then letter - 97 + 1 else letter)
      else if 97 \<le> letter \<and> letter \<le> 122 then (if shift \<noteq> caps then letter - 32 else letter)
      else if shift then shift_other letter
      else letter)"

text \<open>
  \<open>keyboard_callback\<close> on the scan code read from port 0x60. The second component tells whether the
  handler called \<open>kabi_kill_all_children\<close>.
\<close>

definition keyboard_callback :: "u8 \<Rightarrow> keyboard \<Rightarrow> keyboard \<times> bool" where
  "keyboard_callback scancode k0 =
     (let k = k0\<lparr>kb_irq_count := kb_irq_count k0 + 1\<rparr>; ctrl = ctrl_pressed k in
      if scancode = 0x3A then (k\<lparr>caps_lock := \<not> caps_lock k\<rparr>, False)
      else if scancode = 0x2A \<or> scancode = 0x36 then (k\<lparr>shift_pressed := True\<rparr>, False)
      else if scancode = 0xAA \<or> scancode = 0xB6 then (k\<lparr>shift_pressed := False\<rparr>, False)
      else if scancode = 0x1D then (k\<lparr>ctrl_pressed := True\<rparr>, False)
      else if scancode = 0x9D then (k\<lparr>ctrl_pressed := False\<rparr>, False)
      else if SC_MAX \<le> scancode then
        (if scancode = 0x48 then (kb_enqueue (if ctrl then 0x85 else 0x81) k, False)
         else if scancode = 0x50 then (kb_enqueue (if ctrl then 0x86 else 0x82) k, False)
         else if scancode = 0x4B then (kb_enqueue (if ctrl then 0x87 else 0x83) k, False)
         else if scancode = 0x4D then (kb_enqueue (if ctrl then 0x88 else 0x84) k, False)
         else (k, False))
      else if ctrl \<and> scancode = 0x2E then (k, True)
      else if scancode = 0x0E then (kb_enqueue 0x08 k, False)
      else if scancode = 0x1C then (kb_enqueue 10 k, False)
      else let letter = sc_ascii ! unat scancode in
        if letter = 0x3F then (k, False)
        else (kb_enqueue (modify_letter ctrl (shift_pressed k) (caps_lock k) letter) k, False))"

definition keyboard_handle_char :: "u8 \<Rightarrow> keyboard \<Rightarrow> keyboard" where
  "keyboard_handle_char c k = kb_enqueue (if c = 13 then 10 else c) k"

section \<open>Readers\<close>

text \<open>
  \<open>get_line\<close> into a buffer, from index \<open>i\<close>. As for pipes, the list holds what interrupts do each
  time the reader halts on an empty queue; \<open>None\<close> is a reader that does not return, or that leaves
  its buffer.
\<close>

partial_function (option) get_line ::
    "(keyboard \<Rightarrow> keyboard) list \<Rightarrow> keyboard \<Rightarrow> u8 list \<Rightarrow> nat \<Rightarrow> (u8 list \<times> keyboard) option" where
  "get_line env k buf i =
     (case kb_dequeue k of
        None \<Rightarrow> (case env of [] \<Rightarrow> None | e # es \<Rightarrow> get_line es (e k) buf i)
      | Some (c, k') \<Rightarrow>
          if c = 10 then do { b \<leftarrow> poke i 0 buf; Some (b, k') }
          else if c = 0x08 \<or> c = 0x7F then get_line env k' buf (if 0 < i then i - 1 else i)
          else if i < 255 then do { b \<leftarrow> poke i c buf; get_line env k' b (i + 1) }
          else get_line env k' buf i)"

fun get_char_noecho :: "(keyboard \<Rightarrow> keyboard) list \<Rightarrow> keyboard \<Rightarrow> (u8 \<times> keyboard) option" where
  "get_char_noecho [] k = kb_dequeue k"
| "get_char_noecho (e # es) k =
     (case kb_dequeue k of None \<Rightarrow> get_char_noecho es (e k) | Some r \<Rightarrow> Some r)"

section \<open>The queue is a bounded FIFO\<close>

definition kb_count :: "keyboard \<Rightarrow> nat" where
  "kb_count k = (kb_head k + 256 - kb_tail k) mod 256"

definition kb_contents :: "keyboard \<Rightarrow> u8 list" where
  "kb_contents k = ring (kb_queue k) (kb_tail k) (kb_count k)"

definition kb_inv :: "keyboard \<Rightarrow> bool" where
  "kb_inv k \<longleftrightarrow> length (kb_queue k) = 256 \<and> kb_head k < 256 \<and> kb_tail k < 256"

lemma length_kb_contents [simp]: "length (kb_contents k) = kb_count k"
  by (simp add: kb_contents_def)

lemma diff_mod256:
  "h < 256 \<Longrightarrow> t < 256 \<Longrightarrow> (h + 256 - t) mod 256 = (if t \<le> h then h - t else h + 256 - (t :: nat))"
proof (cases "t \<le> h")
  case True
  moreover assume "h < 256"
  moreover from True have "h + 256 - t = (h - t) + 256" by simp
  ultimately show ?thesis by (simp only: mod_add_self2) simp
qed simp

lemma step_mod256: "h < 256 \<Longrightarrow> Suc h mod 256 = (if h = 255 then 0 else Suc h)"
  by simp

lemma kb_enqueue_full_iff:
  assumes "kb_inv k"
  shows "(kb_head k + 1) mod KB_QUEUE_SIZE \<noteq> kb_tail k \<longleftrightarrow> kb_count k < 255"
  using assms by (auto simp: kb_inv_def kb_count_def KB_QUEUE_SIZE_def diff_mod256 step_mod256)

lemma kb_head_eq: "kb_inv k \<Longrightarrow> kb_head k = (kb_tail k + kb_count k) mod 256"
  by (auto simp: kb_inv_def kb_count_def diff_mod256)

lemma kb_count_step:
  assumes "kb_inv k"
  shows "kb_count k < 255 \<Longrightarrow> ((kb_head k + 1) mod 256 + 256 - kb_tail k) mod 256 = Suc (kb_count k)"
    and "kb_head k \<noteq> kb_tail k \<Longrightarrow>
      kb_count k = Suc ((kb_head k + 256 - (kb_tail k + 1) mod 256) mod 256)"
  using assms
  by (auto simp: kb_inv_def kb_count_def diff_mod256 step_mod256 split: if_splits)

lemma kb_count_zero_iff: "kb_inv k \<Longrightarrow> kb_count k = 0 \<longleftrightarrow> kb_head k = kb_tail k"
  by (auto simp: kb_inv_def kb_count_def diff_mod256)

lemma kb_enqueue_room:
  assumes "kb_inv k" "kb_count k < 255"
  shows "kb_contents (kb_enqueue c k) = kb_contents k @ [c]"
proof -
  have "kb_contents (kb_enqueue c k) =
      ring ((kb_queue k)[kb_head k := c]) (kb_tail k) (Suc (kb_count k))"
    using assms kb_enqueue_full_iff [OF assms(1)] kb_count_step(1) [OF assms]
    by (simp add: kb_enqueue_def Let_def kb_contents_def kb_count_def KB_QUEUE_SIZE_def)
  also have "\<dots> = kb_contents k @ [c]"
    unfolding kb_contents_def
    by (rule ring_snoc) (use assms kb_head_eq [OF assms(1)] in \<open>simp_all add: kb_inv_def\<close>)
  finally show ?thesis .
qed

lemma kb_dequeue_front:
  assumes "kb_inv k" "kb_dequeue k = Some (c, k')"
  shows "kb_contents k = c # kb_contents k'"
proof -
  from assms have ne: "kb_head k \<noteq> kb_tail k" and c: "c = kb_queue k ! kb_tail k"
    and k': "k' = k\<lparr>kb_tail := (kb_tail k + 1) mod 256\<rparr>"
    by (auto simp: kb_dequeue_def KB_QUEUE_SIZE_def split: if_splits)
  have "kb_contents k = ring (kb_queue k) (kb_tail k) (Suc (kb_count k'))"
    using kb_count_step(2) [OF assms(1) ne] by (simp add: kb_contents_def k' kb_count_def)
  with assms(1) show ?thesis
    by (simp add: ring_Suc_front kb_contents_def c k' kb_inv_def flip: ring_mod [of _ "Suc _"])
qed

interpretation kbq: bounded_fifo kb_enqueue kb_dequeue kb_contents "\<lambda>_. 255" kb_inv
proof unfold_locales
  fix q x assume "kb_inv q"
  then show "kb_inv (kb_enqueue x q)"
    by (simp add: kb_inv_def kb_enqueue_def Let_def KB_QUEUE_SIZE_def)
next
  fix q x q' assume "kb_inv q" "kb_dequeue q = Some (x, q')"
  then show "kb_inv q'"
    by (auto simp: kb_inv_def kb_dequeue_def KB_QUEUE_SIZE_def split: if_splits)
next
  fix q assume "kb_inv q"
  then show "length (kb_contents q) \<le> 255"
    by (simp add: kb_count_def less_Suc_eq_le [symmetric])
next
  fix q x assume inv: "kb_inv q"
  show "kb_contents (kb_enqueue x q) =
      (if length (kb_contents q) < 255 then kb_contents q @ [x] else kb_contents q)"
    using kb_enqueue_room [OF inv] kb_enqueue_full_iff [OF inv]
    by (auto simp: kb_enqueue_def Let_def)
next
  fix q assume "kb_inv q"
  then show "(kb_dequeue q = None) = (kb_contents q = [])"
    by (simp add: kb_dequeue_def kb_count_zero_iff flip: length_0_conv)
next
  fix q x q' assume "kb_inv q" "kb_dequeue q = Some (x, q')"
  then show "kb_contents q = x # kb_contents q'" by (rule kb_dequeue_front)
qed simp_all

section \<open>The line reader\<close>

text \<open>What a line editor makes of the typed bytes: the reference for \<open>get_line\<close>.\<close>

fun edit_line :: "u8 list \<Rightarrow> u8 list \<Rightarrow> u8 list" where
  "edit_line line [] = line"
| "edit_line line (c # cs) =
     (if c = 0x08 \<or> c = 0x7F then edit_line (butlast line) cs
      else if length line < 255 then edit_line (line @ [c]) cs
      else edit_line line cs)"

lemma kb_dequeue_Cons:
  assumes "kb_inv k" "kb_contents k = c # cs"
  obtains k' where "kb_dequeue k = Some (c, k')" "kb_inv k'" "kb_contents k' = cs"
proof -
  have "kb_dequeue k \<noteq> None" using assms kbq.get_empty by auto
  then obtain d k' where d: "kb_dequeue k = Some (d, k')" by auto
  then show ?thesis
    using that [of k'] kbq.contents_get [OF assms(1) d] kbq.invar_get [OF assms(1) d] assms(2) by auto
qed

lemma list_update_snoc_end: "take n xs = ys \<Longrightarrow> n < length xs \<Longrightarrow> take (Suc n) (xs[n := c]) = ys @ [c]"
  by (simp add: take_Suc_conv_app_nth)

lemma get_line_edit_line:
  assumes "kb_inv k" "kb_contents k = cs @ 10 # rest" "10 \<notin> set cs" "256 \<le> length buf"
    "take i buf = line" "i \<le> 255"
  shows "\<exists>buf' k'. get_line env k buf i = Some (buf', k') \<and> kb_inv k' \<and> kb_contents k' = rest \<and>
    take (Suc (length (edit_line line cs))) buf' = edit_line line cs @ [0]"
  using assms
proof (induction cs arbitrary: k buf i line)
  case Nil
  then obtain k' where "kb_dequeue k = Some (10, k')" "kb_inv k'" "kb_contents k' = rest"
    using kb_dequeue_Cons [of k 10 rest] by auto
  moreover have "take (Suc i) (buf[i := 0]) = line @ [0]"
    using Nil.prems by (intro list_update_snoc_end) auto
  ultimately show ?case
    using Nil.prems by (subst get_line.simps) (auto simp: min_absorb2)
next
  case (Cons c cs)
  have "kb_contents k = c # (cs @ 10 # rest)" using Cons.prems by simp
  then obtain k' where k': "kb_dequeue k = Some (c, k')" "kb_inv k'" "kb_contents k' = cs @ 10 # rest"
    by (rule kb_dequeue_Cons [OF Cons.prems(1)])
  have len: "length line = i" using Cons.prems by auto
  consider (bs) "c = 0x08 \<or> c = 0x7F" | (store) "\<not> (c = 0x08 \<or> c = 0x7F)" "i < 255"
    | (full) "\<not> (c = 0x08 \<or> c = 0x7F)" "\<not> i < 255" by blast
  then show ?case
  proof cases
    case bs
    have "take (i - 1) buf = butlast line"
      using Cons.prems by (auto simp: butlast_take)
    then have "\<exists>buf' k''. get_line env k' buf (i - 1) = Some (buf', k'') \<and> kb_inv k'' \<and>
        kb_contents k'' = rest \<and>
        take (Suc (length (edit_line (butlast line) cs))) buf' = edit_line (butlast line) cs @ [0]"
      using Cons.prems by (intro Cons.IH [OF k'(2,3)]) auto
    then show ?thesis using bs k' Cons.prems by (subst get_line.simps) auto
  next
    case store
    have "take (Suc i) (buf[i := c]) = line @ [c]"
      using Cons.prems by (intro list_update_snoc_end) auto
    then have "\<exists>buf' k''. get_line env k' (buf[i := c]) (Suc i) = Some (buf', k'') \<and> kb_inv k'' \<and>
        kb_contents k'' = rest \<and>
        take (Suc (length (edit_line (line @ [c]) cs))) buf' = edit_line (line @ [c]) cs @ [0]"
      using Cons.prems store by (intro Cons.IH [OF k'(2,3)]) auto
    then show ?thesis using store k' Cons.prems len by (subst get_line.simps) auto
  next
    case full
    have "\<exists>buf' k''. get_line env k' buf i = Some (buf', k'') \<and> kb_inv k'' \<and>
        kb_contents k'' = rest \<and> take (Suc (length (edit_line line cs))) buf' = edit_line line cs @ [0]"
      using Cons.prems by (intro Cons.IH [OF k'(2,3)]) auto
    then show ?thesis using full k' Cons.prems len by (subst get_line.simps) auto
  qed
qed

text \<open>
  C32. Once a newline has been typed, \<open>get_line\<close> returns without leaving its 256-byte buffer; the
  buffer then holds the zero-terminated result of editing the typed bytes (backspace and delete
  drop the last one, bytes past 255 are dropped), and what was typed after the newline stays queued.
\<close>

theorem get_line_edits:
  assumes "kb_inv k" "kb_contents k = cs @ 10 # rest" "10 \<notin> set cs" "256 \<le> length buf"
  shows "\<exists>buf' k'. get_line env k buf 0 = Some (buf', k') \<and> kb_inv k' \<and> kb_contents k' = rest \<and>
    take (Suc (length (edit_line [] cs))) buf' = edit_line [] cs @ [0]"
  using get_line_edit_line [OF assms, of 0 "[]"] by simp

definition kb_initial :: keyboard where
  "kb_initial = \<lparr>kb_queue = replicate 256 0, kb_head = 0, kb_tail = 0, shift_pressed = False,
     ctrl_pressed = False, caps_lock = False, kb_irq_count = 0\<rparr>"

lemma kb_initial_inv: "kb_inv kb_initial" "kb_contents kb_initial = []"
  by (simp_all add: kb_initial_def kb_inv_def kb_contents_def kb_count_def)

theorem get_line_edits_witness:
  "\<exists>buf' k'. get_line [] (kbq.puts [104, 111, 8, 105, 10, 120] kb_initial) (replicate 256 1) 0 = Some (buf', k') \<and>
     kb_inv k' \<and> kb_contents k' = [120] \<and> take 3 buf' = [104, 105, 0]"
proof -
  have "kb_contents (kbq.puts [104, 111, 8, 105, 10, 120] kb_initial) = [104, 111, 8, 105] @ 10 # [120]"
    using kbq.contents_puts [OF kb_initial_inv(1), of "[104, 111, 8, 105, 10, 120]"] kb_initial_inv
    by (simp add: length_kb_contents [symmetric] del: length_kb_contents)
  moreover have "edit_line [] [104, 111, 8, 105] = [104, 105]" by simp
  moreover have "256 \<le> length (replicate 256 (1 :: u8))" by simp
  ultimately show ?thesis
    using get_line_edits [OF kbq.invar_puts [OF kb_initial_inv(1)], of _ "[104, 111, 8, 105]" "[120]"
        "replicate 256 1" "[]"]
    by (auto simp del: kbq.puts.simps simp: numeral_3_eq_3)
qed

section \<open>Decoding\<close>

text \<open>
  The US layouts by scan code (a question mark where the key produces no character of its own):
  plain, shifted, caps lock, and shift under caps lock.
\<close>

definition layout :: "bool \<Rightarrow> bool \<Rightarrow> u8 list" where
  "layout shift caps =
     (if shift then
        if caps then map of_char ''??!@#$%^&*()_+??qwertyuiop{}??asdfghjkl:'' @ [0x22, 0x7E, 0x3F, 0x7C] @
          map of_char ''zxcvbnm<>???? ''
        else map of_char ''??!@#$%^&*()_+??QWERTYUIOP{}??ASDFGHJKL:'' @ [0x22, 0x7E, 0x3F, 0x7C] @
          map of_char ''ZXCVBNM<>???? ''
      else if caps then map of_char ''??1234567890-=??QWERTYUIOP[]??ASDFGHJKL;'' @ [0x27, 0x60, 0x3F, 0x5C] @
          map of_char ''ZXCVBNM,./??? ''
      else sc_ascii)"

lemma layout_modify: "map (modify_letter False shift caps) sc_ascii = layout shift caps"
  by (cases shift; cases caps) (simp only:, code_simp)+

lemma sc_ascii_special:
  "sc_ascii ! 0x2A = 0x3F" "sc_ascii ! 0x36 = 0x3F" "sc_ascii ! 0x1D = 0x3F"
  "sc_ascii ! 0x0E = 0x3F" "sc_ascii ! 0x1C = 0x3F" "length sc_ascii = 58"
  by code_simp+

lemma keyboard_callback_printable:
  assumes "sc < SC_MAX" "sc_ascii ! unat sc \<noteq> 0x3F" "\<not> ctrl_pressed k"
  shows "keyboard_callback sc k =
    (kb_enqueue (layout (shift_pressed k) (caps_lock k) ! unat sc) (k\<lparr>kb_irq_count := kb_irq_count k + 1\<rparr>),
     False)"
proof -
  have "unat sc < length sc_ascii"
    using assms(1) by (simp add: SC_MAX_def sc_ascii_special word_less_nat_alt)
  then have "layout (shift_pressed k) (caps_lock k) ! unat sc =
      modify_letter False (shift_pressed k) (caps_lock k) (sc_ascii ! unat sc)"
    by (simp flip: layout_modify)
  moreover have "sc \<noteq> 0x2A" "sc \<noteq> 0x36" "sc \<noteq> 0x1D" "sc \<noteq> 0x0E" "sc \<noteq> 0x1C"
    using assms(2) sc_ascii_special by auto
  moreover have "sc \<noteq> 0x3A" "sc \<noteq> 0xAA" "sc \<noteq> 0xB6" "sc \<noteq> 0x9D" "\<not> SC_MAX \<le> sc"
    using assms(1) by (auto simp: SC_MAX_def)
  ultimately show ?thesis
    using assms(2,3) by (simp add: keyboard_callback_def Let_def)
qed

text \<open>
  C33. A key of the table that has a character, pressed without control while the queue has room,
  adds exactly one byte: the character of the US layout that shift and caps lock select.
\<close>

theorem keyboard_callback_types:
  assumes "kb_inv k" "kb_count k < 255"
    and "sc < SC_MAX" "sc_ascii ! unat sc \<noteq> 0x3F" "\<not> ctrl_pressed k"
  shows "kb_contents (fst (keyboard_callback sc k)) =
    kb_contents k @ [layout (shift_pressed k) (caps_lock k) ! unat sc]"
proof -
  let ?k = "k\<lparr>kb_irq_count := kb_irq_count k + 1\<rparr>"
  have "kb_inv ?k" "kb_count ?k < 255" "kb_contents ?k = kb_contents k"
    using assms(1,2) by (simp_all add: kb_inv_def kb_count_def kb_contents_def)
  then show ?thesis
    by (simp add: keyboard_callback_printable [OF assms(3-5)] kb_enqueue_room)
qed

theorem keyboard_callback_types_witness:
  "kb_contents (fst (keyboard_callback 0x1E (kb_initial\<lparr>shift_pressed := True\<rparr>))) = [65]"
proof -
  let ?k = "kb_initial\<lparr>shift_pressed := True\<rparr>"
  have k: "kb_inv ?k" "kb_count ?k < 255" "kb_contents ?k = []" "\<not> ctrl_pressed ?k"
    by (simp_all add: kb_initial_def kb_inv_def kb_contents_def kb_count_def)
  have sc: "(0x1E :: u8) < SC_MAX" "sc_ascii ! unat (0x1E :: u8) \<noteq> 0x3F"
    "layout True False ! unat (0x1E :: u8) = 65"
    by code_simp+
  have m: "shift_pressed ?k" "\<not> caps_lock ?k" by (simp_all add: kb_initial_def)
  from keyboard_callback_types [OF k(1,2) sc(1,2) k(4)] show ?thesis
    by (simp only: k(3) m sc(3) append_Nil)
qed

end
