(* ===== verification/Allocator.thy ===== *)
theory Allocator
  imports Prelude
begin

text \<open>
  The contract of a resource allocator: what it hands out was not in use before and is in use
  afterwards. The frame allocator (kernel/cpu/paging.c), the cluster allocator of the FAT32 driver
  and the file descriptor tables make this promise; their clients rely on its consequence that
  repeated allocation yields distinct resources.
\<close>

locale allocator =
  fixes alloc :: "'s \<Rightarrow> ('r \<times> 's) option"
    and used :: "'s \<Rightarrow> 'r set"
    and invar :: "'s \<Rightarrow> bool"
  assumes invar_alloc: "invar s \<Longrightarrow> alloc s = Some (r, s') \<Longrightarrow> invar s'"
    and alloc_fresh: "invar s \<Longrightarrow> alloc s = Some (r, s') \<Longrightarrow> r \<notin> used s"
    and alloc_used: "invar s \<Longrightarrow> alloc s = Some (r, s') \<Longrightarrow> insert r (used s) \<subseteq> used s'"
begin

fun alloc_many :: "nat \<Rightarrow> 's \<Rightarrow> ('r list \<times> 's) option" where
  "alloc_many 0 s = Some ([], s)"
| "alloc_many (Suc n) s =
     (case alloc s of
        None \<Rightarrow> None
      | Some (r, s1) \<Rightarrow>
          (case alloc_many n s1 of None \<Rightarrow> None | Some (rs, s') \<Rightarrow> Some (r # rs, s')))"

lemma alloc_many_fresh:
  "invar s \<Longrightarrow> alloc_many n s = Some (rs, s') \<Longrightarrow>
     length rs = n \<and> distinct rs \<and> set rs \<inter> used s = {} \<and> set rs \<union> used s \<subseteq> used s' \<and> invar s'"
proof (induction n arbitrary: s rs)
  case (Suc n)
  then obtain r s1 rs1 where a: "alloc s = Some (r, s1)" "alloc_many n s1 = Some (rs1, s')"
    and rs: "rs = r # rs1"
    by (auto split: option.splits)
  note alloc_used [OF Suc.prems(1) a(1)] alloc_fresh [OF Suc.prems(1) a(1)]
  moreover from Suc.IH [OF invar_alloc [OF Suc.prems(1) a(1)] a(2)]
  have "length rs1 = n \<and> distinct rs1 \<and> set rs1 \<inter> used s1 = {} \<and> set rs1 \<union> used s1 \<subseteq> used s' \<and> invar s'" .
  ultimately show ?case unfolding rs by auto
qed simp

end

end
