(* ===== verification/Pmm.thy ===== *)
theory Pmm
  imports Allocator
begin

text \<open>
  The physical memory manager of kernel/cpu/paging.c (the frame bitmap and the frame reference
  counts) and the early allocator \<open>kmalloc_int\<close> of libc/mem.c that becomes its client. Frame numbers
  are 32-bit, the number of frames is 64-bit, reference counts are 8-bit and wrap.
\<close>

section \<open>State\<close>

record pmm =
  frame_bitmap :: "u32 list option"
  frame_ref_count :: "u8 list option"
  total_frames :: u64
  free_mem_addr :: u64
  pmm_is_ready :: bool

section \<open>Frames\<close>

definition frame_mask :: "u32 \<Rightarrow> u32" where
  "frame_mask frame = push_bit (unat (frame mod 32)) 1"

definition bitmap_set :: "u32 \<Rightarrow> u32 list \<Rightarrow> u32 list" where
  "bitmap_set frame bm =
     bm[unat (frame div 32) := (bm ! unat (frame div 32)) OR frame_mask frame]"

definition bitmap_clear :: "u32 \<Rightarrow> u32 list \<Rightarrow> u32 list" where
  "bitmap_clear frame bm =
     bm[unat (frame div 32) := (bm ! unat (frame div 32)) AND NOT (frame_mask frame)]"

definition pmm_set_frame :: "u32 \<Rightarrow> pmm \<Rightarrow> pmm" where
  "pmm_set_frame frame s =
     (case frame_bitmap s of
        None \<Rightarrow> s
      | Some bm \<Rightarrow> if total_frames s \<le> ucast frame then s
                   else s\<lparr>frame_bitmap := Some (bitmap_set frame bm)\<rparr>)"

definition pmm_clear_frame :: "u32 \<Rightarrow> pmm \<Rightarrow> pmm" where
  "pmm_clear_frame frame s =
     (case frame_bitmap s of
        None \<Rightarrow> s
      | Some bm \<Rightarrow> if total_frames s \<le> ucast frame then s
                   else s\<lparr>frame_bitmap := Some (bitmap_clear frame bm)\<rparr>)"

definition pmm_test_frame :: "u32 \<Rightarrow> pmm \<Rightarrow> int" where
  "pmm_test_frame frame s =
     (case frame_bitmap s of
        None \<Rightarrow> - 1
      | Some bm \<Rightarrow> if total_frames s \<le> ucast frame then - 1
                   else if (bm ! unat (frame div 32)) AND frame_mask frame \<noteq> 0 then 1 else 0)"

text \<open>
  \<open>pmm_first_free\<close>. The inner loop runs over the bits of word \<open>i\<close>; a clear frame below the end of
  early kernel memory is marked and skipped. The outer loop runs over the list of word indices.
\<close>

fun first_free_bits :: "u64 \<Rightarrow> u64 \<Rightarrow> nat \<Rightarrow> nat list \<Rightarrow> u32 list \<Rightarrow> u32 option \<times> u32 list" where
  "first_free_bits tot limit i [] bm = (None, bm)"
| "first_free_bits tot limit i (j # js) bm =
     (let frame = of_nat i * 32 + of_nat j in
      if (bm ! i) AND push_bit j 1 = 0 then
        if tot \<le> ucast frame then (None, bm)
        else if ucast frame < limit then first_free_bits tot limit i js (bitmap_set frame bm)
        else (Some frame, bm)
      else first_free_bits tot limit i js bm)"

fun first_free_words :: "u64 \<Rightarrow> u64 \<Rightarrow> nat list \<Rightarrow> u32 list \<Rightarrow> u32 option \<times> u32 list" where
  "first_free_words tot limit [] bm = (None, bm)"
| "first_free_words tot limit (i # is) bm =
     (if bm ! i \<noteq> 0xFFFFFFFF then
        (case first_free_bits tot limit i [0..<32] bm of
           (Some frame, bm') \<Rightarrow> (Some frame, bm')
         | (None, bm') \<Rightarrow> first_free_words tot limit is bm')
      else first_free_words tot limit is bm)"

definition pmm_first_free :: "pmm \<Rightarrow> u32 \<times> pmm" where
  "pmm_first_free s =
     (case frame_bitmap s of
        None \<Rightarrow> (0xFFFFFFFF, s)
      | Some bm \<Rightarrow>
          (let limit = (free_mem_addr s + 0xFFF) div 0x1000;
               (r, bm') = first_free_words (total_frames s) limit [0..<unat (total_frames s div 32)] bm
           in (case r of Some frame \<Rightarrow> frame | None \<Rightarrow> 0xFFFFFFFF, s\<lparr>frame_bitmap := Some bm'\<rparr>)))"

section \<open>Reference counts\<close>

text \<open>
  The code tests the pointer to the counts only; the bitmap is allocated before the counts are, so the model
  tests the two together.
\<close>

definition frame_add_ref :: "u32 \<Rightarrow> pmm \<Rightarrow> pmm" where
  "frame_add_ref frame s =
     (case (frame_ref_count s, frame_bitmap s) of
        (Some rc, Some bm) \<Rightarrow>
          if ucast frame < total_frames s then
            s\<lparr>frame_bitmap := Some (if rc ! unat frame = 0 then bitmap_set frame bm else bm),
              frame_ref_count := Some (rc[unat frame := rc ! unat frame + 1])\<rparr>
          else s
      | _ \<Rightarrow> s)"

definition frame_remove_ref :: "u32 \<Rightarrow> pmm \<Rightarrow> pmm" where
  "frame_remove_ref frame s =
     (case (frame_ref_count s, frame_bitmap s) of
        (Some rc, Some bm) \<Rightarrow>
          if ucast frame < total_frames s \<and> 0 < rc ! unat frame then
            s\<lparr>frame_ref_count := Some (rc[unat frame := rc ! unat frame - 1]),
              frame_bitmap := Some (if rc ! unat frame - 1 = 0 then bitmap_clear frame bm else bm)\<rparr>
          else s
      | _ \<Rightarrow> s)"

definition frame_get_ref :: "u32 \<Rightarrow> pmm \<Rightarrow> u8" where
  "frame_get_ref frame s =
     (case frame_ref_count s of
        Some rc \<Rightarrow> if ucast frame < total_frames s then rc ! unat frame else 0
      | None \<Rightarrow> 0)"

section \<open>Statistics and start-up\<close>

record pmm_stats =
  st_used_frames :: u64
  st_total_frames :: u64
  st_free_frames :: u64

definition get_pmm_stats :: "pmm \<Rightarrow> pmm_stats option" where
  "get_pmm_stats s =
     (if frame_bitmap s = None then None
      else let used = foldl (\<lambda>u i. if pmm_test_frame (of_nat i) s = 1 then u + 1 else u) (0 :: u32)
                        [0..<unat (total_frames s)]
           in Some \<lparr>st_used_frames = ucast used, st_total_frames = total_frames s,
                    st_free_frames = total_frames s - ucast used\<rparr>)"

text \<open>
  The loops of \<open>pmm_reserve_early_memory\<close> and \<open>pmm_init_from_mmap\<close>: every page address from \<open>p\<close> up to
  \<open>end\<close>. The address is 64-bit and wraps; \<open>None\<close> is a loop that never ends.
\<close>

partial_function (option) reserve_range :: "u64 \<Rightarrow> u64 \<Rightarrow> pmm \<Rightarrow> pmm option" where
  "reserve_range p end s =
     (if p < end then reserve_range (p + 0x1000) end (pmm_set_frame (ucast (p div 0x1000)) s)
      else Some s)"

definition pmm_reserve_early_memory :: "pmm \<Rightarrow> pmm option" where
  "pmm_reserve_early_memory s = reserve_range 0 ((free_mem_addr s + 0xFFF) AND NOT 0xFFF) s"

record mmap_entry =
  me_addr :: u64
  me_len :: u64
  me_type :: u32

definition max_phys :: "mmap_entry list \<Rightarrow> u64" where
  "max_phys es = (if es = [] then 0x8000000 else foldl (\<lambda>m e. max m (me_addr e + me_len e)) 0 es)"

fun reserve_regions :: "mmap_entry list \<Rightarrow> pmm \<Rightarrow> pmm option" where
  "reserve_regions [] s = Some s"
| "reserve_regions (e # es) s =
     (if me_type e \<noteq> 1
      then do { s' \<leftarrow> reserve_range (me_addr e AND NOT 0xFFF) (me_addr e + me_len e) s;
                reserve_regions es s' }
      else reserve_regions es s)"

section \<open>Early allocation\<close>

text \<open>
  \<open>kmalloc_int\<close>: a bump allocator until the frame allocator is ready, then whole frames. The result
  is the address.
\<close>

definition bump_align :: "bool \<Rightarrow> u64 \<Rightarrow> u64" where
  "bump_align align a = (if align \<and> a AND 0xFFF \<noteq> 0 then (a AND NOT 0xFFF) + 0x1000 else a)"

definition kmalloc_int :: "u64 \<Rightarrow> bool \<Rightarrow> pmm \<Rightarrow> (pmm, u64 \<times> pmm) outcome" where
  "kmalloc_int sz align s =
     (if pmm_is_ready s then
        if 0x1000 < sz then Panic ''kmalloc_int: size > 4K requested after PMM ready''
        else let (frame, s1) = pmm_first_free s in
          if frame = 0xFFFFFFFF then Panic ''kmalloc_int: out of physical memory''
          else Ret (ucast frame * 0x1000, pmm_set_frame frame s1)
      else let a = bump_align align (free_mem_addr s) in Ret (a, s\<lparr>free_mem_addr := a + sz\<rparr>))"

text \<open>
  \<open>pmm_init_from_mmap\<close>: before the heap exists \<open>kmalloc\<close> is \<open>kmalloc_int\<close>, so the two tables come from
  the bump allocator; they are zeroed.
\<close>

definition pmm_init_from_mmap :: "mmap_entry list \<Rightarrow> pmm \<Rightarrow> pmm option" where
  "pmm_init_from_mmap es s =
     (let tot = max_phys es div 0x1000 in
      case kmalloc_int ((tot div 32 + 1) * 4) True (s\<lparr>total_frames := tot\<rparr>) of
        Ret (bm_addr, s1) \<Rightarrow>
          (case kmalloc_int tot True s1 of
             Ret (rc_addr, s2) \<Rightarrow>
               (let s3 = s2\<lparr>frame_bitmap := Some (replicate (unat (tot div 32 + 1)) 0),
                            frame_ref_count := Some (replicate (unat tot) 0)\<rparr>
                in if es = [] then Some s3 else reserve_regions es s3)
           | _ \<Rightarrow> None)
      | _ \<Rightarrow> None)"

section \<open>The bitmap as a set of frames\<close>

definition bit_used :: "u32 list \<Rightarrow> nat \<Rightarrow> bool" where
  "bit_used bm f \<longleftrightarrow> f < 32 * length bm \<and> bit (bm ! (f div 32)) (f mod 32)"

lemma bit_frame_mask: "bit (frame_mask frame) n \<longleftrightarrow> n = unat frame mod 32"
  by (auto simp: frame_mask_def bit_exp_iff unat_mod)

lemma length_bitmap [simp]:
  "length (bitmap_set f bm) = length bm" "length (bitmap_clear f bm) = length bm"
  by (simp_all add: bitmap_set_def bitmap_clear_def)

lemma frame_index_eq: "g div 32 = f div 32 \<and> g mod 32 = f mod 32 \<longleftrightarrow> g = (f :: nat)"
  by (metis div_mult_mod_eq)

lemma bit_used_set:
  "unat f < 32 * length bm \<Longrightarrow> bit_used (bitmap_set f bm) g \<longleftrightarrow> bit_used bm g \<or> g = unat f"
  using frame_index_eq [of g "unat f"]
  by (auto simp: bit_used_def bitmap_set_def unat_div bit_or_iff bit_frame_mask nth_list_update)

lemma bit_used_clear:
  "unat f < 32 * length bm \<Longrightarrow> bit_used (bitmap_clear f bm) g \<longleftrightarrow> bit_used bm g \<and> g \<noteq> unat f"
  using frame_index_eq [of g "unat f"]
  by (auto simp: bit_used_def bitmap_clear_def unat_div bit_and_iff bit_not_iff bit_frame_mask
      nth_list_update)

lemma and_push_bit_zero:
  "j < 32 \<Longrightarrow> (w :: u32) AND 2 ^ j = 0 \<longleftrightarrow> \<not> bit w j"
  by (auto simp: bit_eq_iff [of "w AND _"] bit_and_iff bit_exp_iff)

lemma test_frame_mask:
  "(bm ! unat (f div 32)) AND frame_mask f = 0 \<longleftrightarrow> \<not> bit (bm ! (unat f div 32)) (unat f mod 32)"
  by (simp add: frame_mask_def and_push_bit_zero unat_div unat_mod)

lemma word_frame:
  assumes "j < 32" "32 * i + 31 < 2 ^ 32"
  shows "unat (of_nat i * 32 + of_nat j :: u32) = 32 * i + j"
proof -
  have "(of_nat i * 32 + of_nat j :: u32) = of_nat (32 * i + j)" by simp
  moreover have "32 * i + j < 2 ^ 32" using assms by simp
  ultimately show ?thesis by (simp only: unsigned_of_nat) (simp add: take_bit_nat_eq_self)
qed

text \<open>What the scan guarantees about the segment of frames from \<open>a\<close> to \<open>b\<close>.\<close>

definition scan_ok :: "nat \<Rightarrow> nat \<Rightarrow> nat \<Rightarrow> u32 list \<Rightarrow> u32 option \<Rightarrow> u32 list \<Rightarrow> bool" where
  "scan_ok limit a b bm r bm' \<longleftrightarrow>
     length bm' = length bm \<and>
     (\<forall>g. bit_used bm g \<longrightarrow> bit_used bm' g) \<and>
     (\<forall>g. bit_used bm' g \<longrightarrow> bit_used bm g \<or> g < limit) \<and>
     (case r of
        Some f \<Rightarrow> a \<le> unat f \<and> unat f < b \<and> limit \<le> unat f \<and> \<not> bit_used bm (unat f) \<and>
          (\<forall>g \<in> {a..<unat f}. bit_used bm g \<or> g < limit)
      | None \<Rightarrow> \<forall>g \<in> {a..<b}. bit_used bm g \<or> g < limit)"

lemma scan_ok_empty: "scan_ok limit a a bm None bm"
  by (simp add: scan_ok_def)

lemma scan_ok_seq:
  assumes "scan_ok limit a b bm None bm1" "scan_ok limit b c bm1 r bm2" "a \<le> b" "b \<le> c"
  shows "scan_ok limit a c bm r bm2"
proof -
  have *: "bit_used bm g \<or> g < limit" if "bit_used bm1 g \<or> g < limit" for g
    using that assms(1) by (auto simp: scan_ok_def)
  have "\<forall>g \<in> {a..<d}. bit_used bm g \<or> g < limit"
    if all: "\<forall>g \<in> {b..<d}. bit_used bm1 g \<or> g < limit" for d
  proof
    fix g assume "g \<in> {a..<d}"
    then show "bit_used bm g \<or> g < limit"
      using * [of g] all assms(1) by (cases "g < b") (auto simp: scan_ok_def)
  qed
  from this [of c] this [of "unat (the r)"] assms * show ?thesis
    unfolding scan_ok_def by (cases r) auto
qed

lemma scan_ok_skip: "bit_used bm f \<Longrightarrow> scan_ok limit f (Suc f) bm None bm"
  by (simp add: scan_ok_def)

lemma scan_ok_reserve:
  "unat f < 32 * length bm \<Longrightarrow> unat f < limit \<Longrightarrow>
   scan_ok limit (unat f) (Suc (unat f)) bm None (bitmap_set f bm)"
  by (auto simp: scan_ok_def bit_used_set)

lemma first_free_bits_ok:
  assumes "j \<le> 32" "i < length bm" "32 * i + 31 < unat tot" "unat tot \<le> 2 ^ 32"
    "first_free_bits tot limit i [j..<32] bm = (r, bm')"
  shows "scan_ok (unat limit) (32 * i + j) (32 * i + 32) bm r bm'"
  using assms
proof (induction "32 - j" arbitrary: j bm)
  case 0
  then show ?case by (simp add: scan_ok_empty)
next
  case (Suc n)
  then have j: "j < 32" by simp
  let ?f = "of_nat i * 32 + of_nat j :: u32"
  have f: "unat ?f = 32 * i + j" using j Suc.prems(3,4) by (intro word_frame) auto
  have uf: "unat (ucast ?f :: u64) = 32 * i + j" using f by simp
  have upt: "[j..<32] = j # [Suc j..<32]" using j by (simp add: upt_conv_Cons)
  have used: "bit_used bm (32 * i + j) \<longleftrightarrow> bit (bm ! i) j"
    using j Suc.prems(2) by (auto simp: bit_used_def)
  have ih: "scan_ok (unat limit) (Suc (32 * i + j)) (32 * i + 32) bm1 r bm'"
    if "first_free_bits tot limit i [Suc j..<32] bm1 = (r, bm')" "length bm1 = length bm" for bm1
    using Suc.hyps(1) [of "Suc j" bm1] Suc.hyps(2) Suc.prems that j by auto
  show ?case
  proof (cases "bit (bm ! i) j")
    case True
    with Suc.prems(5) j upt have "first_free_bits tot limit i [Suc j..<32] bm = (r, bm')"
      by (simp add: and_push_bit_zero Let_def)
    note rest = ih [OF this refl]
    from True used have "scan_ok (unat limit) (32 * i + j) (Suc (32 * i + j)) bm None bm"
      by (simp add: scan_ok_skip)
    from scan_ok_seq [OF this rest] j show ?thesis by simp
  next
    case False
    have in_range: "\<not> tot \<le> ucast ?f"
      using uf j Suc.prems(3) by (simp add: word_le_nat_alt)
    have lim: "ucast ?f < limit \<longleftrightarrow> 32 * i + j < unat limit" using uf by (simp add: word_less_nat_alt)
    show ?thesis
    proof (cases "ucast ?f < limit")
      case True
      with False in_range Suc.prems(5) j upt
      have "first_free_bits tot limit i [Suc j..<32] (bitmap_set ?f bm) = (r, bm')"
        by (simp add: and_push_bit_zero Let_def)
      note step = ih [OF this]
      have "scan_ok (unat limit) (unat ?f) (Suc (unat ?f)) bm None (bitmap_set ?f bm)"
        using True f lim Suc.prems(2) j by (intro scan_ok_reserve) auto
      from scan_ok_seq [OF this [unfolded f]] step j show ?thesis by simp
    next
      case limit: False
      with False in_range Suc.prems(5) j upt have "r = Some ?f" "bm' = bm"
        by (simp_all add: and_push_bit_zero Let_def)
      with limit False lim f used j show ?thesis by (auto simp: scan_ok_def)
    qed
  qed
qed

lemma word_full: "(w :: u32) = 0xFFFFFFFF \<Longrightarrow> j < 32 \<Longrightarrow> bit w j"
proof -
  have "(0xFFFFFFFF :: u32) = - 1" by simp
  then show "w = 0xFFFFFFFF \<Longrightarrow> j < 32 \<Longrightarrow> bit w j" by (simp only: bit_minus_1_iff) simp
qed

lemma scan_ok_full:
  assumes "bm ! i = 0xFFFFFFFF" "i < length bm"
  shows "scan_ok limit (32 * i) (32 * i + 32) bm None bm"
proof -
  have "bit_used bm g" if "g \<in> {32 * i..<32 * i + 32}" for g
  proof -
    from that have "g div 32 = i" by auto
    moreover have "bit (bm ! i) (g mod 32)" by (rule word_full [OF assms(1)]) simp
    ultimately show ?thesis using assms(2) that by (auto simp: bit_used_def)
  qed
  then show ?thesis by (simp add: scan_ok_def)
qed

lemma first_free_words_ok:
  assumes "i \<le> n" "n < length bm" "32 * n \<le> unat tot" "unat tot \<le> 2 ^ 32"
    "first_free_words tot limit [i..<n] bm = (r, bm')"
  shows "scan_ok (unat limit) (32 * i) (32 * n) bm r bm'"
  using assms
proof (induction "n - i" arbitrary: i bm)
  case 0
  then show ?case by (simp add: scan_ok_empty)
next
  case (Suc m)
  then have i: "i < n" by simp
  then have upt: "[i..<n] = i # [Suc i..<n]" by (simp add: upt_conv_Cons)
  have ih: "scan_ok (unat limit) (32 * i + 32) (32 * n) bm1 r bm'"
    if "first_free_words tot limit [Suc i..<n] bm1 = (r, bm')" "length bm1 = length bm" for bm1
    using Suc.hyps(1) [of "Suc i" bm1] Suc.hyps(2) Suc.prems that i by (simp add: add.commute)
  obtain r1 bm1 where b: "first_free_bits tot limit i [0..<32] bm = (r1, bm1)"
    by (cases "first_free_bits tot limit i [0..<32] bm")
  have ok: "scan_ok (unat limit) (32 * i) (32 * i + 32) bm r1 bm1"
    using first_free_bits_ok [OF _ _ _ _ b] i Suc.prems by simp
  consider (full) "bm ! i = 0xFFFFFFFF" | (found) f where "bm ! i \<noteq> 0xFFFFFFFF" "r1 = Some f"
    | (none) "bm ! i \<noteq> 0xFFFFFFFF" "r1 = None" by (cases r1) auto
  then show ?case
  proof cases
    case full
    with Suc.prems(5) upt have "first_free_words tot limit [Suc i..<n] bm = (r, bm')" by simp
    note rest = ih [OF this refl]
    have "i < length bm" using i Suc.prems(2) by simp
    from scan_ok_seq [OF scan_ok_full [OF full this] rest] i show ?thesis by simp
  next
    case found
    with Suc.prems(5) upt b have "r = Some f" "bm' = bm1" by simp_all
    with ok found i show ?thesis by (auto simp: scan_ok_def)
  next
    case none
    with Suc.prems(5) upt b have "first_free_words tot limit [Suc i..<n] bm1 = (r, bm')" by simp
    moreover have "length bm1 = length bm" using ok by (simp add: scan_ok_def)
    ultimately have "scan_ok (unat limit) (32 * i + 32) (32 * n) bm1 r bm'" by (rule ih)
    from scan_ok_seq [OF ok [unfolded none(2)] this] i show ?thesis by simp
  qed
qed

section \<open>Well-formed states\<close>

definition pmm_wf :: "pmm \<Rightarrow> bool" where
  "pmm_wf s \<longleftrightarrow>
     (case (frame_bitmap s, frame_ref_count s) of
        (Some bm, Some rc) \<Rightarrow>
          length bm = unat (total_frames s) div 32 + 1 \<and> length rc = unat (total_frames s) \<and>
          unat (total_frames s) < 2 ^ 32 - 32
      | _ \<Rightarrow> False)"

definition frame_used :: "pmm \<Rightarrow> nat \<Rightarrow> bool" where
  "frame_used s f \<longleftrightarrow> (case frame_bitmap s of Some bm \<Rightarrow> bit_used bm f | None \<Rightarrow> False)"

definition frame_refs :: "pmm \<Rightarrow> nat \<Rightarrow> nat" where
  "frame_refs s f = (case frame_ref_count s of Some rc \<Rightarrow> if f < length rc then unat (rc ! f) else 0 | None \<Rightarrow> 0)"

text \<open>A referenced frame is never free.\<close>

definition pmm_inv :: "pmm \<Rightarrow> bool" where
  "pmm_inv s \<longleftrightarrow> pmm_wf s \<and> (\<forall>f. 0 < frame_refs s f \<longrightarrow> frame_used s f)"

definition kernel_limit :: "pmm \<Rightarrow> nat" where
  "kernel_limit s = unat ((free_mem_addr s + 0xFFF) div 0x1000)"

lemma pmm_wfE:
  assumes "pmm_wf s"
  obtains bm rc where "frame_bitmap s = Some bm" "frame_ref_count s = Some rc"
    "length bm = unat (total_frames s) div 32 + 1" "length rc = unat (total_frames s)"
    "unat (total_frames s) < 2 ^ 32 - 32"
  using assms by (auto simp: pmm_wf_def split: option.splits)

lemma wf_frame_bound: "pmm_wf s \<Longrightarrow> unat f < unat (total_frames s) \<Longrightarrow> frame_bitmap s = Some bm \<Longrightarrow>
    unat (f :: u32) < 32 * length bm"
  by (auto simp: pmm_wf_def split: option.splits)

lemma ucast_frame_less: "ucast (f :: u32) < (n :: u64) \<longleftrightarrow> unat f < unat n"
  "(n :: u64) \<le> ucast f \<longleftrightarrow> unat n \<le> unat f"
  by (simp_all add: word_less_nat_alt word_le_nat_alt)

lemma set_frame_used:
  "pmm_wf s \<Longrightarrow> frame_used (pmm_set_frame f s) g \<longleftrightarrow>
     frame_used s g \<or> g = unat f \<and> g < unat (total_frames s)"
  using wf_frame_bound [of s f]
  by (auto simp: frame_used_def pmm_set_frame_def ucast_frame_less bit_used_set
      elim!: pmm_wfE split: if_splits)

lemma clear_frame_used:
  "pmm_wf s \<Longrightarrow> unat f < unat (total_frames s) \<Longrightarrow>
   frame_used (pmm_clear_frame f s) g \<longleftrightarrow> frame_used s g \<and> g \<noteq> unat f"
  using wf_frame_bound [of s f]
  by (auto simp: frame_used_def pmm_clear_frame_def ucast_frame_less bit_used_clear elim!: pmm_wfE)

lemma set_frame_frame [simp]:
  "frame_refs (pmm_set_frame f s) = frame_refs s" "total_frames (pmm_set_frame f s) = total_frames s"
  "free_mem_addr (pmm_set_frame f s) = free_mem_addr s" "pmm_is_ready (pmm_set_frame f s) = pmm_is_ready s"
  "frame_ref_count (pmm_set_frame f s) = frame_ref_count s"
  by (auto simp: pmm_set_frame_def frame_refs_def split: option.splits)

lemma set_frame_wf [kinv]: "pmm_wf s \<Longrightarrow> pmm_wf (pmm_set_frame f s)"
  by (auto simp: pmm_wf_def pmm_set_frame_def split: option.splits)

lemma set_frame_inv [kinv]: "pmm_inv s \<Longrightarrow> pmm_inv (pmm_set_frame f s)"
  by (auto simp: pmm_inv_def set_frame_wf set_frame_used)

lemma test_frame_iff:
  "pmm_wf s \<Longrightarrow> unat f < unat (total_frames s) \<Longrightarrow> pmm_test_frame f s = (if frame_used s (unat f) then 1 else 0)"
  using wf_frame_bound [of s f]
  by (auto simp: frame_used_def pmm_test_frame_def ucast_frame_less test_frame_mask bit_used_def elim!: pmm_wfE)

lemma unat_1_iff: "unat (x :: u8) = Suc 0 \<longleftrightarrow> x = 1"
  by (auto dest!: arg_cong [of _ _ "of_nat :: nat \<Rightarrow> u8"])

lemma add_ref_used:
  "pmm_wf s \<Longrightarrow> unat f < unat (total_frames s) \<Longrightarrow>
   frame_used (frame_add_ref f s) g \<longleftrightarrow> frame_used s g \<or> frame_refs s g = 0 \<and> g = unat f"
  using wf_frame_bound [of s f]
  by (auto simp: frame_used_def frame_refs_def frame_add_ref_def ucast_frame_less bit_used_set
      unat_eq_0 elim!: pmm_wfE split: if_splits)

lemma add_ref_refs:
  "pmm_wf s \<Longrightarrow> unat f < unat (total_frames s) \<Longrightarrow> frame_refs s (unat f) < 255 \<Longrightarrow>
   frame_refs (frame_add_ref f s) g = (if g = unat f then Suc (frame_refs s g) else frame_refs s g)"
  by (auto simp: frame_refs_def frame_add_ref_def ucast_frame_less nth_list_update
      unat_add1_less [of _ 255] word_less_nat_alt elim!: pmm_wfE)

lemma remove_ref_used:
  assumes wf: "pmm_wf s" "unat f < unat (total_frames s)"
  shows "frame_used (frame_remove_ref f s) g \<longleftrightarrow> frame_used s g \<and> \<not> (frame_refs s g = 1 \<and> g = unat f)"
proof -
  obtain bm rc where s: "frame_bitmap s = Some bm" "frame_ref_count s = Some rc"
    "length rc = unat (total_frames s)"
    using wf(1) by (rule pmm_wfE)
  have "rc ! unat f - 1 = 0 \<longleftrightarrow> unat (rc ! unat f) = 1"
    by (simp add: unat_1_iff)
  then show ?thesis
    using wf_frame_bound [OF wf s(1)] wf s
    by (auto simp: frame_used_def frame_refs_def frame_remove_ref_def ucast_frame_less bit_used_clear
        word_gt_0)
qed

lemma remove_ref_refs:
  "pmm_wf s \<Longrightarrow> unat f < unat (total_frames s) \<Longrightarrow>
   frame_refs (frame_remove_ref f s) g = (if g = unat f then frame_refs s g - 1 else frame_refs s g)"
  by (auto simp: frame_refs_def frame_remove_ref_def ucast_frame_less nth_list_update
      unat_pred word_gt_0 elim!: pmm_wfE)

lemma ref_total [simp]:
  "total_frames (frame_add_ref f s) = total_frames s" "total_frames (frame_remove_ref f s) = total_frames s"
  by (auto simp: frame_add_ref_def frame_remove_ref_def split: option.splits)

lemma ref_wf [kinv]: "pmm_wf s \<Longrightarrow> pmm_wf (frame_add_ref f s)" "pmm_wf s \<Longrightarrow> pmm_wf (frame_remove_ref f s)"
  by (auto simp: pmm_wf_def frame_add_ref_def frame_remove_ref_def split: option.splits)

lemma add_ref_inv [kinv]: "pmm_inv s \<Longrightarrow> pmm_inv (frame_add_ref f s)"
proof (cases "unat f < unat (total_frames s)")
  case True
  assume inv: "pmm_inv s"
  then have wf: "pmm_wf s" by (simp add: pmm_inv_def)
  have "frame_refs (frame_add_ref f s) g = frame_refs s g" if "g \<noteq> unat f" for g
    using wf True that
    by (auto simp: frame_refs_def frame_add_ref_def ucast_frame_less nth_list_update elim!: pmm_wfE)
  with inv show ?thesis
    by (auto simp: pmm_inv_def ref_wf add_ref_used [OF wf True]) (metis gr0I)+
qed (auto simp: frame_add_ref_def ucast_frame_less split: option.splits)

lemma remove_ref_inv [kinv]: "pmm_inv s \<Longrightarrow> pmm_inv (frame_remove_ref f s)"
proof (cases "unat f < unat (total_frames s)")
  case True
  assume inv: "pmm_inv s"
  then have wf: "pmm_wf s" by (simp add: pmm_inv_def)
  with inv show ?thesis
    by (auto simp: pmm_inv_def ref_wf remove_ref_used [OF wf True] remove_ref_refs [OF wf True]
        split: if_splits)
qed (auto simp: frame_remove_ref_def ucast_frame_less split: option.splits)

section \<open>Allocation\<close>

lemma first_free_ok:
  assumes "pmm_wf s" "pmm_first_free s = (f, s')"
  obtains bm bm' r where "frame_bitmap s = Some bm" "s' = s\<lparr>frame_bitmap := Some bm'\<rparr>"
    "scan_ok (kernel_limit s) 0 (32 * (unat (total_frames s) div 32)) bm r bm'"
    "f = (case r of Some g \<Rightarrow> g | None \<Rightarrow> 0xFFFFFFFF)"
proof -
  obtain bm where bm: "frame_bitmap s = Some bm" "length bm = unat (total_frames s) div 32 + 1"
    "unat (total_frames s) < 2 ^ 32 - 32"
    using assms(1) by (rule pmm_wfE)
  let ?limit = "(free_mem_addr s + 0xFFF) div 0x1000"
  obtain r bm' where w: "first_free_words (total_frames s) ?limit [0..<unat (total_frames s div 32)] bm = (r, bm')"
    by (cases "first_free_words (total_frames s) ?limit [0..<unat (total_frames s div 32)] bm")
  have n: "unat (total_frames s div 32) = unat (total_frames s) div 32" by (simp add: unat_div)
  have "scan_ok (unat ?limit) (32 * 0) (32 * (unat (total_frames s) div 32)) bm r bm'"
    by (rule first_free_words_ok [OF _ _ _ _ w [unfolded n]]) (use bm in auto)
  moreover have "s' = s\<lparr>frame_bitmap := Some bm'\<rparr>" "f = (case r of Some g \<Rightarrow> g | None \<Rightarrow> 0xFFFFFFFF)"
    using assms(2) bm w by (auto simp: pmm_first_free_def Let_def)
  ultimately show ?thesis using that bm by (simp add: kernel_limit_def)
qed

lemma first_free_frame:
  assumes "pmm_wf s" "pmm_first_free s = (f, s')"
  shows "pmm_wf s'" "frame_refs s' = frame_refs s" "total_frames s' = total_frames s"
    "free_mem_addr s' = free_mem_addr s" "pmm_is_ready s' = pmm_is_ready s"
    "frame_used s g \<Longrightarrow> frame_used s' g" "frame_used s' g \<Longrightarrow> frame_used s g \<or> g < kernel_limit s"
proof -
  from assms obtain bm bm' r where bm: "frame_bitmap s = Some bm" "s' = s\<lparr>frame_bitmap := Some bm'\<rparr>"
    "scan_ok (kernel_limit s) 0 (32 * (unat (total_frames s) div 32)) bm r bm'"
    by (rule first_free_ok)
  then show "pmm_wf s'" "frame_refs s' = frame_refs s" "total_frames s' = total_frames s"
    "free_mem_addr s' = free_mem_addr s" "pmm_is_ready s' = pmm_is_ready s"
    "frame_used s g \<Longrightarrow> frame_used s' g" "frame_used s' g \<Longrightarrow> frame_used s g \<or> g < kernel_limit s"
    using assms(1) by (auto simp: pmm_wf_def frame_refs_def frame_used_def scan_ok_def split: option.splits)
qed

lemma first_free_found:
  assumes "pmm_wf s" "pmm_first_free s = (f, s')" "f \<noteq> 0xFFFFFFFF"
  shows "kernel_limit s \<le> unat f" "unat f < unat (total_frames s)" "\<not> frame_used s (unat f)"
    "\<forall>g < unat f. frame_used s g \<or> g < kernel_limit s"
proof -
  from assms(1,2) obtain bm bm' r where bm: "frame_bitmap s = Some bm"
    "scan_ok (kernel_limit s) 0 (32 * (unat (total_frames s) div 32)) bm r bm'"
    "f = (case r of Some g \<Rightarrow> g | None \<Rightarrow> 0xFFFFFFFF)"
    by (rule first_free_ok)
  with assms(3) have "r = Some f" by (cases r) auto
  with bm(1,2) show "kernel_limit s \<le> unat f" "unat f < unat (total_frames s)" "\<not> frame_used s (unat f)"
    "\<forall>g < unat f. frame_used s g \<or> g < kernel_limit s"
    by (auto simp: scan_ok_def frame_used_def)
qed

lemma first_free_none:
  assumes "pmm_wf s" "pmm_first_free s = (0xFFFFFFFF, s')" "g < 32 * (unat (total_frames s) div 32)"
  shows "frame_used s g \<or> g < kernel_limit s"
proof -
  from assms(1,2) obtain bm bm' r where bm: "frame_bitmap s = Some bm"
    "scan_ok (kernel_limit s) 0 (32 * (unat (total_frames s) div 32)) bm r bm'"
    "0xFFFFFFFF = (case r of Some g \<Rightarrow> g | None \<Rightarrow> 0xFFFFFFFF)"
    by (rule first_free_ok)
  have "r = None"
  proof (rule ccontr)
    assume "r \<noteq> None"
    with bm have "unat (0xFFFFFFFF :: u32) < unat (total_frames s)" by (auto simp: scan_ok_def)
    with assms(1) show False by (auto simp: pmm_wf_def split: option.splits)
  qed
  with bm(1,2) assms(3) show ?thesis by (auto simp: scan_ok_def frame_used_def)
qed

text \<open>
  C17. The frame search returns the lowest frame that is free and not in early kernel memory; it
  fails only if no such frame exists in the whole words of the bitmap. It changes no reference
  count, frees no frame, and marks only frames of early kernel memory.
\<close>

theorem pmm_first_free_least:
  assumes "pmm_wf s" "pmm_first_free s = (f, s')"
  shows "(if f = 0xFFFFFFFF
      then \<forall>g < 32 * (unat (total_frames s) div 32). frame_used s g \<or> g < kernel_limit s
      else kernel_limit s \<le> unat f \<and> unat f < unat (total_frames s) \<and> \<not> frame_used s (unat f) \<and>
        (\<forall>g < unat f. frame_used s g \<or> g < kernel_limit s)) \<and>
    pmm_wf s' \<and> frame_refs s' = frame_refs s \<and>
    (\<forall>g. frame_used s g \<longrightarrow> frame_used s' g) \<and>
    (\<forall>g. frame_used s' g \<longrightarrow> frame_used s g \<or> g < kernel_limit s)"
  using first_free_frame [OF assms] first_free_found [OF assms] first_free_none [of s s'] assms
  by auto

definition small_pmm :: pmm where
  "small_pmm = \<lparr>frame_bitmap = Some [0x0000001F, 0, 0], frame_ref_count = Some (replicate 64 0),
     total_frames = 64, free_mem_addr = 0x6800, pmm_is_ready = True\<rparr>"

lemma small_pmm_wf: "pmm_wf small_pmm" "pmm_inv small_pmm"
  by (simp_all add: small_pmm_def pmm_wf_def pmm_inv_def frame_refs_def)

theorem pmm_first_free_least_witness:
  "fst (pmm_first_free small_pmm) = 7 \<and> kernel_limit small_pmm \<le> 7 \<and> \<not> frame_used small_pmm 7"
proof -
  have "fst (pmm_first_free small_pmm) = 7" by code_simp
  then obtain s' where s': "pmm_first_free small_pmm = (7, s')" by (cases "pmm_first_free small_pmm") auto
  from pmm_first_free_least [OF small_pmm_wf(1) this] s' show ?thesis by simp
qed

text \<open>The idiom of all users of the frame allocator: search, give up on failure, mark.\<close>

definition alloc_frame :: "pmm \<Rightarrow> (u32 \<times> pmm) option" where
  "alloc_frame s =
     (let (frame, s1) = pmm_first_free s in
      if frame = 0xFFFFFFFF then None else Some (frame, pmm_set_frame frame s1))"

lemma alloc_frame_Some:
  assumes "pmm_wf s" "alloc_frame s = Some (f, s')"
  shows "pmm_wf s'" "frame_refs s' = frame_refs s" "total_frames s' = total_frames s"
    "pmm_is_ready s' = pmm_is_ready s" "free_mem_addr s' = free_mem_addr s"
    "\<not> frame_used s (unat f)" "unat f < unat (total_frames s)" "frame_used s' (unat f)"
    "frame_used s g \<Longrightarrow> frame_used s' g"
proof -
  obtain s1 where s1: "pmm_first_free s = (f, s1)" "f \<noteq> 0xFFFFFFFF" "s' = pmm_set_frame f s1"
    using assms(2) by (auto simp: alloc_frame_def split: prod.splits if_splits)
  note a = first_free_frame [OF assms(1) s1(1)] and b = first_free_found [OF assms(1) s1(1,2)]
  show "pmm_wf s'" "frame_refs s' = frame_refs s" "total_frames s' = total_frames s"
    "pmm_is_ready s' = pmm_is_ready s" "free_mem_addr s' = free_mem_addr s"
    "\<not> frame_used s (unat f)" "unat f < unat (total_frames s)" "frame_used s' (unat f)"
    "frame_used s g \<Longrightarrow> frame_used s' g"
    using a b by (simp_all add: s1(3) set_frame_wf set_frame_used)
qed

interpretation frames: allocator alloc_frame "\<lambda>s. {f. frame_used s (unat f)}" pmm_inv
proof unfold_locales
  fix s r s' assume "pmm_inv s" and a: "alloc_frame s = Some (r, s')"
  then have inv: "pmm_wf s" "\<And>f. 0 < frame_refs s f \<Longrightarrow> frame_used s f" by (auto simp: pmm_inv_def)
  show "pmm_inv s'" "r \<notin> {f. frame_used s (unat f)}"
    "insert r {f. frame_used s (unat f)} \<subseteq> {f. frame_used s' (unat f)}"
    using alloc_frame_Some [OF inv(1) a] inv(2) by (auto simp: pmm_inv_def)
qed

lemma kmalloc_int_ready:
  "pmm_is_ready s \<Longrightarrow> sz \<le> 0x1000 \<Longrightarrow> kmalloc_int sz align s = Ret (a, s') \<longleftrightarrow>
     (\<exists>f. alloc_frame s = Some (f, s') \<and> a = ucast f * 0x1000)"
  by (auto simp: kmalloc_int_def alloc_frame_def Let_def split: prod.splits if_splits)

fun kmalloc_pages :: "nat \<Rightarrow> pmm \<Rightarrow> (pmm, u64 list \<times> pmm) outcome" where
  "kmalloc_pages 0 s = Ret ([], s)"
| "kmalloc_pages (Suc n) s =
     obind (kmalloc_int 0x1000 True s) (\<lambda>(a, s1).
       obind (kmalloc_pages n s1) (\<lambda>(as, s2). Ret (a # as, s2)))"

lemma unat_frame_address: "unat (ucast (f :: u32) * 0x1000 :: u64) = unat f * 4096"
proof -
  have "unat f * 4096 < 2 ^ 64" by (simp add: less_trans [OF unat_bounds(3)])
  then show ?thesis by (simp add: unat_word_ariths)
qed

lemma kmalloc_pages_frames:
  "pmm_inv s \<Longrightarrow> pmm_is_ready s \<Longrightarrow> kmalloc_pages n s = Ret (as, s') \<Longrightarrow>
   \<exists>fs. frames.alloc_many n s = Some (fs, s') \<and> as = map (\<lambda>f. ucast f * 0x1000) fs"
proof (induction n arbitrary: s as)
  case (Suc n)
  then obtain a s1 as1 where 1: "kmalloc_int 0x1000 True s = Ret (a, s1)"
    and 2: "kmalloc_pages n s1 = Ret (as1, s')" and as: "as = a # as1"
    by (auto simp: obind_Ret_iff)
  obtain f where f: "alloc_frame s = Some (f, s1)" "a = ucast f * 0x1000"
    using 1 Suc.prems(2) by (auto simp: kmalloc_int_ready)
  have "pmm_inv s1" "pmm_is_ready s1"
    using frames.invar_alloc [OF Suc.prems(1) f(1)] alloc_frame_Some(4) [OF _ f(1)] Suc.prems
    by (simp_all add: pmm_inv_def)
  from Suc.IH [OF this 2] f as show ?case by auto
qed simp

text \<open>
  C18. Page-sized requests to \<open>kmalloc_int\<close> once the frame allocator is ready return distinct page
  addresses; none of these frames was in use before (in particular none is referenced), all are
  afterwards, and the invariant that referenced frames are marked is kept.
\<close>

theorem kmalloc_pages_distinct:
  assumes "pmm_inv s" "pmm_is_ready s" "kmalloc_pages n s = Ret (as, s')"
  shows "length as = n \<and> distinct as \<and> pmm_inv s' \<and>
    (\<forall>a \<in> set as. unat a mod 4096 = 0 \<and> \<not> frame_used s (unat a div 4096) \<and>
       frame_refs s (unat a div 4096) = 0 \<and> frame_used s' (unat a div 4096))"
proof -
  obtain fs where fs: "frames.alloc_many n s = Some (fs, s')" and as: "as = map (\<lambda>f. ucast f * 0x1000) fs"
    using kmalloc_pages_frames [OF assms] by auto
  note many = frames.alloc_many_fresh [OF assms(1) fs]
  have "inj_on (\<lambda>f. ucast f * 0x1000 :: u64) (set fs)"
    by (rule inj_onI) (auto dest!: arg_cong [of _ _ unat] simp: unat_frame_address intro: unsigned_word_eqI)
  moreover have "frame_refs s g = 0" if "\<not> frame_used s g" for g
    using that assms(1) by (auto simp: pmm_inv_def)
  ultimately show ?thesis
    using many by (auto simp: as distinct_map unat_frame_address)
qed

theorem kmalloc_pages_distinct_witness:
  "\<exists>as s'. kmalloc_pages 2 small_pmm = Ret (as, s') \<and> length as = 2 \<and> distinct as \<and> pmm_inv s'"
proof -
  have "pmm_is_ready small_pmm" by (simp add: small_pmm_def)
  moreover have "case kmalloc_pages 2 small_pmm of Ret r \<Rightarrow> True | _ \<Rightarrow> False" by code_simp
  then obtain as s' where "kmalloc_pages 2 small_pmm = Ret (as, s')"
    by (cases "kmalloc_pages 2 small_pmm") auto
  ultimately show ?thesis using kmalloc_pages_distinct [OF small_pmm_wf(2)] by blast
qed

section \<open>Reference histories\<close>

datatype ref_event = AddRef | RemoveRef

fun ref_step :: "u32 \<Rightarrow> ref_event \<Rightarrow> pmm \<Rightarrow> pmm" where
  "ref_step f AddRef s = frame_add_ref f s"
| "ref_step f RemoveRef s = frame_remove_ref f s"

text \<open>The number of references outstanding, as long as it stays within the 8-bit counter.\<close>

fun net_refs :: "ref_event list \<Rightarrow> nat \<Rightarrow> nat option" where
  "net_refs [] n = Some n"
| "net_refs (AddRef # es) n = (if n < 255 then net_refs es (n + 1) else None)"
| "net_refs (RemoveRef # es) n = (if 0 < n then net_refs es (n - 1) else None)"

text \<open>
  C19. As long as at most 255 references to a frame are outstanding, its counter is their number and
  the frame is free exactly when none is left; other frames are not affected.
\<close>

theorem frame_ref_history:
  assumes "pmm_inv s" "unat f < unat (total_frames s)"
    and "frame_used s (unat f) \<longleftrightarrow> 0 < frame_refs s (unat f)"
    and "net_refs es (frame_refs s (unat f)) = Some n"
  shows "unat (frame_get_ref f (fold (ref_step f) es s)) = n \<and>
    (frame_used (fold (ref_step f) es s) (unat f) \<longleftrightarrow> 0 < n) \<and>
    pmm_inv (fold (ref_step f) es s) \<and>
    (\<forall>g. g \<noteq> unat f \<longrightarrow> frame_used (fold (ref_step f) es s) g = frame_used s g \<and>
       frame_refs (fold (ref_step f) es s) g = frame_refs s g)"
  using assms
proof (induction es arbitrary: s)
  case Nil
  then show ?case
    by (auto simp: frame_get_ref_def frame_refs_def ucast_frame_less pmm_inv_def elim!: pmm_wfE)
next
  case (Cons e es)
  then have wf: "pmm_wf s" by (simp add: pmm_inv_def)
  show ?case
  proof (cases e)
    case AddRef
    then have lt: "frame_refs s (unat f) < 255" using Cons.prems(4) by (auto split: if_splits)
    have "0 < frame_refs s (unat f) \<or> frame_refs s (unat f) = 0" by auto
    then show ?thesis
      using Cons.IH [of "frame_add_ref f s"] Cons.prems AddRef lt wf
      by (simp add: add_ref_inv add_ref_used add_ref_refs)
  next
    case RemoveRef
    then have "0 < frame_refs s (unat f)" using Cons.prems(4) by (auto split: if_splits)
    moreover from this have "frame_refs s (unat f) \<noteq> 1 \<longleftrightarrow> 0 < frame_refs s (unat f) - 1" by auto
    ultimately show ?thesis
      using Cons.IH [of "frame_remove_ref f s"] Cons.prems RemoveRef wf
      by (simp add: remove_ref_inv remove_ref_used remove_ref_refs)
  qed
qed

theorem frame_ref_history_witness:
  "unat (frame_get_ref 9 (fold (ref_step 9) [AddRef, AddRef, RemoveRef, RemoveRef] small_pmm)) = 0 \<and>
   (frame_used (fold (ref_step 9) [AddRef, AddRef, RemoveRef, RemoveRef] small_pmm) 9 \<longleftrightarrow> False)"
proof -
  have "unat (9 :: u32) < unat (total_frames small_pmm)" "\<not> frame_used small_pmm 9"
    "frame_refs small_pmm 9 = 0"
    by code_simp+
  then show ?thesis
    using frame_ref_history [OF small_pmm_wf(2), of 9 "[AddRef, AddRef, RemoveRef, RemoveRef]" 0] by simp
qed

section \<open>Start-up\<close>

lemma page_add:
  assumes "unat (p :: u64) mod 4096 = 0" "unat p < unat end" "unat end \<le> 2 ^ 44"
  shows "unat (p + 0x1000) = unat p + 4096"
  using assms by (simp add: unat_word_ariths)

lemma reserve_range_spec:
  assumes "pmm_wf s" "unat p mod 4096 = 0" "unat end \<le> 2 ^ 44"
  shows "\<exists>s'. reserve_range p end s = Some s' \<and> pmm_wf s' \<and> frame_refs s' = frame_refs s \<and>
    total_frames s' = total_frames s \<and>
    (\<forall>g. frame_used s' g \<longleftrightarrow>
       frame_used s g \<or> g < unat (total_frames s) \<and> unat p \<le> g * 4096 \<and> g * 4096 < unat end)"
  using assms
proof (induction "unat end - unat p" arbitrary: p s rule: less_induct)
  case less
  show ?case
  proof (cases "p < end")
    case False
    then have "unat end \<le> unat p" by (simp add: word_less_nat_alt)
    with False less.prems show ?thesis
      by (subst reserve_range.simps) (auto simp: word_less_nat_alt)
  next
    case True
    then have lt: "unat p < unat end" by (simp add: word_less_nat_alt)
    note step = page_add [OF less.prems(2) lt less.prems(3)]
    have dec: "unat end - unat (p + 0x1000) < unat end - unat p" using lt step by linarith
    let ?f = "ucast (p div 0x1000) :: u32"
    have f: "unat ?f * 4096 = unat p"
    proof -
      have "unat p div 4096 < 2 ^ 32" using lt less.prems(3) by simp
      then have "unat ?f = unat p div 4096"
        by (simp add: unsigned_ucast_eq unat_div take_bit_nat_eq_self)
      then show ?thesis using less.prems(2) by (simp add: mod_0_imp_dvd)
    qed
    obtain s' where s': "reserve_range (p + 0x1000) end (pmm_set_frame ?f s) = Some s'" "pmm_wf s'"
      "frame_refs s' = frame_refs s" "total_frames s' = total_frames s"
      "\<And>g. frame_used s' g \<longleftrightarrow> frame_used (pmm_set_frame ?f s) g \<or>
         g < unat (total_frames s) \<and> unat p + 4096 \<le> g * 4096 \<and> g * 4096 < unat end"
      using less.hyps [OF dec set_frame_wf [OF less.prems(1)] _ less.prems(3), of ?f] less.prems(2)
      unfolding step by auto
    have "g = unat ?f \<or> unat p + 4096 \<le> g * 4096 \<longleftrightarrow> unat p \<le> g * 4096" for g
      using f by auto
    then have "frame_used s' g \<longleftrightarrow>
       frame_used s g \<or> g < unat (total_frames s) \<and> unat p \<le> g * 4096 \<and> g * 4096 < unat end" for g
      using s'(5) [of g] lt f less.prems(1) by (auto simp: set_frame_used)
    with True s' show ?thesis by (subst reserve_range.simps) auto
  qed
qed

definition region_frame :: "mmap_entry \<Rightarrow> nat \<Rightarrow> bool" where
  "region_frame e g \<longleftrightarrow> unat (me_addr e) div 4096 \<le> g \<and> g * 4096 < unat (me_addr e) + unat (me_len e)"

lemma region_end:
  "unat (me_addr e) + unat (me_len e) \<le> 2 ^ 44 \<Longrightarrow>
   unat (me_addr e + me_len e) = unat (me_addr e) + unat (me_len e)"
  by (simp add: unat_word_ariths)

lemma reserve_regions_spec:
  assumes "pmm_wf s" "\<forall>e \<in> set es. unat (me_addr e) + unat (me_len e) \<le> 2 ^ 44"
  shows "\<exists>s'. reserve_regions es s = Some s' \<and> pmm_wf s' \<and> frame_refs s' = frame_refs s \<and>
    total_frames s' = total_frames s \<and>
    (\<forall>g < unat (total_frames s). frame_used s' g \<longleftrightarrow>
       frame_used s g \<or> (\<exists>e \<in> set es. me_type e \<noteq> 1 \<and> region_frame e g))"
  using assms
proof (induction es arbitrary: s)
  case (Cons e es)
  show ?case
  proof (cases "me_type e = 1")
    case True
    with Cons show ?thesis by simp
  next
    case False
    have e: "unat (me_addr e) + unat (me_len e) \<le> 2 ^ 44" using Cons.prems by simp
    obtain s1 where s1: "reserve_range (me_addr e AND NOT 0xFFF) (me_addr e + me_len e) s = Some s1"
      "pmm_wf s1" "frame_refs s1 = frame_refs s" "total_frames s1 = total_frames s"
      "\<forall>g. frame_used s1 g \<longleftrightarrow> frame_used s g \<or> g < unat (total_frames s) \<and> region_frame e g"
      using reserve_range_spec [of s "me_addr e AND NOT 0xFFF" "me_addr e + me_len e"] Cons.prems(1)
      unfolding region_end [OF e] unat_page_floor [of "me_addr e"]
      using e by (auto simp: region_frame_def)
    obtain s' where "reserve_regions es s1 = Some s'" "pmm_wf s'" "frame_refs s' = frame_refs s1"
      "total_frames s' = total_frames s1"
      "\<forall>g < unat (total_frames s1). frame_used s' g \<longleftrightarrow>
         frame_used s1 g \<or> (\<exists>e \<in> set es. me_type e \<noteq> 1 \<and> region_frame e g)"
      using Cons.IH [OF s1(2)] Cons.prems(2) by auto
    with False s1 show ?thesis by auto
  qed
qed simp

text \<open>
  C20. Start-up from a memory map whose regions lie below 16 TiB: the loops end, the frame tables are
  consistent, no frame is referenced, and a frame is marked in use exactly when it meets a region
  that is not usable RAM.
\<close>

theorem pmm_init_marks_reserved:
  assumes "es \<noteq> []" "\<not> pmm_is_ready s" "unat (max_phys es div 0x1000) < 2 ^ 32 - 32"
    and "\<forall>e \<in> set es. unat (me_addr e) + unat (me_len e) \<le> 2 ^ 44"
  shows "\<exists>s'. pmm_init_from_mmap es s = Some s' \<and> pmm_inv s' \<and>
    total_frames s' = max_phys es div 0x1000 \<and>
    (\<forall>g < unat (total_frames s'). frame_refs s' g = 0 \<and>
       (frame_used s' g \<longleftrightarrow> (\<exists>e \<in> set es. me_type e \<noteq> 1 \<and> region_frame e g)))"
proof -
  let ?tot = "max_phys es div 0x1000"
  have "\<exists>b. pmm_init_from_mmap es s = reserve_regions es (s\<lparr>total_frames := ?tot, free_mem_addr := b,
      frame_bitmap := Some (replicate (unat (?tot div 32 + 1)) 0),
      frame_ref_count := Some (replicate (unat ?tot) 0)\<rparr>)"
    using assms(1,2) by (simp add: pmm_init_from_mmap_def kmalloc_int_def Let_def) (rule exI, rule refl)
  then obtain b where s2: "pmm_init_from_mmap es s = reserve_regions es (s\<lparr>total_frames := ?tot,
      free_mem_addr := b, frame_bitmap := Some (replicate (unat (?tot div 32 + 1)) 0),
      frame_ref_count := Some (replicate (unat ?tot) 0)\<rparr>)" (is "_ = reserve_regions es ?s3") by blast
  have "unat (?tot div 32 + 1) = unat ?tot div 32 + 1"
    using assms(3) by (simp add: unat_word_ariths unat_div)
  then have wf: "pmm_wf ?s3" using assms(3) by (simp add: pmm_wf_def)
  have zero: "frame_refs ?s3 g = 0" "\<not> frame_used ?s3 g" for g
    by (auto simp: frame_refs_def frame_used_def bit_used_def)
  obtain s' where "reserve_regions es ?s3 = Some s'" "pmm_wf s'" "frame_refs s' = frame_refs ?s3"
    "total_frames s' = ?tot"
    "\<forall>g < unat ?tot. frame_used s' g \<longleftrightarrow>
       frame_used ?s3 g \<or> (\<exists>e \<in> set es. me_type e \<noteq> 1 \<and> region_frame e g)"
    using reserve_regions_spec [OF wf assms(4)] by auto
  then show ?thesis using s2 zero by (auto simp: pmm_inv_def)
qed

theorem pmm_init_marks_reserved_witness:
  "\<exists>s'. pmm_init_from_mmap [\<lparr>me_addr = 0, me_len = 0x9F000, me_type = 1\<rparr>,
       \<lparr>me_addr = 0x9F800, me_len = 0x60800, me_type = 2\<rparr>]
     \<lparr>frame_bitmap = None, frame_ref_count = None, total_frames = 0, free_mem_addr = 0x200000,
      pmm_is_ready = False\<rparr> = Some s' \<and> pmm_inv s' \<and> total_frames s' = 0x100"
  using pmm_init_marks_reserved [of "[\<lparr>me_addr = 0, me_len = 0x9F000, me_type = 1\<rparr>,
       \<lparr>me_addr = 0x9F800, me_len = 0x60800, me_type = 2\<rparr>]"
     "\<lparr>frame_bitmap = None, frame_ref_count = None, total_frames = 0, free_mem_addr = 0x200000,
      pmm_is_ready = False\<rparr>"]
  by (auto simp: max_phys_def)

end
