(* ===== verification/Pipe.thy ===== *)
theory Pipe
  imports Fifo
begin

text \<open>
  Byte pipes, kernel/core/pipe.c. A pipe is a ring buffer with reader and writer counts and at
  most one registered waiting reader. Reading is blocking: the state in which the reader halts
  and what the other tasks do meanwhile are explicit. The ring is shown to be a bounded FIFO
  (theory Fifo), and reads and writes to follow from that.
\<close>

section \<open>State\<close>

text \<open>\<open>pipe_t\<close>. The lock is not modelled: each operation below runs between its acquire and release.\<close>

record pipe_t =
  p_buffer :: "u8 list"
  p_head :: u32
  p_tail :: u32
  p_len :: u32
  p_size :: u32
  p_readers :: u32
  p_writers :: u32
  p_waiting_task :: "ptr option"

text \<open>A pipe together with what its operations change outside it: task states, the live-pipe count.\<close>

record pipe_sys =
  ps_pipe :: pipe_t
  ps_state :: "ptr \<Rightarrow> tstate"
  ps_debug_pipe_count :: int

definition PIPE_SIZE :: u32 where
  "PIPE_SIZE = 4096"

section \<open>Operations\<close>

text \<open>
  \<open>pipe_create\<close>: the two heap requests may fail; \<open>buf\<close> is the block the second one returns (its
  old contents), \<open>None\<close> if it fails. The result is the new pipe and the new \<open>debug_pipe_count\<close>.
\<close>

definition pipe_create :: "bool \<Rightarrow> u8 list option \<Rightarrow> u32 \<Rightarrow> int \<Rightarrow> pipe_t option \<times> int" where
  "pipe_create pipe_block buf sz count =
     (if \<not> pipe_block then (None, count)
      else case buf of
        None \<Rightarrow> (None, count)
      | Some b \<Rightarrow>
          (Some \<lparr>p_buffer = b, p_head = 0, p_tail = 0, p_len = 0, p_size = sz,
                 p_readers = 0, p_writers = 0, p_waiting_task = None\<rparr>, count + 1))"

text \<open>The loop body of \<open>pipe_write\<close>: one byte at the head.\<close>

definition pipe_put :: "u8 \<Rightarrow> pipe_t \<Rightarrow> pipe_t" where
  "pipe_put b p =
     p\<lparr>p_buffer := (p_buffer p)[unat (p_head p) := b],
       p_head := (p_head p + 1) mod p_size p,
       p_len := p_len p + 1\<rparr>"

text \<open>The loop body of \<open>pipe_read\<close>: one byte from the tail.\<close>

definition pipe_take :: "pipe_t \<Rightarrow> u8 \<times> pipe_t" where
  "pipe_take p =
     (p_buffer p ! unat (p_tail p),
      p\<lparr>p_tail := (p_tail p + 1) mod p_size p, p_len := p_len p - 1\<rparr>)"

fun pipe_write_loop :: "u8 list \<Rightarrow> pipe_t \<Rightarrow> u32 \<Rightarrow> pipe_t \<times> u32" where
  "pipe_write_loop [] p written = (p, written)"
| "pipe_write_loop (b # bs) p written =
     (if p_len p < p_size p then pipe_write_loop bs (pipe_put b p) (written + 1)
      else (p, written))"

fun pipe_read_loop :: "nat \<Rightarrow> pipe_t \<Rightarrow> u8 list \<times> pipe_t" where
  "pipe_read_loop 0 p = ([], p)"
| "pipe_read_loop (Suc n) p =
     (if 0 < p_len p
      then let (b, p1) = pipe_take p; (bs, p2) = pipe_read_loop n p1 in (b # bs, p2)
      else ([], p))"

text \<open>Waking the registered reader, if it is still waiting.\<close>

definition pipe_wake :: "pipe_t \<Rightarrow> (ptr \<Rightarrow> tstate) \<Rightarrow> ptr \<Rightarrow> tstate" where
  "pipe_wake p st =
     (case p_waiting_task p of
        None \<Rightarrow> st
      | Some t \<Rightarrow> if st t = TASK_WAITING then st(t := TASK_READY) else st)"

text \<open>
  \<open>pipe_write\<close> of the bytes \<open>data\<close> (the caller's buffer, of \<open>sz\<close> bytes). Without readers the
  result is \<open>(uint32_t)-1\<close>; a zero-sized pipe panics.
\<close>

definition pipe_write :: "u8 list \<Rightarrow> pipe_sys \<Rightarrow> (pipe_sys, u64 \<times> pipe_sys) outcome" where
  "pipe_write data s =
     (let p = ps_pipe s in
      if p_readers p = 0 then Ret (0xFFFFFFFF, s)
      else if p_size p = 0 then Panic ''PIPE SIZE ZERO''
      else let (p', written) = pipe_write_loop data p 0
           in Ret (ucast written, s\<lparr>ps_pipe := p', ps_state := pipe_wake p' (ps_state s)\<rparr>))"

text \<open>
  One pass of \<open>pipe_read\<close> under the lock: it ends either in the halt of the blocking loop (the
  reader registered and marked waiting) or with the bytes read.
\<close>

datatype read_pass = Blocked pipe_sys | Finished "u8 list" pipe_sys

definition pipe_read_pass :: "ptr \<Rightarrow> nat \<Rightarrow> pipe_sys \<Rightarrow> read_pass" where
  "pipe_read_pass self sz s =
     (let p = ps_pipe s in
      if p_len p = 0 \<and> 0 < p_writers p then
        Blocked (s\<lparr>ps_pipe := p\<lparr>p_waiting_task := Some self\<rparr>,
                   ps_state := (ps_state s)(self := TASK_WAITING)\<rparr>)
      else if p_len p = 0 \<and> p_writers p = 0 then Finished [] s
      else let (bs, p') = pipe_read_loop sz p in Finished bs (s\<lparr>ps_pipe := p'\<rparr>))"

definition pipe_clear_waiting :: "pipe_sys \<Rightarrow> pipe_sys" where
  "pipe_clear_waiting s = s\<lparr>ps_pipe := (ps_pipe s)\<lparr>p_waiting_task := None\<rparr>\<rparr>"

text \<open>
  \<open>pipe_read\<close> by task \<open>self\<close>. The list holds, for each time the reader halts, what the rest of the
  system does until an interrupt lets it run again; \<open>None\<close> is a reader that is still halted when
  the list is used up.
\<close>

fun pipe_read :: "ptr \<Rightarrow> nat \<Rightarrow> (pipe_sys \<Rightarrow> pipe_sys) list \<Rightarrow> pipe_sys
    \<Rightarrow> (u8 list \<times> pipe_sys) option" where
  "pipe_read self sz [] s =
     (case pipe_read_pass self sz s of
        Finished bs s' \<Rightarrow> Some (bs, s')
      | Blocked s' \<Rightarrow> None)"
| "pipe_read self sz (e # es) s =
     (case pipe_read_pass self sz s of
        Finished bs s' \<Rightarrow> Some (bs, s')
      | Blocked s' \<Rightarrow> pipe_read self sz es (pipe_clear_waiting (e s')))"

definition pipe_add_reader :: "pipe_sys \<Rightarrow> pipe_sys" where
  "pipe_add_reader s = s\<lparr>ps_pipe := (ps_pipe s)\<lparr>p_readers := p_readers (ps_pipe s) + 1\<rparr>\<rparr>"

definition pipe_add_writer :: "pipe_sys \<Rightarrow> pipe_sys" where
  "pipe_add_writer s = s\<lparr>ps_pipe := (ps_pipe s)\<lparr>p_writers := p_writers (ps_pipe s) + 1\<rparr>\<rparr>"

definition pipe_count_dead :: "pipe_sys \<Rightarrow> pipe_sys" where
  "pipe_count_dead s =
     (if p_readers (ps_pipe s) = 0 \<and> p_writers (ps_pipe s) = 0
      then s\<lparr>ps_debug_pipe_count := ps_debug_pipe_count s - 1\<rparr> else s)"

definition pipe_remove_reader :: "pipe_sys \<Rightarrow> pipe_sys" where
  "pipe_remove_reader s =
     (let p = ps_pipe s;
          p' = (if 0 < p_readers p then p\<lparr>p_readers := p_readers p - 1\<rparr> else p)
      in pipe_count_dead (s\<lparr>ps_pipe := p'\<rparr>))"

definition pipe_remove_writer :: "pipe_sys \<Rightarrow> pipe_sys" where
  "pipe_remove_writer s =
     (let p = ps_pipe s;
          p' = (if 0 < p_writers p then p\<lparr>p_writers := p_writers p - 1\<rparr> else p);
          st' = (if p_writers p' = 0 then pipe_wake p' (ps_state s) else ps_state s)
      in pipe_count_dead (s\<lparr>ps_pipe := p', ps_state := st'\<rparr>))"

section \<open>The ring is a bounded FIFO\<close>

definition pipe_contents :: "pipe_t \<Rightarrow> u8 list" where
  "pipe_contents p = ring (p_buffer p) (unat (p_tail p)) (unat (p_len p))"

definition pipe_inv :: "pipe_t \<Rightarrow> bool" where
  "pipe_inv p \<longleftrightarrow>
     0 < p_size p \<and> length (p_buffer p) = unat (p_size p) \<and>
     p_head p < p_size p \<and> p_tail p < p_size p \<and> p_len p \<le> p_size p \<and>
     unat (p_head p) = (unat (p_tail p) + unat (p_len p)) mod unat (p_size p)"

lemma pipe_create_inv:
  assumes "pipe_create True (Some b) sz c = (Some p, c')" "0 < sz" "length b = unat sz"
  shows "pipe_inv p" "pipe_contents p = []"
  using assms by (auto simp: pipe_create_def pipe_inv_def pipe_contents_def)

lemma length_pipe_contents [simp]: "length (pipe_contents p) = unat (p_len p)"
  by (simp add: pipe_contents_def)

lemma unat_step_mod:
  "(x :: u32) < s \<Longrightarrow> unat ((x + 1) mod s) = Suc (unat x) mod unat s"
  by (simp add: unat_mod unat_add1_less)

lemma step_mod_less: "(0 :: u32) < s \<Longrightarrow> (x + 1) mod s < s"
  by (simp add: word_mod_less_divisor)

text \<open>The two loop bodies behind their loop guards: the operations of the queue.\<close>

definition pipe_offer :: "u8 \<Rightarrow> pipe_t \<Rightarrow> pipe_t" where
  "pipe_offer b p = (if p_len p < p_size p then pipe_put b p else p)"

definition pipe_poll :: "pipe_t \<Rightarrow> (u8 \<times> pipe_t) option" where
  "pipe_poll p = (if 0 < p_len p then Some (pipe_take p) else None)"

lemma pipe_put_inv [kinv]:
  assumes inv: "pipe_inv p" and room: "p_len p < p_size p"
  shows "pipe_inv (pipe_put b p)"
proof -
  have "unat ((p_head p + 1) mod p_size p) = Suc (unat (p_head p)) mod unat (p_size p)"
    using inv by (simp add: pipe_inv_def unat_step_mod)
  also have "\<dots> = (unat (p_tail p) + unat (p_len p + 1)) mod unat (p_size p)"
    using inv room by (simp add: pipe_inv_def unat_add1_less mod_Suc_eq)
  finally have "unat ((p_head p + 1) mod p_size p) =
      (unat (p_tail p) + unat (p_len p + 1)) mod unat (p_size p)" .
  moreover have "p_len p + 1 \<le> p_size p"
    using room by (simp add: word_le_nat_alt word_less_nat_alt unat_add1_less)
  ultimately show ?thesis
    using inv by (simp add: pipe_inv_def pipe_put_def step_mod_less)
qed

lemma pipe_put_contents:
  assumes inv: "pipe_inv p" and room: "p_len p < p_size p"
  shows "pipe_contents (pipe_put b p) = pipe_contents p @ [b]"
proof -
  have "unat (p_len p) < length (p_buffer p)"
    using inv room by (simp add: pipe_inv_def word_less_nat_alt)
  moreover have "unat (p_head p) = (unat (p_tail p) + unat (p_len p)) mod length (p_buffer p)"
    using inv by (simp add: pipe_inv_def)
  ultimately show ?thesis
    using room by (simp add: pipe_contents_def pipe_put_def unat_add1_less ring_snoc)
qed

lemma pipe_take_inv [kinv]:
  assumes inv: "pipe_inv p" and ne: "0 < p_len p"
  shows "pipe_inv (snd (pipe_take p))"
proof -
  obtain n where n: "unat (p_len p) = Suc n" and l: "unat (p_len p - 1) = n"
    using ne by (rule word_pos_Suc)
  have t: "unat ((p_tail p + 1) mod p_size p) = Suc (unat (p_tail p)) mod unat (p_size p)"
    using inv by (simp add: pipe_inv_def unat_step_mod)
  have "unat (p_head p) = (unat ((p_tail p + 1) mod p_size p) + unat (p_len p - 1)) mod unat (p_size p)"
    using inv n l by (simp add: pipe_inv_def t mod_add_left_eq)
  moreover have "p_len p - 1 \<le> p_size p"
    using inv n l by (simp add: pipe_inv_def word_le_nat_alt)
  ultimately show ?thesis
    using inv by (simp add: pipe_inv_def pipe_take_def step_mod_less)
qed

lemma pipe_take_contents:
  assumes inv: "pipe_inv p" and ne: "0 < p_len p"
  shows "pipe_contents p = fst (pipe_take p) # pipe_contents (snd (pipe_take p))"
proof -
  obtain n where n: "unat (p_len p) = Suc n" and l: "unat (p_len p - 1) = n"
    using ne by (rule word_pos_Suc)
  have t: "unat ((p_tail p + 1) mod p_size p) = Suc (unat (p_tail p)) mod length (p_buffer p)"
    using inv by (simp add: pipe_inv_def unat_step_mod)
  have "unat (p_tail p) < length (p_buffer p)"
    using inv by (simp add: pipe_inv_def word_less_nat_alt)
  then show ?thesis
    by (simp add: pipe_contents_def pipe_take_def n l t ring_Suc_front ring_mod)
qed

lemma pipe_size_frame [simp]:
  "p_size (pipe_put b p) = p_size p" "p_size (snd (pipe_take p)) = p_size p"
  by (simp_all add: pipe_put_def pipe_take_def)

lemma pipe_frame_other [simp]:
  "p_readers (pipe_put b p) = p_readers p" "p_readers (snd (pipe_take p)) = p_readers p"
  "p_writers (pipe_put b p) = p_writers p" "p_writers (snd (pipe_take p)) = p_writers p"
  "p_waiting_task (pipe_put b p) = p_waiting_task p"
  "p_waiting_task (snd (pipe_take p)) = p_waiting_task p"
  by (simp_all add: pipe_put_def pipe_take_def)

interpretation pipe_q: bounded_fifo pipe_offer pipe_poll pipe_contents "\<lambda>p. unat (p_size p)" pipe_inv
proof unfold_locales
  fix q x assume "pipe_inv q"
  then show "pipe_inv (pipe_offer x q)" by (simp add: pipe_offer_def pipe_put_inv)
next
  fix q x q' assume "pipe_inv q" "pipe_poll q = Some (x, q')"
  then show "pipe_inv q'"
    using pipe_take_inv [of q] by (auto simp: pipe_poll_def split: if_splits)
next
  fix q assume "pipe_inv q"
  then show "length (pipe_contents q) \<le> unat (p_size q)"
    by (simp add: pipe_inv_def word_le_nat_alt)
next
  fix q x assume "pipe_inv q"
  then show "pipe_contents (pipe_offer x q) =
      (if length (pipe_contents q) < unat (p_size q) then pipe_contents q @ [x] else pipe_contents q)"
    by (simp add: pipe_offer_def pipe_put_contents word_less_nat_alt)
next
  fix q assume "pipe_inv q"
  then show "(pipe_poll q = None) = (pipe_contents q = [])"
    by (simp add: pipe_poll_def word_gt_0 unat_eq_0 flip: length_0_conv)
next
  fix q x q' assume "pipe_inv q" "pipe_poll q = Some (x, q')"
  then show "pipe_contents q = x # pipe_contents q'"
    using pipe_take_contents [of q] by (auto simp: pipe_poll_def split: if_splits)
next
  fix q x
  show "unat (p_size (pipe_offer x q)) = unat (p_size q)" by (simp add: pipe_offer_def)
next
  fix q x q' assume "pipe_poll q = Some (x, q')"
  then show "unat (p_size q') = unat (p_size q)"
    by (simp add: pipe_poll_def pipe_take_def split: if_splits) auto
qed

section \<open>Reads and writes\<close>

lemma pipe_offer_cases:
  "p_len p < p_size p \<Longrightarrow> pipe_offer b p = pipe_put b p"
  "\<not> p_len p < p_size p \<Longrightarrow> pipe_offer b p = p"
  by (simp_all add: pipe_offer_def)

lemma puts_full: "\<not> p_len p < p_size p \<Longrightarrow> pipe_q.puts bs p = p"
  by (induction bs) (auto simp: pipe_offer_cases)

lemma write_loop_puts: "fst (pipe_write_loop bs p w) = pipe_q.puts bs p"
  by (induction bs p w rule: pipe_write_loop.induct) (auto simp: puts_full pipe_offer_cases)

lemma write_loop_frame:
  "pipe_write_loop bs p w = (p', w') \<Longrightarrow>
     p_size p' = p_size p \<and> p_readers p' = p_readers p \<and> p_writers p' = p_writers p \<and>
     p_waiting_task p' = p_waiting_task p"
  by (induction bs p w arbitrary: p' w' rule: pipe_write_loop.induct) (auto split: if_splits)

lemma write_loop_count:
  "pipe_inv p \<Longrightarrow> snd (pipe_write_loop bs p w) =
     w + of_nat (min (unat (p_size p) - unat (p_len p)) (length bs))"
proof (induction bs p w rule: pipe_write_loop.induct)
  case (2 b bs p w)
  show ?case
  proof (cases "p_len p < p_size p")
    case True
    then have room: "unat (p_size p) - unat (p_len p) = Suc (unat (p_size p) - unat (p_len p + 1))"
      by (simp add: unat_add1_less word_less_nat_alt Suc_diff_Suc)
    from True "2.IH" [OF True pipe_put_inv [OF "2.prems" True]] show ?thesis
      by (simp add: room) (simp add: pipe_put_def)
  next
    case False
    then show ?thesis by (simp add: word_less_nat_alt)
  qed
qed simp

lemma write_loop_contents:
  assumes "pipe_inv p" "pipe_write_loop bs p w = (p', w')"
  shows "pipe_inv p'"
    and "pipe_contents p' = pipe_contents p @ take (unat (p_size p) - unat (p_len p)) bs"
  using pipe_q.invar_puts [OF assms(1), of bs] pipe_q.contents_puts [OF assms(1), of bs]
    write_loop_puts [of bs p w] assms(2)
  by simp_all

lemma read_loop_contents:
  "pipe_inv p \<Longrightarrow> pipe_read_loop n p = (bs, p') \<Longrightarrow>
     pipe_inv p' \<and> bs = take n (pipe_contents p) \<and> pipe_contents p' = drop n (pipe_contents p) \<and>
     p_size p' = p_size p \<and> p_readers p' = p_readers p \<and> p_writers p' = p_writers p \<and>
     p_waiting_task p' = p_waiting_task p"
proof (induction n p arbitrary: bs p' rule: pipe_read_loop.induct)
  case (2 n p)
  show ?case
  proof (cases "0 < p_len p")
    case True
    obtain b p1 where t: "pipe_take p = (b, p1)" by (cases "pipe_take p") auto
    obtain cs p2 where r: "pipe_read_loop n p1 = (cs, p2)" by (cases "pipe_read_loop n p1") auto
    from pipe_take_inv [OF "2.prems"(1) True] t have "pipe_inv p1" by simp
    note ih = "2.IH" [OF True t [symmetric] refl this r]
    from pipe_take_contents [OF "2.prems"(1) True] t
    have "pipe_contents p = b # pipe_contents p1" by simp
    moreover from t have "p_size p1 = p_size p" "p_readers p1 = p_readers p"
      "p_writers p1 = p_writers p" "p_waiting_task p1 = p_waiting_task p"
      by (auto simp: pipe_take_def)
    ultimately show ?thesis using True "2.prems"(2) t r ih by auto
  next
    case False
    then have "pipe_contents p = []" by (simp add: word_gt_0 unat_eq_0 flip: length_0_conv)
    with False "2.prems" show ?thesis by auto
  qed
qed simp

lemma pipe_write_Ret:
  assumes "pipe_inv (ps_pipe s)" "p_readers (ps_pipe s) \<noteq> 0"
  obtains p' where
    "pipe_write data s =
       Ret (of_nat (min (unat (p_size (ps_pipe s)) - unat (p_len (ps_pipe s))) (length data)),
            s\<lparr>ps_pipe := p', ps_state := pipe_wake p' (ps_state s)\<rparr>)"
    "pipe_inv p'"
    "pipe_contents p' = pipe_contents (ps_pipe s) @
       take (unat (p_size (ps_pipe s)) - unat (p_len (ps_pipe s))) data"
    "p_size p' = p_size (ps_pipe s)" "p_readers p' = p_readers (ps_pipe s)"
    "p_writers p' = p_writers (ps_pipe s)" "p_waiting_task p' = p_waiting_task (ps_pipe s)"
proof -
  let ?p = "ps_pipe s" and ?k = "min (unat (p_size (ps_pipe s)) - unat (p_len (ps_pipe s))) (length data)"
  obtain p' w where l: "pipe_write_loop data ?p 0 = (p', w)" by (cases "pipe_write_loop data ?p 0") auto
  have w: "w = of_nat ?k" using write_loop_count [OF assms(1), of data 0] l by simp
  have "?k < 2 ^ 32"
    using unat_bounds(3) [of "p_size ?p"] by (simp add: min_less_iff_disj less_imp_diff_less)
  then have "(ucast w :: u64) = of_nat ?k"
    by (simp add: w unsigned_of_nat take_bit_nat_eq_self)
  moreover have "p_size ?p \<noteq> 0" using assms(1) by (auto simp: pipe_inv_def)
  ultimately have "pipe_write data s =
      Ret (of_nat ?k, s\<lparr>ps_pipe := p', ps_state := pipe_wake p' (ps_state s)\<rparr>)"
    using assms(2) l by (simp add: pipe_write_def Let_def)
  then show ?thesis
    using that write_loop_contents [OF assms(1) l] write_loop_frame [OF l] by blast
qed

text \<open>
  C13. Writing to a pipe that has readers appends exactly the prefix of the data that fits to the
  bytes in flight, keeps the ring well formed, reports the number of bytes taken and never panics.
\<close>

theorem pipe_write_appends:
  assumes "pipe_inv (ps_pipe s)" "p_readers (ps_pipe s) \<noteq> 0"
  shows "\<exists>s'. pipe_write data s =
      Ret (of_nat (min (unat (p_size (ps_pipe s)) - unat (p_len (ps_pipe s))) (length data)), s') \<and>
    pipe_inv (ps_pipe s') \<and>
    pipe_contents (ps_pipe s') = pipe_contents (ps_pipe s) @
      take (unat (p_size (ps_pipe s)) - unat (p_len (ps_pipe s))) data"
proof -
  from assms obtain p' where
    "pipe_write data s =
       Ret (of_nat (min (unat (p_size (ps_pipe s)) - unat (p_len (ps_pipe s))) (length data)),
            s\<lparr>ps_pipe := p', ps_state := pipe_wake p' (ps_state s)\<rparr>)"
    "pipe_inv p'"
    "pipe_contents p' = pipe_contents (ps_pipe s) @
       take (unat (p_size (ps_pipe s)) - unat (p_len (ps_pipe s))) data"
    by (rule pipe_write_Ret)
  then show ?thesis by simp
qed

definition small_pipe :: pipe_sys where
  "small_pipe = \<lparr>ps_pipe = \<lparr>p_buffer = [10, 20, 30, 40], p_head = 1, p_tail = 3, p_len = 2,
     p_size = 4, p_readers = 1, p_writers = 1, p_waiting_task = None\<rparr>,
     ps_state = (\<lambda>_. TASK_RUNNING), ps_debug_pipe_count = 1\<rparr>"

lemma small_pipe_facts:
  "pipe_inv (ps_pipe small_pipe)" "p_readers (ps_pipe small_pipe) \<noteq> 0"
  "pipe_contents (ps_pipe small_pipe) = [40, 10]"
  "unat (p_size (ps_pipe small_pipe)) - unat (p_len (ps_pipe small_pipe)) = 2"
  by (simp_all add: small_pipe_def pipe_inv_def pipe_contents_def ring_def upt_rec)

theorem pipe_write_appends_witness:
  "\<exists>s'. pipe_write [1, 2, 3] small_pipe = Ret (2, s') \<and>
     pipe_inv (ps_pipe s') \<and> pipe_contents (ps_pipe s') = [40, 10, 1, 2]"
  using pipe_write_appends [OF small_pipe_facts(1,2), of "[1, 2, 3]"]
  by (simp add: small_pipe_facts)

text \<open>
  C14. A read that does not block (bytes are in flight, or no writer is left) returns the oldest
  bytes, at most as many as asked for, removes exactly these, and keeps the ring well formed;
  with nothing in flight it is the end-of-file result of length zero.
\<close>

theorem pipe_read_takes:
  assumes "pipe_inv (ps_pipe s)" "p_len (ps_pipe s) \<noteq> 0 \<or> p_writers (ps_pipe s) = 0"
  shows "\<exists>s'. pipe_read self n env s = Some (take n (pipe_contents (ps_pipe s)), s') \<and>
    pipe_inv (ps_pipe s') \<and>
    pipe_contents (ps_pipe s') = drop n (pipe_contents (ps_pipe s)) \<and>
    ps_state s' = ps_state s"
proof -
  obtain bs p' where l: "pipe_read_loop n (ps_pipe s) = (bs, p')"
    by (cases "pipe_read_loop n (ps_pipe s)") auto
  note r = read_loop_contents [OF assms(1) l]
  have "pipe_contents (ps_pipe s) = []" if "p_len (ps_pipe s) = 0"
    using that by (simp flip: length_0_conv)
  then have "\<exists>s'. pipe_read_pass self n s = Finished (take n (pipe_contents (ps_pipe s))) s' \<and>
      pipe_inv (ps_pipe s') \<and>
      pipe_contents (ps_pipe s') = drop n (pipe_contents (ps_pipe s)) \<and> ps_state s' = ps_state s"
    using assms l r by (auto simp: pipe_read_pass_def Let_def word_gt_0)
  then show ?thesis by (cases env) auto
qed

theorem pipe_read_takes_witness:
  "\<exists>s'. pipe_read 7 1 [] small_pipe = Some ([40], s') \<and> pipe_inv (ps_pipe s') \<and>
     pipe_contents (ps_pipe s') = [10] \<and> ps_state s' = ps_state small_pipe"
proof -
  have "p_len (ps_pipe small_pipe) \<noteq> 0 \<or> p_writers (ps_pipe small_pipe) = 0"
    by (simp add: small_pipe_def)
  from pipe_read_takes [OF small_pipe_facts(1) this, of 7 1 "[]"] show ?thesis
    by (simp add: small_pipe_facts)
qed

section \<open>Histories\<close>

text \<open>
  What tasks do to a pipe in some order: writes, read passes (a pass that would block delivers
  nothing and leaves the reader registered), and changes of the reader and writer counts. A
  history yields the bytes accepted by writes and the bytes delivered by reads.
\<close>

datatype pipe_event =
    EWrite "u8 list"
  | ERead ptr nat
  | EAddReader | EAddWriter | ERemoveReader | ERemoveWriter

fun pipe_step :: "pipe_event \<Rightarrow> pipe_sys \<Rightarrow> (u8 list \<times> u8 list \<times> pipe_sys) option" where
  "pipe_step (EWrite data) s =
     (case pipe_write data s of
        Ret (n, s') \<Rightarrow> Some ((if n = 0xFFFFFFFF then [] else take (unat n) data), [], s')
      | _ \<Rightarrow> None)"
| "pipe_step (ERead self n) s =
     (case pipe_read_pass self n s of
        Finished bs s' \<Rightarrow> Some ([], bs, s')
      | Blocked s' \<Rightarrow> Some ([], [], s'))"
| "pipe_step EAddReader s = Some ([], [], pipe_add_reader s)"
| "pipe_step EAddWriter s = Some ([], [], pipe_add_writer s)"
| "pipe_step ERemoveReader s = Some ([], [], pipe_remove_reader s)"
| "pipe_step ERemoveWriter s = Some ([], [], pipe_remove_writer s)"

fun pipe_history :: "pipe_event list \<Rightarrow> pipe_sys \<Rightarrow> (u8 list \<times> u8 list \<times> pipe_sys) option" where
  "pipe_history [] s = Some ([], [], s)"
| "pipe_history (e # es) s =
     (case pipe_step e s of
        None \<Rightarrow> None
      | Some (i, out, s1) \<Rightarrow>
          (case pipe_history es s1 of
             None \<Rightarrow> None
           | Some (i', out', s') \<Rightarrow> Some (i @ i', out @ out', s')))"

lemma pipe_inv_ignores [simp]:
  "pipe_inv (p\<lparr>p_readers := r\<rparr>) = pipe_inv p" "pipe_inv (p\<lparr>p_writers := r\<rparr>) = pipe_inv p"
  "pipe_inv (p\<lparr>p_waiting_task := w\<rparr>) = pipe_inv p"
  by (simp_all add: pipe_inv_def)

lemma pipe_contents_ignores [simp]:
  "pipe_contents (p\<lparr>p_readers := r\<rparr>) = pipe_contents p"
  "pipe_contents (p\<lparr>p_writers := r\<rparr>) = pipe_contents p"
  "pipe_contents (p\<lparr>p_waiting_task := w\<rparr>) = pipe_contents p"
  by (simp_all add: pipe_contents_def)

lemma pipe_count_dead_pipe [simp]: "ps_pipe (pipe_count_dead s) = ps_pipe s"
  by (simp add: pipe_count_dead_def)

lemma pipe_remove_pipe:
  "pipe_inv (ps_pipe (pipe_remove_reader s)) = pipe_inv (ps_pipe s)"
  "pipe_contents (ps_pipe (pipe_remove_reader s)) = pipe_contents (ps_pipe s)"
  "p_size (ps_pipe (pipe_remove_reader s)) = p_size (ps_pipe s)"
  "pipe_inv (ps_pipe (pipe_remove_writer s)) = pipe_inv (ps_pipe s)"
  "pipe_contents (ps_pipe (pipe_remove_writer s)) = pipe_contents (ps_pipe s)"
  "p_size (ps_pipe (pipe_remove_writer s)) = p_size (ps_pipe s)"
  by (simp_all add: pipe_remove_reader_def pipe_remove_writer_def Let_def)

lemma read_pass_step:
  assumes "pipe_inv (ps_pipe s)"
  shows "\<exists>out s'. pipe_step (ERead self n) s = Some ([], out, s') \<and> pipe_inv (ps_pipe s') \<and>
    pipe_contents (ps_pipe s) = out @ pipe_contents (ps_pipe s') \<and>
    p_size (ps_pipe s') = p_size (ps_pipe s)"
proof (cases "pipe_read_loop n (ps_pipe s)")
  case (Pair bs p')
  from read_loop_contents [OF assms Pair] Pair assms show ?thesis
    by (auto simp: pipe_read_pass_def Let_def)
qed

lemma write_step:
  assumes "pipe_inv (ps_pipe s)" "p_size (ps_pipe s) < 0xFFFFFFFF"
  shows "\<exists>i s'. pipe_step (EWrite data) s = Some (i, [], s') \<and> pipe_inv (ps_pipe s') \<and>
    pipe_contents (ps_pipe s') = pipe_contents (ps_pipe s) @ i \<and>
    p_size (ps_pipe s') = p_size (ps_pipe s)"
proof (cases "p_readers (ps_pipe s) = 0")
  case True
  with assms show ?thesis by (simp add: pipe_write_def Let_def)
next
  case False
  let ?k = "min (unat (p_size (ps_pipe s)) - unat (p_len (ps_pipe s))) (length data)"
  obtain p' where w: "pipe_write data s =
       Ret (of_nat ?k, s\<lparr>ps_pipe := p', ps_state := pipe_wake p' (ps_state s)\<rparr>)"
    and p': "pipe_inv p'" "p_size p' = p_size (ps_pipe s)"
      "pipe_contents p' = pipe_contents (ps_pipe s) @
       take (unat (p_size (ps_pipe s)) - unat (p_len (ps_pipe s))) data"
    using pipe_write_Ret [OF assms(1) False, of data] by metis
  have "unat (p_size (ps_pipe s)) < 0xFFFFFFFF"
    using assms(2) by (simp add: word_less_nat_alt)
  then have k: "?k < 0xFFFFFFFF" by (simp add: min_less_iff_disj less_imp_diff_less)
  then have "unat (of_nat ?k :: u64) = ?k"
    by (simp add: unat_of_nat)
  moreover from this k have "(of_nat ?k :: u64) \<noteq> 0xFFFFFFFF"
    by (auto dest: arg_cong [of _ _ unat])
  ultimately show ?thesis using w p' by simp
qed

lemma pipe_step_stream:
  assumes "pipe_inv (ps_pipe s)" "p_size (ps_pipe s) < 0xFFFFFFFF"
  shows "\<exists>i out s'. pipe_step e s = Some (i, out, s') \<and> pipe_inv (ps_pipe s') \<and>
    pipe_contents (ps_pipe s) @ i = out @ pipe_contents (ps_pipe s') \<and>
    p_size (ps_pipe s') = p_size (ps_pipe s)"
proof (cases e)
  case (EWrite data)
  with write_step [OF assms, of data] show ?thesis by fastforce
next
  case (ERead self n)
  with read_pass_step [OF assms(1), of self n] show ?thesis by fastforce
qed (use assms in \<open>simp_all add: pipe_remove_pipe pipe_add_reader_def pipe_add_writer_def\<close>)

text \<open>
  C12. Over any interleaving of writes, reads (blocking or not) and changes of the reader and
  writer counts, no operation panics and the pipe is a byte stream: what was in flight followed by
  the bytes accepted is the bytes delivered followed by what is still in flight.
\<close>

theorem pipe_stream:
  assumes "pipe_inv (ps_pipe s)" "p_size (ps_pipe s) < 0xFFFFFFFF"
  shows "\<exists>i out s'. pipe_history es s = Some (i, out, s') \<and> pipe_inv (ps_pipe s') \<and>
    pipe_contents (ps_pipe s) @ i = out @ pipe_contents (ps_pipe s')"
  using assms
proof (induction es arbitrary: s)
  case (Cons e es)
  obtain i out s1 where 1: "pipe_step e s = Some (i, out, s1)" "pipe_inv (ps_pipe s1)"
    "pipe_contents (ps_pipe s) @ i = out @ pipe_contents (ps_pipe s1)"
    "p_size (ps_pipe s1) = p_size (ps_pipe s)"
    using pipe_step_stream [OF Cons.prems, of e] by blast
  obtain i' out' s' where 2: "pipe_history es s1 = Some (i', out', s')" "pipe_inv (ps_pipe s')"
    "pipe_contents (ps_pipe s1) @ i' = out' @ pipe_contents (ps_pipe s')"
    using Cons.IH [OF 1(2)] Cons.prems(2) 1(4) by auto
  have "pipe_contents (ps_pipe s) @ i @ i' = out @ out' @ pipe_contents (ps_pipe s')"
    using 1(3) 2(3) by (metis append.assoc)
  with 1(1) 2(1,2) show ?case by simp
qed simp

theorem pipe_stream_witness:
  "\<exists>i out s'. pipe_history [EWrite [1, 2, 3], ERead 7 3, ERemoveWriter, ERead 7 9] small_pipe =
       Some (i, out, s') \<and> pipe_inv (ps_pipe s') \<and>
     [40, 10] @ i = out @ pipe_contents (ps_pipe s')"
proof -
  have "p_size (ps_pipe small_pipe) < 0xFFFFFFFF" by (simp add: small_pipe_def)
  from pipe_stream [OF small_pipe_facts(1) this] show ?thesis
    by (simp only: small_pipe_facts)
qed

section \<open>Blocking and waking\<close>

lemma pipe_read_pass_Blocked:
  "p_len (ps_pipe s) = 0 \<Longrightarrow> p_writers (ps_pipe s) \<noteq> 0 \<Longrightarrow>
   pipe_read_pass self n s =
     Blocked (s\<lparr>ps_pipe := (ps_pipe s)\<lparr>p_waiting_task := Some self\<rparr>,
                ps_state := (ps_state s)(self := TASK_WAITING)\<rparr>)"
  by (simp add: pipe_read_pass_def Let_def word_gt_0)

text \<open>
  What a single writer does while the reader is halted: the kernel state after its \<open>pipe_write\<close>.
\<close>

definition after_write :: "u8 list \<Rightarrow> pipe_sys \<Rightarrow> pipe_sys" where
  "after_write data s = (case pipe_write data s of Ret (n, s') \<Rightarrow> s' | _ \<Rightarrow> s)"

text \<open>
  C15. A reader that finds the pipe empty while a writer is open blocks; the next write makes it
  ready again, and its read then returns the written bytes, with the registration cleared.
\<close>

theorem pipe_blocked_read_gets_write:
  assumes "pipe_inv (ps_pipe s)" "p_len (ps_pipe s) = 0" "p_writers (ps_pipe s) \<noteq> 0"
    and "p_readers (ps_pipe s) \<noteq> 0" "data \<noteq> []" "length data \<le> unat (p_size (ps_pipe s))"
  shows "pipe_read self n [] s = None \<and>
    (\<exists>s'. pipe_read self n [after_write data] s = Some (take n data, s') \<and>
       ps_state s' self = TASK_READY \<and> p_waiting_task (ps_pipe s') = None \<and>
       pipe_contents (ps_pipe s') = drop n data)"
proof -
  let ?b = "s\<lparr>ps_pipe := (ps_pipe s)\<lparr>p_waiting_task := Some self\<rparr>,
              ps_state := (ps_state s)(self := TASK_WAITING)\<rparr>"
  note blocked = pipe_read_pass_Blocked [OF assms(2,3), of self n]
  have "pipe_inv (ps_pipe ?b)" "p_readers (ps_pipe ?b) \<noteq> 0" using assms by simp_all
  then obtain p' where w: "pipe_write data ?b =
       Ret (of_nat (min (unat (p_size (ps_pipe ?b)) - unat (p_len (ps_pipe ?b))) (length data)),
            ?b\<lparr>ps_pipe := p', ps_state := pipe_wake p' (ps_state ?b)\<rparr>)"
    and p': "pipe_inv p'" "pipe_contents p' = pipe_contents (ps_pipe ?b) @
       take (unat (p_size (ps_pipe ?b)) - unat (p_len (ps_pipe ?b))) data"
      "p_waiting_task p' = p_waiting_task (ps_pipe ?b)"
    by (rule pipe_write_Ret)
  have "pipe_contents (ps_pipe s) = []" using assms(2) by (simp flip: length_0_conv)
  with p' assms have p': "pipe_inv p'" "pipe_contents p' = data" "p_waiting_task p' = Some self"
    by simp_all
  let ?s1 = "pipe_clear_waiting (after_write data ?b)"
  have s1: "ps_pipe ?s1 = p'\<lparr>p_waiting_task := None\<rparr>" "ps_state ?s1 self = TASK_READY"
    using p' by (simp_all add: after_write_def w pipe_clear_waiting_def pipe_wake_def)
  have "length data = unat (p_len p')" using p'(2) by auto
  with \<open>data \<noteq> []\<close> have len: "p_len p' \<noteq> 0" by auto
  obtain bs q where l: "pipe_read_loop n (p'\<lparr>p_waiting_task := None\<rparr>) = (bs, q)"
    by (cases "pipe_read_loop n (p'\<lparr>p_waiting_task := None\<rparr>)")
  have "pipe_read_pass self n ?s1 = Finished bs (?s1\<lparr>ps_pipe := q\<rparr>)"
    using s1 l len by (simp add: pipe_read_pass_def Let_def)
  then show ?thesis
    using read_loop_contents [OF _ l] p' blocked s1 by simp
qed

theorem pipe_blocked_read_gets_write_witness:
  "\<exists>s'. pipe_read 7 2 [after_write [5, 6, 7]]
      (small_pipe\<lparr>ps_pipe := (ps_pipe small_pipe)\<lparr>p_len := 0, p_tail := 1\<rparr>\<rparr>) = Some ([5, 6], s') \<and>
     ps_state s' 7 = TASK_READY \<and> p_waiting_task (ps_pipe s') = None \<and>
     pipe_contents (ps_pipe s') = [7]"
  using pipe_blocked_read_gets_write
    [of "small_pipe\<lparr>ps_pipe := (ps_pipe small_pipe)\<lparr>p_len := 0, p_tail := 1\<rparr>\<rparr>" "[5, 6, 7]" 7 2]
  by (simp add: small_pipe_def pipe_inv_def)

text \<open>
  C16. A reader blocked on an empty pipe is made ready by the departure of the last writer, and its
  read then reports end of file: no bytes.
\<close>

theorem pipe_last_writer_gives_eof:
  assumes "p_len (ps_pipe s) = 0" "p_writers (ps_pipe s) = 1"
  shows "\<exists>s'. pipe_read self n [pipe_remove_writer] s = Some ([], s') \<and>
    ps_state s' self = TASK_READY \<and> p_writers (ps_pipe s') = 0 \<and>
    ps_debug_pipe_count s' =
      (if p_readers (ps_pipe s) = 0 then ps_debug_pipe_count s - 1 else ps_debug_pipe_count s)"
  using assms
  by (simp add: pipe_read_pass_Blocked pipe_remove_writer_def pipe_count_dead_def
      pipe_clear_waiting_def pipe_wake_def)
    (simp add: pipe_read_pass_def)

theorem pipe_last_writer_gives_eof_witness:
  "\<exists>s'. pipe_read 7 16 [pipe_remove_writer]
      (small_pipe\<lparr>ps_pipe := (ps_pipe small_pipe)\<lparr>p_len := 0, p_tail := 1\<rparr>\<rparr>) = Some ([], s') \<and>
     ps_state s' 7 = TASK_READY \<and> p_writers (ps_pipe s') = 0 \<and> ps_debug_pipe_count s' = 1"
  using pipe_last_writer_gives_eof
    [of "small_pipe\<lparr>ps_pipe := (ps_pipe small_pipe)\<lparr>p_len := 0, p_tail := 1\<rparr>\<rparr>" 7 16]
  by (simp add: small_pipe_def)

text \<open>
  The single \<open>waiting_task\<close> slot: the state of the system after \<open>a\<close> and then \<open>b\<close> block on the pipe.
\<close>

definition two_blocked :: "ptr \<Rightarrow> ptr \<Rightarrow> pipe_sys \<Rightarrow> pipe_sys" where
  "two_blocked a b s =
     (let block = (\<lambda>self s. case pipe_read_pass self 1 s of Blocked s' \<Rightarrow> s' | Finished _ s' \<Rightarrow> s')
      in block b (block a s))"

lemma pipe_write_frame:
  assumes "pipe_write data s = Ret (n, s')"
  shows "p_waiting_task (ps_pipe s') = p_waiting_task (ps_pipe s)"
    and "p_waiting_task (ps_pipe s) \<noteq> Some a \<Longrightarrow> ps_state s' a = ps_state s a"
proof -
  obtain p' w where l: "pipe_write_loop data (ps_pipe s) 0 = (p', w)"
    by (cases "pipe_write_loop data (ps_pipe s) 0") auto
  have "p_waiting_task p' = p_waiting_task (ps_pipe s)"
    using write_loop_frame [OF l] by simp
  with assms l show "p_waiting_task (ps_pipe s') = p_waiting_task (ps_pipe s)"
    and "p_waiting_task (ps_pipe s) \<noteq> Some a \<Longrightarrow> ps_state s' a = ps_state s a"
    by (auto simp: pipe_write_def Let_def pipe_wake_def split: if_splits option.splits)
qed

lemma after_write_frame:
  "p_waiting_task (ps_pipe (after_write data s)) = p_waiting_task (ps_pipe s)"
  "p_waiting_task (ps_pipe s) \<noteq> Some a \<Longrightarrow> ps_state (after_write data s) a = ps_state s a"
  by (auto simp: after_write_def pipe_write_frame split: outcome.splits)

lemma after_writes_keep_state:
  "p_waiting_task (ps_pipe s) \<noteq> Some a \<Longrightarrow> ps_state (fold after_write ds s) a = ps_state s a"
  by (induction ds arbitrary: s) (simp_all add: after_write_frame)

text \<open>
  C39. When two tasks block on the same empty pipe, the second one takes over the only
  registration: no sequence of writes ever makes the first one ready, neither while the second is
  registered nor after it has resumed, although bytes are in flight.
\<close>

theorem pipe_second_reader_loses_first:
  assumes "p_len (ps_pipe s) = 0" "p_writers (ps_pipe s) \<noteq> 0" "a \<noteq> b"
  shows "ps_state (fold after_write ds (two_blocked a b s)) a = TASK_WAITING \<and>
    ps_state (fold after_write ds' (pipe_clear_waiting (fold after_write ds (two_blocked a b s)))) a
      = TASK_WAITING"
proof -
  have b: "p_waiting_task (ps_pipe (two_blocked a b s)) = Some b"
    "ps_state (two_blocked a b s) a = TASK_WAITING"
    using assms by (simp_all add: two_blocked_def pipe_read_pass_Blocked)
  with assms have 1: "ps_state (fold after_write ds (two_blocked a b s)) a = TASK_WAITING"
    by (simp add: after_writes_keep_state)
  then show ?thesis by (simp add: after_writes_keep_state pipe_clear_waiting_def)
qed

theorem pipe_second_reader_loses_first_witness:
  "ps_state (fold after_write [[5], [6]] (two_blocked 7 8
      (small_pipe\<lparr>ps_pipe := (ps_pipe small_pipe)\<lparr>p_len := 0, p_tail := 1\<rparr>\<rparr>))) 7 = TASK_WAITING"
  using pipe_second_reader_loses_first
    [of "small_pipe\<lparr>ps_pipe := (ps_pipe small_pipe)\<lparr>p_len := 0, p_tail := 1\<rparr>\<rparr>" 7 8 "[[5], [6]]"]
  by (simp add: small_pipe_def)

end
