(* ===== verification/Sectors.thy ===== *)
theory Sectors
  imports Prelude
begin

text \<open>
  The contract of a store of sectors: a successful write is seen by later reads of that sector and
  by no others, and sectors that can be written can be written again. Clients get, once and for
  all, the effect of writing a whole run of sectors.
\<close>

locale sector_store =
  fixes rd :: "'l \<Rightarrow> 's \<Rightarrow> u8 list option"
    and wr :: "'l \<Rightarrow> u8 list \<Rightarrow> 's \<Rightarrow> 's option"
    and ok :: "'s \<Rightarrow> bool"
  assumes wr_ok: "ok s \<Longrightarrow> length b = 512 \<Longrightarrow> rd l s \<noteq> None \<Longrightarrow> \<exists>s'. wr l b s = Some s'"
    and wr_inv: "ok s \<Longrightarrow> length b = 512 \<Longrightarrow> wr l b s = Some s' \<Longrightarrow> ok s'"
    and rd_wr: "ok s \<Longrightarrow> length b = 512 \<Longrightarrow> wr l b s = Some s' \<Longrightarrow>
      rd k s' = (if k = l then Some b else rd k s)"
    and rd_length: "ok s \<Longrightarrow> rd l s = Some b \<Longrightarrow> length b = 512"
begin

definition write_one :: "'l \<Rightarrow> u8 list \<Rightarrow> 's \<Rightarrow> 's" where
  "write_one l b s = (case wr l b s of None \<Rightarrow> s | Some s' \<Rightarrow> s')"

lemma write_one_ok: "ok s \<Longrightarrow> length b = 512 \<Longrightarrow> ok (write_one l b s)"
  by (auto simp: write_one_def wr_inv split: option.splits)

lemma rd_write_one:
  "ok s \<Longrightarrow> length b = 512 \<Longrightarrow> rd l s \<noteq> None \<Longrightarrow>
   rd k (write_one l b s) = (if k = l then Some b else rd k s)"
  using wr_ok [of s b l] by (auto simp: write_one_def rd_wr)

primrec write_all :: "('l \<times> u8 list) list \<Rightarrow> 's \<Rightarrow> 's" where
  "write_all [] s = s"
| "write_all (w # ws) s = write_all ws (write_one (fst w) (snd w) s)"

lemma write_all_spec:
  assumes "ok s" "\<forall>w \<in> set ws. length (snd w) = 512 \<and> rd (fst w) s \<noteq> None" "distinct (map fst ws)"
  shows "ok (write_all ws s) \<and> rd k (write_all ws s) = (case map_of ws k of None \<Rightarrow> rd k s | Some b \<Rightarrow> Some b)"
  using assms
proof (induction ws arbitrary: s)
  case (Cons w ws)
  obtain l b where w: "w = (l, b)" by (cases w)
  let ?s = "write_one l b s"
  have b: "ok ?s" "length b = 512" "rd l s \<noteq> None" using Cons.prems by (auto simp: w write_one_ok)
  then have rd: "rd j ?s = (if j = l then Some b else rd j s)" for j using rd_write_one Cons.prems(1) by simp
  have h: "\<forall>v \<in> set ws. length (snd v) = 512 \<and> rd (fst v) ?s \<noteq> None" "distinct (map fst ws)"
    using Cons.prems by (auto simp: rd)
  have "l \<notin> fst ` set ws" using Cons.prems(3) by (simp add: w)
  then have "map_of ws l = None" by (simp add: map_of_eq_None_iff)
  then show ?case using Cons.IH [OF b(1) h] by (auto simp: w rd split: option.split)
qed simp

end

end
