(* ===== verification/BlockDev.thy ===== *)
theory BlockDev
  imports Cstring Sectors
begin

text \<open>
  Block devices and partitions: kernel/core/block_dev.c, kernel/modules/partition/mbr.c, and the
  sector access, RAM disk and device queries of kernel/core/kabi_bridge.c. The medium behind a
  device is the RAM disk of the kernel or a hardware disk; a hardware disk is a partial map from
  sector numbers to sectors, undefined where the drive reports an error. The map takes whole 64-bit sector
  numbers, whereas the IDE driver passes 28 bits of them to the drive and the USB driver 32; what is shown of
  the contents of a disk is therefore about sector numbers below these bounds.
\<close>

section \<open>Error codes\<close>

definition KABI_SUCCESS :: int where "KABI_SUCCESS = 0"
definition KABI_EINVAL :: int where "KABI_EINVAL = - 2"
definition KABI_ENOMEM :: int where "KABI_ENOMEM = - 3"
definition KABI_ENOENT :: int where "KABI_ENOENT = - 4"
definition KABI_EIO :: int where "KABI_EIO = - 5"

lemmas kabi_codes = KABI_SUCCESS_def KABI_EINVAL_def KABI_ENOMEM_def KABI_ENOENT_def KABI_EIO_def

section \<open>State\<close>

datatype medium = RamDisk | Disk nat

record block_device =
  bd_name :: "u8 list"
  bd_medium :: medium
  bd_size :: u64
  bd_is_partition :: bool
  bd_parent_dev :: u32
  bd_start_lba :: u64

record blk =
  b_devices :: "block_device list"
  b_ramdisk :: "u8 list"
  b_disks :: "nat \<Rightarrow> u64 \<Rightarrow> u8 list option"

definition MAX_BLOCK_DEVICES :: nat where "MAX_BLOCK_DEVICES = 16"

section \<open>Sector access\<close>

definition ramdisk_read :: "u64 \<Rightarrow> blk \<Rightarrow> u8 list option" where
  "ramdisk_read lba s =
     (if 2 \<le> lba then None else Some (take 512 (drop (unat lba * 512) (b_ramdisk s))))"

definition ramdisk_write :: "u64 \<Rightarrow> u8 list \<Rightarrow> blk \<Rightarrow> blk option" where
  "ramdisk_write lba buf s =
     (if 2 \<le> lba then None
      else let r = b_ramdisk s; k = unat lba * 512
           in Some (s\<lparr>b_ramdisk := take k r @ buf @ drop (k + 512) r\<rparr>))"

definition read_sector :: "medium \<Rightarrow> u64 \<Rightarrow> blk \<Rightarrow> u8 list option" where
  "read_sector m lba s = (case m of RamDisk \<Rightarrow> ramdisk_read lba s | Disk d \<Rightarrow> b_disks s d lba)"

definition write_sector :: "medium \<Rightarrow> u64 \<Rightarrow> u8 list \<Rightarrow> blk \<Rightarrow> blk option" where
  "write_sector m lba buf s =
     (case m of
        RamDisk \<Rightarrow> ramdisk_write lba buf s
      | Disk d \<Rightarrow> if b_disks s d lba = None then None
                  else Some (s\<lparr>b_disks := (b_disks s)(d := (b_disks s d)(lba \<mapsto> buf))\<rparr>))"

definition block_dev_get_by_index :: "u32 \<Rightarrow> blk \<Rightarrow> block_device option" where
  "block_dev_get_by_index index s =
     (if sint index < 0 \<or> int (length (b_devices s)) \<le> sint index then None
      else Some (b_devices s ! unat index))"

fun find_name :: "u8 list \<Rightarrow> block_device list \<Rightarrow> block_device option" where
  "find_name name [] = None"
| "find_name name (d # ds) = (if bd_name d = name then Some d else find_name name ds)"

definition block_dev_get_by_name :: "u8 list \<Rightarrow> blk \<Rightarrow> block_device option" where
  "block_dev_get_by_name name s = find_name name (b_devices s)"

definition target_lba :: "block_device \<Rightarrow> u64 \<Rightarrow> u64" where
  "target_lba dev lba = (if bd_is_partition dev then lba + bd_start_lba dev else lba)"

text \<open>A read gives the error code or the sector.\<close>

definition kabi_block_read :: "u32 \<Rightarrow> u64 \<Rightarrow> blk \<Rightarrow> int + u8 list" where
  "kabi_block_read dev_id lba s =
     (case block_dev_get_by_index dev_id s of
        None \<Rightarrow> Inl KABI_EINVAL
      | Some dev \<Rightarrow>
          (case read_sector (bd_medium dev) (target_lba dev lba) s of
             None \<Rightarrow> Inl KABI_EIO
           | Some buf \<Rightarrow> Inr buf))"

definition kabi_block_write :: "u32 \<Rightarrow> u64 \<Rightarrow> u8 list \<Rightarrow> blk \<Rightarrow> int \<times> blk" where
  "kabi_block_write dev_id lba buf s =
     (case block_dev_get_by_index dev_id s of
        None \<Rightarrow> (KABI_EINVAL, s)
      | Some dev \<Rightarrow>
          (case write_sector (bd_medium dev) (target_lba dev lba) buf s of
             None \<Rightarrow> (KABI_EIO, s)
           | Some s' \<Rightarrow> (KABI_SUCCESS, s')))"

definition kabi_get_device_size :: "u32 \<Rightarrow> blk \<Rightarrow> u64" where
  "kabi_get_device_size index s =
     (case block_dev_get_by_index index s of None \<Rightarrow> 0 | Some dev \<Rightarrow> bd_size dev)"

section \<open>Partition tables\<close>

record partition =
  pt_start_lba :: u32
  pt_sector_count :: u32
  pt_type :: u8
  pt_index :: u8

definition is_boot_jump :: "u8 list \<Rightarrow> bool" where
  "is_boot_jump b \<longleftrightarrow> b ! 0 = 0xEB \<or> b ! 0 = 0xE9"

definition has_FAT_at :: "nat \<Rightarrow> u8 list \<Rightarrow> bool" where
  "has_FAT_at i b \<longleftrightarrow> take 3 (drop i b) = [70, 65, 84]"

text \<open>The table loop: entry \<open>i\<close> of the four at offset 446, 16 bytes each.\<close>

fun mbr_table :: "nat list \<Rightarrow> nat \<Rightarrow> u8 list \<Rightarrow> partition list \<Rightarrow> partition list" where
  "mbr_table [] max_parts b found = found"
| "mbr_table (i # is) max_parts b found =
     (if length found < max_parts then
        let p = 446 + 16 * i in
        if b ! (p + 4) \<noteq> 0 \<and> 0 < get32 b (p + 12)
        then mbr_table is max_parts b (found @ [\<lparr>pt_start_lba = get32 b (p + 8), pt_sector_count = get32 b (p + 12),
               pt_type = b ! (p + 4), pt_index = of_nat (i + 1)\<rparr>])
        else mbr_table is max_parts b found
      else found)"

definition mbr_fallback :: "u8 list \<Rightarrow> int + partition list" where
  "mbr_fallback b =
     (if is_boot_jump b
      then Inr [\<lparr>pt_start_lba = 0, pt_sector_count = 0, pt_type = 0x0C, pt_index = 0\<rparr>]
      else Inl KABI_ENOENT)"

definition mbr_scan :: "u32 \<Rightarrow> nat \<Rightarrow> blk \<Rightarrow> int + partition list" where
  "mbr_scan dev max_parts s =
     (if max_parts = 0 then Inl KABI_EINVAL
      else case kabi_block_read dev 0 s of
          Inl _ \<Rightarrow> Inl KABI_EIO
        | Inr b \<Rightarrow>
            if get16 b 510 \<noteq> 0xAA55 then mbr_fallback b
            else if is_boot_jump b \<and> (has_FAT_at 54 b \<or> has_FAT_at 82 b) then mbr_fallback b
            else Inr (mbr_table [0, 1, 2, 3] max_parts b []))"

definition mbr_find_fat32 :: "u32 \<Rightarrow> blk \<Rightarrow> int + partition" where
  "mbr_find_fat32 dev s =
     (case mbr_scan dev 4 s of
        Inl e \<Rightarrow> Inl e
      | Inr parts \<Rightarrow>
          (case find (\<lambda>p. pt_type p = 0x0B \<or> pt_type p = 0x0C) parts of
             None \<Rightarrow> Inl KABI_ENOENT
           | Some p \<Rightarrow> Inr p))"

section \<open>Registration\<close>

definition partition_device :: "u32 \<Rightarrow> block_device \<Rightarrow> partition \<Rightarrow> block_device" where
  "partition_device dev_id parent p =
     \<lparr>bd_name = bd_name parent @ [112, 48 + pt_index p], bd_medium = bd_medium parent,
      bd_size = ucast (pt_sector_count p), bd_is_partition = True, bd_parent_dev = dev_id,
      bd_start_lba = ucast (pt_start_lba p)\<rparr>"

fun add_partitions :: "u32 \<Rightarrow> block_device \<Rightarrow> partition list \<Rightarrow> blk \<Rightarrow> blk" where
  "add_partitions dev_id parent [] s = s"
| "add_partitions dev_id parent (p # ps) s =
     add_partitions dev_id parent ps
       (if length (b_devices s) < MAX_BLOCK_DEVICES
        then s\<lparr>b_devices := b_devices s @ [partition_device dev_id parent p]\<rparr> else s)"

definition block_dev_scan_partitions :: "u32 \<Rightarrow> blk \<Rightarrow> blk" where
  "block_dev_scan_partitions dev_id s =
     (case mbr_scan dev_id 4 s of
        Inl _ \<Rightarrow> s
      | Inr parts \<Rightarrow> add_partitions dev_id (b_devices s ! unat dev_id) parts s)"

definition block_dev_register :: "block_device \<Rightarrow> blk \<Rightarrow> int \<times> blk" where
  "block_dev_register dev s =
     (if MAX_BLOCK_DEVICES \<le> length (b_devices s) then (- 1, s)
      else let idx = length (b_devices s); s1 = s\<lparr>b_devices := b_devices s @ [dev]\<rparr>
           in (int idx, if bd_is_partition dev then s1 else block_dev_scan_partitions (of_nat idx) s1))"

definition block_dev_init :: "blk \<Rightarrow> blk" where
  "block_dev_init s = s\<lparr>b_devices := []\<rparr>"

text \<open>\<open>kabi_bridge_init\<close>: the IDE disk, the RAM disk, and its test pattern.\<close>

definition plain_device :: "u8 list \<Rightarrow> medium \<Rightarrow> u64 \<Rightarrow> block_device" where
  "plain_device name m sz = \<lparr>bd_name = name, bd_medium = m, bd_size = sz, bd_is_partition = False,
     bd_parent_dev = 0, bd_start_lba = 0\<rparr>"

definition kabi_bridge_init :: "blk \<Rightarrow> blk" where
  "kabi_bridge_init s =
     (let s1 = block_dev_init s;
          s2 = snd (block_dev_register (plain_device [100, 101, 118, 48] (Disk 0) 0) s1);
          s3 = snd (block_dev_register (plain_device [100, 101, 118, 50] RamDisk 2) s2)
      in s3\<lparr>b_ramdisk := replicate 512 65 @ replicate 512 66\<rparr>)"

section \<open>Sectors\<close>

text \<open>A device table every entry of which can be named by a 32-bit index, and media with whole sectors.\<close>

definition blk_wf :: "blk \<Rightarrow> bool" where
  "blk_wf s \<longleftrightarrow> length (b_devices s) \<le> MAX_BLOCK_DEVICES \<and> length (b_ramdisk s) = 1024 \<and>
     (\<forall>d lba b. b_disks s d lba = Some b \<longrightarrow> length b = 512)"

lemma read_length: "blk_wf s \<Longrightarrow> kabi_block_read dev lba s = Inr b \<Longrightarrow> length b = 512"
  by (auto simp: kabi_block_read_def read_sector_def ramdisk_read_def blk_wf_def word_le_nat_alt
      split: option.splits medium.splits if_splits)

text \<open>Which sector of which medium a device and sector number stand for.\<close>

definition locate :: "blk \<Rightarrow> u32 \<Rightarrow> u64 \<Rightarrow> (medium \<times> u64) option" where
  "locate s dev lba = map_option (\<lambda>d. (bd_medium d, target_lba d lba)) (block_dev_get_by_index dev s)"

lemma block_read_locate:
  "kabi_block_read dev lba s = (case locate s dev lba of None \<Rightarrow> Inl KABI_EINVAL
     | Some (m, a) \<Rightarrow> (case read_sector m a s of None \<Rightarrow> Inl KABI_EIO | Some b \<Rightarrow> Inr b))"
  by (simp add: kabi_block_read_def locate_def split: option.splits)

lemma u64_small: "(c :: u64) = 0 \<or> c = 1 \<or> 2 \<le> c"
proof -
  consider "unat c = 0" | "unat c = 1" | "2 \<le> unat c" by linarith
  then show ?thesis
    by cases (auto simp: word_le_nat_alt dest: arg_cong [where f = "of_nat :: nat \<Rightarrow> u64"])
qed

lemma write_sector_frame:
  assumes "write_sector m a buf s = Some s'"
  shows "b_devices s' = b_devices s"
    and "length buf = 512 \<Longrightarrow> blk_wf s \<Longrightarrow> blk_wf s'"
    and "length buf = 512 \<Longrightarrow> blk_wf s \<Longrightarrow>
      read_sector n c s' = (if n = m \<and> c = a then Some buf else read_sector n c s)"
proof -
  show "b_devices s' = b_devices s"
    using assms by (auto simp: write_sector_def ramdisk_write_def Let_def split: medium.splits if_splits)
  show "length buf = 512 \<Longrightarrow> blk_wf s \<Longrightarrow> blk_wf s'"
    using assms by (auto simp: write_sector_def ramdisk_write_def Let_def blk_wf_def word_le_nat_alt
        split: medium.splits if_splits)
  assume b: "length buf = 512" "blk_wf s"
  show "read_sector n c s' = (if n = m \<and> c = a then Some buf else read_sector n c s)"
  proof (cases m)
    case RamDisk
    then have "\<not> 2 \<le> a" and s': "b_ramdisk s' = take (unat a * 512) (b_ramdisk s) @ buf @ drop (unat a * 512 + 512) (b_ramdisk s)"
      "b_disks s' = b_disks s"
      using assms by (auto simp: write_sector_def ramdisk_write_def Let_def split: if_splits)
    then have a: "a = 0 \<or> a = 1" using u64_small [of a] by blast
    have l: "length (b_ramdisk s) = 1024" using b(2) by (simp add: blk_wf_def)
    show ?thesis
    proof (cases n)
      case RamDisk': RamDisk
      from u64_small [of c] show ?thesis using a b(1) l s' RamDisk RamDisk' by (auto simp: read_sector_def ramdisk_read_def word_le_nat_alt)
    qed (use RamDisk s' in \<open>simp add: read_sector_def\<close>)
  next
    case (Disk d)
    then show ?thesis using assms by (auto simp: write_sector_def read_sector_def ramdisk_read_def split: medium.splits if_splits)
  qed
qed

lemma target_lba_inj: "target_lba d a = target_lba d b \<longleftrightarrow> a = b"
  by (simp add: target_lba_def)

lemma read_sector_length: "blk_wf s \<Longrightarrow> read_sector m a s = Some b \<Longrightarrow> length b = 512"
  by (auto simp: read_sector_def ramdisk_read_def blk_wf_def word_le_nat_alt split: medium.splits if_splits)

lemma write_sector_possible: "read_sector m a s \<noteq> None \<Longrightarrow> \<exists>s'. write_sector m a buf s = Some s'"
  by (auto simp: read_sector_def write_sector_def ramdisk_read_def ramdisk_write_def Let_def split: medium.splits if_splits)

lemma locate_devices: "b_devices s' = b_devices s \<Longrightarrow> locate s' = locate s"
  by (simp add: locate_def block_dev_get_by_index_def fun_eq_iff)

text \<open>One device, seen as a store of sectors.\<close>

definition dev_read :: "u32 \<Rightarrow> u64 \<Rightarrow> blk \<Rightarrow> u8 list option" where
  "dev_read dev lba s = (case kabi_block_read dev lba s of Inl _ \<Rightarrow> None | Inr b \<Rightarrow> Some b)"

definition dev_write :: "u32 \<Rightarrow> u64 \<Rightarrow> u8 list \<Rightarrow> blk \<Rightarrow> blk option" where
  "dev_write dev lba b s = (let (r, s') = kabi_block_write dev lba b s in if r = KABI_SUCCESS then Some s' else None)"

lemma block_read_dev: "kabi_block_read dev lba s = Inr b \<longleftrightarrow> dev_read dev lba s = Some b"
  by (auto simp: dev_read_def split: sum.splits)

lemma dev_read_locate:
  "dev_read dev lba s = (case locate s dev lba of None \<Rightarrow> None | Some (m, a) \<Rightarrow> read_sector m a s)"
  by (auto simp: dev_read_def block_read_locate split: option.splits prod.splits)

lemma dev_write_locate:
  "dev_write dev lba b s = (case locate s dev lba of None \<Rightarrow> None | Some (m, a) \<Rightarrow> write_sector m a b s)"
  by (auto simp: dev_write_def kabi_block_write_def locate_def kabi_codes split: option.splits)

lemma dev_write_effect:
  assumes "blk_wf s" "length buf = 512" "dev_write dev lba buf s = Some s'"
  shows "blk_wf s'" "b_devices s' = b_devices s"
    and "dev_read dev' lba' s' = (if locate s dev' lba' = locate s dev lba then Some buf else dev_read dev' lba' s)"
proof -
  obtain m a where l: "locate s dev lba = Some (m, a)" "write_sector m a buf s = Some s'"
    using assms(3) by (auto simp: dev_write_locate split: option.splits)
  note f = write_sector_frame [OF l(2)]
  show "blk_wf s'" "b_devices s' = b_devices s" using f assms(1,2) by auto
  then show "dev_read dev' lba' s' = (if locate s dev' lba' = locate s dev lba then Some buf else dev_read dev' lba' s)"
    using f(3) [OF assms(2,1)] l(1) by (auto simp: dev_read_locate locate_devices [OF f(1)] split: option.splits)
qed

lemma locate_same_dev:
  "locate s dev lba \<noteq> None \<Longrightarrow> locate s dev lba' = locate s dev lba \<longleftrightarrow> lba' = lba"
  by (auto simp: locate_def target_lba_inj)

interpretation dev: sector_store "dev_read d" "dev_write d" blk_wf for d
proof
  fix s l and b :: "u8 list" assume h: "blk_wf s" "length b = 512" "dev_read d l s \<noteq> None"
  then obtain m a where "locate s d l = Some (m, a)" "read_sector m a s \<noteq> None"
    by (auto simp: dev_read_locate split: option.splits)
  then show "\<exists>s'. dev_write d l b s = Some s'" using write_sector_possible by (simp add: dev_write_locate)
next
  fix s l s' k and b :: "u8 list" assume h: "blk_wf s" "length b = 512" "dev_write d l b s = Some s'"
  then have "locate s d l \<noteq> None" by (auto simp: dev_write_locate split: option.splits)
  then show "dev_read d k s' = (if k = l then Some b else dev_read d k s)"
    using dev_write_effect(3) [OF h, of d k] locate_same_dev by simp
next
  fix s l b assume "blk_wf s" "dev_read d l s = Some b"
  then show "length b = 512" by (metis read_length block_read_dev)
qed (rule dev_write_effect(1))

section \<open>Partitions\<close>

text \<open>The entries of a partition table that describe a partition.\<close>

definition used_entries :: "u8 list \<Rightarrow> nat list" where
  "used_entries b = filter (\<lambda>i. b ! (446 + 16 * i + 4) \<noteq> 0 \<and> 0 < get32 b (446 + 16 * i + 12)) [0, 1, 2, 3]"

lemma mbr_table_used:
  "length found + length is \<le> max_parts \<Longrightarrow> mbr_table is max_parts b found = found @ map (\<lambda>i.
     \<lparr>pt_start_lba = get32 b (446 + 16 * i + 8), pt_sector_count = get32 b (446 + 16 * i + 12),
      pt_type = b ! (446 + 16 * i + 4), pt_index = of_nat (i + 1)\<rparr>)
     (filter (\<lambda>i. b ! (446 + 16 * i + 4) \<noteq> 0 \<and> 0 < get32 b (446 + 16 * i + 12)) is)"
  by (induction "is" arbitrary: found) (auto simp: Let_def)

lemma add_partitions_devices:
  "length (b_devices s) + length ps \<le> MAX_BLOCK_DEVICES \<Longrightarrow>
   add_partitions i parent ps s = s\<lparr>b_devices := b_devices s @ map (partition_device i parent) ps\<rparr>"
  by (induction ps arbitrary: s) (simp_all add: MAX_BLOCK_DEVICES_def)

lemma device_at: "i < length (b_devices s) \<Longrightarrow> length (b_devices s) \<le> MAX_BLOCK_DEVICES \<Longrightarrow>
    block_dev_get_by_index (of_nat i) s = Some (b_devices s ! i)"
proof -
  assume i: "i < length (b_devices s)" "length (b_devices s) \<le> MAX_BLOCK_DEVICES"
  then have "unat (of_nat i :: u32) = i" by (simp add: unsigned_of_nat take_bit_nat_eq_self MAX_BLOCK_DEVICES_def)
  moreover have "sint (of_nat i :: u32) = int i"
    using i by (simp add: signed_of_nat MAX_BLOCK_DEVICES_def signed_take_bit_int_eq_self)
  ultimately show ?thesis using i(1) by (simp add: block_dev_get_by_index_def)
qed

text \<open>A partition device is a window of the disk it was found on.\<close>

lemma partition_window:
  assumes "block_dev_get_by_index i t = Some (partition_device p dev e)" "block_dev_get_by_index j t = Some dev" "\<not> bd_is_partition dev"
  shows "kabi_block_read i lba t = kabi_block_read j (lba + ucast (pt_start_lba e)) t"
    "kabi_block_write i lba buf t = kabi_block_write j (lba + ucast (pt_start_lba e)) buf t"
  using assms by (simp_all add: kabi_block_read_def kabi_block_write_def target_lba_def partition_device_def)

text \<open>
  C31. Registering a disk whose first sector holds a partition table adds the disk and one device for each
  entry of the table that has a type and a size, in the order of the table, and leaves the media alone. Each of
  these devices is a window of the disk: from then on, reading or writing sector \<open>lba\<close> of it is, in result and
  effect, reading or writing sector \<open>lba + start\<close> of the disk, where \<open>start\<close> is the 32-bit number at byte 8 of
  the 16-byte entry.
\<close>

theorem partitions_are_windows:
  assumes "\<not> bd_is_partition dev" "n = length (b_devices s)" "n + 1 + length (used_entries b) \<le> MAX_BLOCK_DEVICES"
    and "read_sector (bd_medium dev) 0 s = Some b" "get16 b 510 = 0xAA55" "\<not> (is_boot_jump b \<and> (has_FAT_at 54 b \<or> has_FAT_at 82 b))"
  shows "\<exists>s'. block_dev_register dev s = (int n, s') \<and> b_disks s' = b_disks s \<and> b_ramdisk s' = b_ramdisk s \<and>
    take n (b_devices s') = b_devices s \<and> length (b_devices s') = n + 1 + length (used_entries b) \<and>
    (\<forall>k<length (used_entries b). \<forall>t lba buf. b_devices t = b_devices s' \<longrightarrow>
       kabi_block_read (of_nat (n + 1 + k)) lba t =
         kabi_block_read (of_nat n) (lba + ucast (get32 b (446 + 16 * (used_entries b ! k) + 8))) t \<and>
       kabi_block_write (of_nat (n + 1 + k)) lba buf t =
         kabi_block_write (of_nat n) (lba + ucast (get32 b (446 + 16 * (used_entries b ! k) + 8))) buf t)"
proof -
  let ?s1 = "s\<lparr>b_devices := b_devices s @ [dev]\<rparr>"
  define mk where "mk = (\<lambda>i. \<lparr>pt_start_lba = get32 b (446 + 16 * i + 8), pt_sector_count = get32 b (446 + 16 * i + 12),
      pt_type = b ! (446 + 16 * i + 4), pt_index = of_nat (i + 1)\<rparr>)"
  have dev1: "block_dev_get_by_index (of_nat n) ?s1 = Some dev" using device_at [of n ?s1] assms(2,3) by simp
  moreover have "read_sector (bd_medium dev) 0 ?s1 = Some b" using assms(4) by (simp add: read_sector_def ramdisk_read_def split: medium.splits)
  ultimately have rd: "kabi_block_read (of_nat n) 0 ?s1 = Inr b" using assms(1) by (simp add: kabi_block_read_def target_lba_def)
  have "mbr_table [0, 1, 2, 3] 4 b [] = map mk (used_entries b)"
    unfolding used_entries_def mk_def by (rule mbr_table_used [of "[]", unfolded append_Nil]) simp
  then have scan: "mbr_scan (of_nat n) 4 ?s1 = Inr (map mk (used_entries b))"
    unfolding mbr_scan_def rd sum.case if_not_P [OF assms(6)] by (simp add: assms(5))
  have n32: "unat (of_nat n :: u32) = n"
    using assms(3) by (simp add: unsigned_of_nat take_bit_nat_eq_self MAX_BLOCK_DEVICES_def)
  let ?s' = "?s1\<lparr>b_devices := b_devices ?s1 @ map (partition_device (of_nat n) dev) (map mk (used_entries b))\<rparr>"
  have reg: "block_dev_register dev s = (int n, ?s')"
    using add_partitions_devices [of ?s1 "map mk (used_entries b)" "of_nat n" dev] assms(1-3) scan n32
    by (simp add: block_dev_register_def block_dev_scan_partitions_def Let_def)
  have win: "kabi_block_read (of_nat (n + 1 + k)) lba t = kabi_block_read (of_nat n) (lba + ucast (get32 b (446 + 16 * (used_entries b ! k) + 8))) t \<and>
      kabi_block_write (of_nat (n + 1 + k)) lba buf t = kabi_block_write (of_nat n) (lba + ucast (get32 b (446 + 16 * (used_entries b ! k) + 8))) buf t"
    if k: "k < length (used_entries b)" and t: "b_devices t = b_devices ?s'" for k lba buf t
  proof -
    have "b_devices t ! n = dev" "b_devices t ! (n + 1 + k) = partition_device (of_nat n) dev (mk (used_entries b ! k))"
      using k assms(2) by (simp_all add: t nth_append)
    then have "block_dev_get_by_index (of_nat n) t = Some dev"
      "block_dev_get_by_index (of_nat (n + 1 + k)) t = Some (partition_device (of_nat n) dev (mk (used_entries b ! k)))"
      using device_at [of n t] device_at [of "n + 1 + k" t] k assms(2,3) by (simp_all add: t)
    from partition_window [OF this(2,1) assms(1)] show ?thesis by (simp add: mk_def)
  qed
  show ?thesis by (rule exI [of _ ?s']) (use reg win assms(2) in simp)
qed

definition mbr_sector :: "u8 list" where
  "mbr_sector = replicate 446 0 @ [0, 0, 0, 0, 12, 0, 0, 0, 8, 0, 0, 0, 16, 0, 0, 0] @ replicate 48 0 @ [0x55, 0xAA]"

definition one_disk :: blk where
  "one_disk = \<lparr>b_devices = [], b_ramdisk = replicate 1024 0, b_disks = (\<lambda>_ lba. Some (if lba = 0 then mbr_sector else replicate 512 (ucast lba)))\<rparr>"

lemma mbr_sector_facts:
  "used_entries mbr_sector = [0]" "get16 mbr_sector 510 = 0xAA55" "\<not> is_boot_jump mbr_sector" "get32 mbr_sector 454 = 8"
  by code_simp+

theorem partitions_are_windows_witness:
  "\<exists>s'. block_dev_register (plain_device [100] (Disk 0) 0) one_disk = (0, s') \<and> length (b_devices s') = 2 \<and>
     kabi_block_read 1 5 s' = kabi_block_read 0 13 s'"
proof -
  let ?d = "plain_device [100] (Disk 0) 0"
  have h: "\<not> bd_is_partition ?d" "read_sector (bd_medium ?d) 0 one_disk = Some mbr_sector" "length (b_devices one_disk) = 0"
    by (simp_all add: plain_device_def read_sector_def one_disk_def)
  from partitions_are_windows [OF h(1) refl, of one_disk mbr_sector] h mbr_sector_facts show ?thesis
    by (auto simp: MAX_BLOCK_DEVICES_def)
qed

end
