(* ===== verification/FatFs.thy ===== *)
theory FatFs
  imports BlockDev
begin

text \<open>
  The FAT32 driver below the virtual file system: boot parameter block (fat32_bpb.c), allocation
  table (fat32_fat.c), directories and files (fat32_file.c). Sectors are byte lists; directory
  entries are 32-byte lists with the packed layout of fat32_dir.h. Loops that follow a cluster chain
  read from the disk need not end: they are partial functions, \<open>None\<close> for a loop that runs for ever.
\<close>

section \<open>Boot parameter block\<close>

record fat32_mount =
  m_part_lba_start :: u32
  m_fat_lba_start :: u32
  m_data_lba_start :: u32
  m_sectors_per_cluster :: u32
  m_bytes_per_sector :: u32
  m_sectors_per_fat :: u32
  m_root_cluster :: u32

definition fat32_read_bpb :: "u32 \<Rightarrow> u32 \<Rightarrow> blk \<Rightarrow> int + fat32_mount" where
  "fat32_read_bpb dev part_lba s =
     (case kabi_block_read dev (ucast part_lba) s of
        Inl _ \<Rightarrow> Inl KABI_EIO
      | Inr b \<Rightarrow>
          if get16 b 11 \<noteq> 512 then Inl KABI_EINVAL
          else if get32 b 36 = 0 then Inl KABI_EINVAL
          else let fat_start = part_lba + ucast (get16 b 14);
                   data_start = fat_start + ucast (b ! 16) * get32 b 36
               in Inr \<lparr>m_part_lba_start = part_lba, m_fat_lba_start = fat_start, m_data_lba_start = data_start,
                    m_sectors_per_cluster = ucast (b ! 13), m_bytes_per_sector = ucast (get16 b 11),
                    m_sectors_per_fat = get32 b 36, m_root_cluster = get32 b 44\<rparr>)"

definition fat32_cluster_to_lba :: "fat32_mount \<Rightarrow> u32 \<Rightarrow> u32" where
  "fat32_cluster_to_lba m cluster = m_data_lba_start m + (cluster - 2) * m_sectors_per_cluster m"

text \<open>The per-mount context of fat32_vfs.c.\<close>

record fat32_ctx =
  ctx_dev :: u32
  ctx_info :: fat32_mount

section \<open>Allocation table\<close>

abbreviation EOC :: u32 where "EOC \<equiv> 0x0FFFFFF8"

definition fat32_get_next_cluster :: "u32 \<Rightarrow> fat32_mount \<Rightarrow> u32 \<Rightarrow> blk \<Rightarrow> u32" where
  "fat32_get_next_cluster dev m cluster s =
     (let fat_offset = cluster * 4;
          fat_sector = m_fat_lba_start m + fat_offset div 512;
          ent_offset = fat_offset mod 512
      in case kabi_block_read dev (ucast fat_sector) s of
           Inl _ \<Rightarrow> 0x0FFFFFFF
         | Inr b \<Rightarrow> get32 b (unat ent_offset) AND 0x0FFFFFFF)"

definition fat32_set_cluster :: "u32 \<Rightarrow> fat32_mount \<Rightarrow> u32 \<Rightarrow> u32 \<Rightarrow> blk \<Rightarrow> blk" where
  "fat32_set_cluster dev m cluster v s =
     (let fat_offset = cluster * 4;
          fat_sector = m_fat_lba_start m + fat_offset div 512;
          ent_offset = fat_offset mod 512
      in case kabi_block_read dev (ucast fat_sector) s of
           Inl _ \<Rightarrow> s
         | Inr b \<Rightarrow>
             let old_val = get32 b (unat ent_offset);
                 new_val = (old_val AND 0xF0000000) OR (v AND 0x0FFFFFFF)
             in snd (kabi_block_write dev (ucast fat_sector) (put32 (unat ent_offset) new_val b) s))"

fun free_entry :: "nat \<Rightarrow> u8 list \<Rightarrow> nat list \<Rightarrow> u32 option" where
  "free_entry sec b [] = None"
| "free_entry sec b (i # is) =
     (let cluster = of_nat sec * 128 + of_nat i :: u32 in
      if cluster < 2 then free_entry sec b is
      else if get32 b (4 * i) AND 0x0FFFFFFF = 0 then Some cluster
      else free_entry sec b is)"

fun free_sectors :: "u32 \<Rightarrow> fat32_mount \<Rightarrow> nat list \<Rightarrow> blk \<Rightarrow> u32" where
  "free_sectors dev m [] s = 0"
| "free_sectors dev m (k # ks) s =
     (case kabi_block_read dev (ucast (m_fat_lba_start m + of_nat k)) s of
        Inl _ \<Rightarrow> 0
      | Inr b \<Rightarrow> (case free_entry k b [0..<128] of Some c \<Rightarrow> c | None \<Rightarrow> free_sectors dev m ks s))"

definition fat32_find_free_cluster :: "u32 \<Rightarrow> fat32_mount \<Rightarrow> blk \<Rightarrow> u32" where
  "fat32_find_free_cluster dev m s = free_sectors dev m [0..<unat (m_sectors_per_fat m)] s"

section \<open>Names\<close>

definition upcase :: "u8 \<Rightarrow> u8" where
  "upcase c = (if 97 \<le> c \<and> c \<le> 122 then c - 32 else c)"

fun name_83 :: "u8 list \<Rightarrow> nat \<Rightarrow> u8 list \<Rightarrow> u8 list \<times> u8 list" where
  "name_83 [] j out = ([], out)"
| "name_83 (c # cs) j out =
     (if c \<noteq> 46 \<and> j < 8 then name_83 cs (Suc j) (out[j := upcase c]) else (c # cs, out))"

fun ext_83 :: "u8 list \<Rightarrow> nat \<Rightarrow> u8 list \<Rightarrow> u8 list" where
  "ext_83 [] j out = out"
| "ext_83 (c # cs) j out = (if j < 11 then ext_83 cs (Suc j) (out[j := upcase c]) else out)"

definition canonicalize_83 :: "u8 list \<Rightarrow> u8 list" where
  "canonicalize_83 input =
     (let (rest, out) = name_83 input 0 (replicate 11 32)
      in case dropWhile (\<lambda>c. c \<noteq> 46) rest of
           [] \<Rightarrow> out
         | _ # e \<Rightarrow> ext_83 e 8 out)"

fun fat32_filename_cmp :: "u8 list \<Rightarrow> u8 list \<Rightarrow> nat \<Rightarrow> int" where
  "fat32_filename_cmp s1 s2 0 = 0"
| "fat32_filename_cmp s1 s2 (Suc n) =
     (let c1 = upcase (hd s1); c2 = upcase (hd s2) in
      if c1 < c2 then - 1 else if c2 < c1 then 1 else fat32_filename_cmp (tl s1) (tl s2) n)"

section \<open>Directory entries\<close>

definition entry :: "u8 list \<Rightarrow> nat \<Rightarrow> u8 list" where
  "entry b i = take 32 (drop (32 * i) b)"

definition put_entry :: "nat \<Rightarrow> u8 list \<Rightarrow> u8 list \<Rightarrow> u8 list" where
  "put_entry i e b = take (32 * i) b @ e @ drop (32 * i + 32) b"

definition de_name :: "u8 list \<Rightarrow> u8 list" where "de_name e = take 11 e"
definition de_attr :: "u8 list \<Rightarrow> u8" where "de_attr e = e ! 11"
definition de_size :: "u8 list \<Rightarrow> u32" where "de_size e = get32 e 28"

definition de_cluster :: "u8 list \<Rightarrow> u32" where
  "de_cluster e = push_bit 16 (ucast (get16 e 20)) OR ucast (get16 e 26)"

definition set_cluster_field :: "u32 \<Rightarrow> u8 list \<Rightarrow> u8 list" where
  "set_cluster_field c e = put16 26 (ucast c) (put16 20 (ucast (drop_bit 16 c)) e)"

definition new_entry :: "u8 list \<Rightarrow> u8 \<Rightarrow> u32 \<Rightarrow> u32 \<Rightarrow> u8 list" where
  "new_entry name attr cluster sz = put32 28 sz (set_cluster_field cluster (name @ attr # replicate 20 0))"

section \<open>Searching a directory\<close>

datatype scan = ScanEnd | ScanHit nat | ScanNone

text \<open>The loop over the 16 entries of a sector, skipping deleted and long-name entries.\<close>

fun scan_entries :: "(u8 list \<Rightarrow> bool) \<Rightarrow> nat list \<Rightarrow> u8 list \<Rightarrow> scan" where
  "scan_entries p [] b = ScanNone"
| "scan_entries p (i # is) b =
     (let e = entry b i in
      if e ! 0 = 0 then ScanEnd
      else if e ! 0 = 0xE5 then scan_entries p is b
      else if de_attr e = 0x0F then scan_entries p is b
      else if p e then ScanHit i
      else scan_entries p is b)"

datatype dir_result = DirError | DirEnd | DirHit u32 nat "u8 list"

fun dir_sectors :: "(u8 list \<Rightarrow> bool) \<Rightarrow> u32 \<Rightarrow> u32 \<Rightarrow> nat list \<Rightarrow> blk \<Rightarrow> dir_result option" where
  "dir_sectors p dev lba [] s = None"
| "dir_sectors p dev lba (k # ks) s =
     (case kabi_block_read dev (ucast (lba + of_nat k)) s of
        Inl _ \<Rightarrow> Some DirError
      | Inr b \<Rightarrow>
          (case scan_entries p [0..<16] b of
             ScanEnd \<Rightarrow> Some DirEnd
           | ScanHit i \<Rightarrow> Some (DirHit (lba + of_nat k) i b)
           | ScanNone \<Rightarrow> dir_sectors p dev lba ks s))"

definition cluster_sectors :: "fat32_mount \<Rightarrow> nat list" where
  "cluster_sectors m = [0..<unat (m_sectors_per_cluster m)]"

partial_function (option) dir_walk :: "(u8 list \<Rightarrow> bool) \<Rightarrow> u32 \<Rightarrow> fat32_mount \<Rightarrow> u32 \<Rightarrow> blk \<Rightarrow> dir_result option" where
  "dir_walk p dev m cluster s =
     (if cluster < EOC then
        (case dir_sectors p dev (fat32_cluster_to_lba m cluster) (cluster_sectors m) s of
           Some r \<Rightarrow> Some r
         | None \<Rightarrow> dir_walk p dev m (fat32_get_next_cluster dev m cluster s) s)
      else Some DirEnd)"

definition dir_start :: "fat32_mount \<Rightarrow> u32 \<Rightarrow> u32" where
  "dir_start m cluster = (if cluster = 0 then m_root_cluster m else cluster)"

definition fat32_find_file :: "u32 \<Rightarrow> fat32_mount \<Rightarrow> u8 list \<Rightarrow> u32 \<Rightarrow> blk \<Rightarrow> (int + u8 list) option" where
  "fat32_find_file dev m name start_cluster s =
     (let target = canonicalize_83 name in
      map_option (\<lambda>r. case r of
           DirError \<Rightarrow> Inl KABI_EIO
         | DirEnd \<Rightarrow> Inl KABI_ENOENT
         | DirHit _ i b \<Rightarrow> Inr (entry b i))
        (dir_walk (\<lambda>e. fat32_filename_cmp (de_name e) target 11 = 0) dev m (dir_start m start_cluster) s))"

section \<open>Reading a whole file\<close>

fun read_file_sectors :: "u32 \<Rightarrow> u32 \<Rightarrow> nat list \<Rightarrow> nat \<Rightarrow> u8 list \<Rightarrow> blk \<Rightarrow> int + nat \<times> u8 list" where
  "read_file_sectors dev lba [] remaining acc s = Inr (remaining, acc)"
| "read_file_sectors dev lba (k # ks) remaining acc s =
     (if 0 < remaining then
        (case kabi_block_read dev (ucast (lba + of_nat k)) s of
           Inl _ \<Rightarrow> Inl KABI_EIO
         | Inr b \<Rightarrow> let to_copy = (if 512 < remaining then 512 else remaining)
                    in read_file_sectors dev lba ks (remaining - to_copy) (acc @ take to_copy b) s)
      else Inr (remaining, acc))"

partial_function (option) read_file_clusters ::
    "u32 \<Rightarrow> fat32_mount \<Rightarrow> u32 \<Rightarrow> nat \<Rightarrow> u8 list \<Rightarrow> blk \<Rightarrow> (int + u8 list) option" where
  "read_file_clusters dev m cluster remaining acc s =
     (if 0 < remaining \<and> cluster < EOC then
        (case read_file_sectors dev (fat32_cluster_to_lba m cluster) (cluster_sectors m) remaining acc s of
           Inl e \<Rightarrow> Some (Inl e)
         | Inr (remaining', acc') \<Rightarrow>
             read_file_clusters dev m (fat32_get_next_cluster dev m cluster s) remaining' acc' s)
      else Some (if remaining = 0 then Inr acc else Inl KABI_EIO))"

definition fat32_read_file :: "u32 \<Rightarrow> fat32_mount \<Rightarrow> u8 list \<Rightarrow> blk \<Rightarrow> (int + u8 list) option" where
  "fat32_read_file dev m file s = read_file_clusters dev m (de_cluster file) (unat (de_size file)) [] s"

section \<open>Adding, changing and removing entries\<close>

definition zero_cluster :: "u32 \<Rightarrow> fat32_mount \<Rightarrow> u32 \<Rightarrow> blk \<Rightarrow> blk" where
  "zero_cluster dev m cluster s =
     foldl (\<lambda>s k. snd (kabi_block_write dev (ucast (fat32_cluster_to_lba m cluster + of_nat k)) (replicate 512 0) s))
       s (cluster_sectors m)"

fun free_slot :: "nat list \<Rightarrow> u8 list \<Rightarrow> nat option" where
  "free_slot [] b = None"
| "free_slot (i # is) b = (if entry b i ! 0 = 0 \<or> entry b i ! 0 = 0xE5 then Some i else free_slot is b)"

fun add_sectors :: "u8 list \<Rightarrow> u32 \<Rightarrow> u32 \<Rightarrow> nat list \<Rightarrow> blk \<Rightarrow> (int \<times> blk) option" where
  "add_sectors e dev lba [] s = None"
| "add_sectors e dev lba (k # ks) s =
     (case kabi_block_read dev (ucast (lba + of_nat k)) s of
        Inl _ \<Rightarrow> Some (KABI_EIO, s)
      | Inr b \<Rightarrow>
          (case free_slot [0..<16] b of
             None \<Rightarrow> add_sectors e dev lba ks s
           | Some i \<Rightarrow>
               let (r, s') = kabi_block_write dev (ucast (lba + of_nat k)) (put_entry i e b) s
               in Some (if r \<noteq> KABI_SUCCESS then KABI_EIO else KABI_SUCCESS, s')))"

partial_function (option) add_walk :: "u8 list \<Rightarrow> u32 \<Rightarrow> fat32_mount \<Rightarrow> u32 \<Rightarrow> blk \<Rightarrow> (int \<times> blk) option" where
  "add_walk e dev m cluster s =
     (if cluster < EOC then
        (case add_sectors e dev (fat32_cluster_to_lba m cluster) (cluster_sectors m) s of
           Some r \<Rightarrow> Some r
         | None \<Rightarrow>
             let next = fat32_get_next_cluster dev m cluster s in
             if EOC \<le> next then
               let new_c = fat32_find_free_cluster dev m s in
               if new_c = 0 then Some (KABI_ENOMEM, s)
               else add_walk e dev m new_c
                      (zero_cluster dev m new_c
                        (fat32_set_cluster dev m new_c 0x0FFFFFFF (fat32_set_cluster dev m cluster new_c s)))
             else add_walk e dev m next s)
      else Some (KABI_EIO, s))"

definition fat32_add_dirent ::
    "u32 \<Rightarrow> fat32_mount \<Rightarrow> u32 \<Rightarrow> u8 list \<Rightarrow> u32 \<Rightarrow> u32 \<Rightarrow> u8 \<Rightarrow> blk \<Rightarrow> (int \<times> blk) option" where
  "fat32_add_dirent dev m dir_cluster name first_cluster sz attr s =
     add_walk (new_entry (canonicalize_83 name) attr first_cluster sz) dev m (dir_start m dir_cluster) s"

definition updated_entry :: "u32 \<Rightarrow> u32 \<Rightarrow> u8 list \<Rightarrow> u8 list" where
  "updated_entry new_size new_cluster e =
     (let e1 = (if new_size \<noteq> 0xFFFFFFFF then put32 28 new_size e else e)
      in if new_cluster \<noteq> 0xFFFFFFFF then set_cluster_field new_cluster e1 else e1)"

definition fat32_update_dirent ::
    "u32 \<Rightarrow> fat32_mount \<Rightarrow> u32 \<Rightarrow> u8 list \<Rightarrow> u32 \<Rightarrow> u32 \<Rightarrow> blk \<Rightarrow> (int \<times> blk) option" where
  "fat32_update_dirent dev m dir_cluster name new_size new_cluster s =
     (let target = canonicalize_83 name in
      map_option (\<lambda>r. case r of
           DirError \<Rightarrow> (KABI_EIO, s)
         | DirEnd \<Rightarrow> (KABI_ENOENT, s)
         | DirHit lba i b \<Rightarrow>
             let (w, s') = kabi_block_write dev (ucast lba) (put_entry i (updated_entry new_size new_cluster (entry b i)) b) s
             in (if w \<noteq> KABI_SUCCESS then KABI_EIO else KABI_SUCCESS, s'))
        (dir_walk (\<lambda>e. fat32_filename_cmp (de_name e) target 11 = 0) dev m (dir_start m dir_cluster) s))"

definition dot_sector :: "u32 \<Rightarrow> u32 \<Rightarrow> u8 list" where
  "dot_sector new_cluster parent_cluster =
     new_entry (46 # replicate 10 32) 0x10 new_cluster 0 @
     new_entry (46 # 46 # replicate 9 32) 0x10 parent_cluster 0 @ replicate 448 0"

definition fat32_mkdir :: "u32 \<Rightarrow> fat32_mount \<Rightarrow> u32 \<Rightarrow> u8 list \<Rightarrow> blk \<Rightarrow> (int \<times> blk) option" where
  "fat32_mkdir dev m parent name s =
     (let parent_cluster = dir_start m parent in
      case fat32_find_file dev m name parent_cluster s of
        None \<Rightarrow> None
      | Some (Inr _) \<Rightarrow> Some (KABI_EINVAL, s)
      | Some (Inl _) \<Rightarrow>
          let new_cluster = fat32_find_free_cluster dev m s in
          if new_cluster = 0 then Some (KABI_ENOMEM, s)
          else
            let s1 = zero_cluster dev m new_cluster (fat32_set_cluster dev m new_cluster 0x0FFFFFFF s);
                (w, s2) = kabi_block_write dev (ucast (fat32_cluster_to_lba m new_cluster))
                            (dot_sector new_cluster parent_cluster) s1
            in if w \<noteq> KABI_SUCCESS then Some (KABI_EIO, s2)
               else fat32_add_dirent dev m parent_cluster name new_cluster 0 0x10 s2)"

partial_function (option) free_chain :: "u32 \<Rightarrow> fat32_mount \<Rightarrow> u32 \<Rightarrow> blk \<Rightarrow> blk option" where
  "free_chain dev m fc s =
     (if fc \<noteq> 0 \<and> fc < EOC
      then free_chain dev m (fat32_get_next_cluster dev m fc s) (fat32_set_cluster dev m fc 0 s)
      else Some s)"

definition fat32_unlink :: "u32 \<Rightarrow> fat32_mount \<Rightarrow> u32 \<Rightarrow> u8 list \<Rightarrow> blk \<Rightarrow> (int \<times> blk) option" where
  "fat32_unlink dev m dir_cluster name s =
     (let target = canonicalize_83 name in
      case dir_walk (\<lambda>e. de_name e = target) dev m (dir_start m dir_cluster) s of
        None \<Rightarrow> None
      | Some DirError \<Rightarrow> Some (KABI_EIO, s)
      | Some DirEnd \<Rightarrow> Some (KABI_ENOENT, s)
      | Some (DirHit lba i b) \<Rightarrow> do {
          s1 \<leftarrow> free_chain dev m (de_cluster (entry b i)) s;
          let (w, s2) = kabi_block_write dev (ucast lba) (put_entry i ((entry b i)[0 := 0xE5]) b) s1;
          Some (if w \<noteq> KABI_SUCCESS then KABI_EIO else KABI_SUCCESS, s2) })"

declare dir_walk.simps [code] read_file_clusters.simps [code] add_walk.simps [code] free_chain.simps [code]

end
