(* ===== verification/Kstate.thy ===== *)
theory Kstate
  imports Pipe FatFs
begin

text \<open>
  The shared kernel state: task structures (kernel/core/task.h), open files and file system nodes
  (kernel/core/vfs_core.h), pipes, and the global variables of kernel/core/task.c. Objects live at
  addresses. Reading an address whose object was freed yields the stale object, as it would in the
  kernel; \<open>k_live\<close> records which addresses are allocated, and freshly allocated addresses are never
  reused. The second half is about the two linked structures through these objects: the ring of
  tasks and the sleep list.
\<close>

section \<open>Objects\<close>

record task =
  t_magic :: u32
  t_id :: u32
  t_user_esp :: u64
  t_user_eip :: u64
  t_kernel_stack :: u64
  t_kernel_stack_base :: u64
  t_guard :: u64
  t_page_directory :: "ptr option"
  t_parent :: "ptr option"
  t_state :: tstate
  t_capabilities :: u32
  t_fd_table :: "ptr option list"
  t_cwd :: "u8 list"
  t_next :: "ptr option"
  t_pending_signals :: u32
  t_sigterm_handler :: u64
  t_saved_eip :: u64
  t_saved_esp :: u64
  t_in_signal :: bool
  t_sleep_until :: u32
  t_sleep_next :: "ptr option"
  t_exit_code :: int
  t_ticks :: u32

text \<open>
  \<open>t_guard\<close> is the word at the bottom of the task's kernel stack, which the kernel poisons and
  checks; \<open>t_cwd\<close> is the string without its terminator.
\<close>

record file_t =
  f_node :: ptr
  f_offset :: u64
  f_flags :: u32
  f_refcount :: u32

text \<open>
  What the implementation pointer of a node is: nothing, a pipe, a heap buffer, or a number a file
  system stores there. The function pointers of a node are those of one driver.
\<close>

datatype node_impl = NoImpl | ImplPipe ptr | ImplBuf ptr | ImplNum u64

datatype driver = DriverStd | DriverPipe | DriverMock | DriverInitrd | DriverInitrdFile | DriverFat

record fs_node =
  n_name :: "u8 list"
  n_mask :: u32
  n_flags :: u32
  n_inode :: u32
  n_length :: u64
  n_impl :: node_impl
  n_driver :: driver

definition FS_FILE :: u32 where "FS_FILE = 0x01"
definition FS_DIRECTORY :: u32 where "FS_DIRECTORY = 0x02"
definition FS_CHARDEVICE :: u32 where "FS_CHARDEVICE = 0x03"
definition FS_MOUNTPOINT :: u32 where "FS_MOUNTPOINT = 0x08"
definition FS_TRANSIENT :: u32 where "FS_TRANSIENT = 0x10"
definition FS_IMPL_HEAP :: u32 where "FS_IMPL_HEAP = 0x20"
definition FS_PIPE :: u32 where "FS_PIPE = 0x1000"
definition FS_PERSISTENT :: u32 where "FS_PERSISTENT = 0x2000"

lemmas fs_flags = FS_FILE_def FS_DIRECTORY_def FS_CHARDEVICE_def FS_MOUNTPOINT_def FS_TRANSIENT_def
  FS_IMPL_HEAP_def FS_PIPE_def FS_PERSISTENT_def

text \<open>A directory entry as handed to callers of the virtual file system.\<close>

record dirent =
  d_name :: "u8 list"
  d_ino :: u64
  d_size :: u64
  d_type :: u8
  d_attr :: u8

record vfs_mount =
  vm_path :: "u8 list"
  vm_root :: ptr
  vm_active :: bool

record kst =
  k_tasks :: "ptr \<Rightarrow> task"
  k_files :: "ptr \<Rightarrow> file_t"
  k_nodes :: "ptr \<Rightarrow> fs_node"
  k_pipes :: "ptr \<Rightarrow> pipe_t"
  k_bufs :: "ptr \<Rightarrow> u8 list"
  k_live :: "ptr \<Rightarrow> bool"
  k_bad_free :: bool
  k_brk :: ptr
  k_ready_queue :: "ptr option"
  k_sleep_queue :: "ptr option"
  k_current :: ptr
  k_next_pid :: u32
  k_irq_depth :: u32
  k_pipe_count :: int
  k_tick :: u32
  k_rq_lock :: bool
  k_scheduler :: bool
  k_cpu_kstack_base :: u64
  k_cpu_kstack_top :: u64
  k_tss_stack :: u64
  k_directory :: "ptr option"
  k_task_switch_rsp :: u64
  k_timer_ticks :: u64
  k_fs_root :: "ptr option"
  k_std_node :: "ptr option"
  k_mounts :: "vfs_mount list"
  k_out :: "u8 list"
  k_blk :: blk
  k_fat_mounts :: "fat32_ctx list"
  k_initrd :: "ptr list"
  k_initrd_bin :: "u8 list"

section \<open>Access\<close>

definition set_task :: "ptr \<Rightarrow> (task \<Rightarrow> task) \<Rightarrow> kst \<Rightarrow> kst" where
  "set_task p f s = s\<lparr>k_tasks := (k_tasks s)(p := f (k_tasks s p))\<rparr>"

lemma set_task_simps [simp]:
  "k_tasks (set_task p f s) = (k_tasks s)(p := f (k_tasks s p))"
  "k_files (set_task p f s) = k_files s" "k_nodes (set_task p f s) = k_nodes s"
  "k_pipes (set_task p f s) = k_pipes s" "k_bufs (set_task p f s) = k_bufs s"
  "k_live (set_task p f s) = k_live s" "k_bad_free (set_task p f s) = k_bad_free s" "k_brk (set_task p f s) = k_brk s"
  "k_ready_queue (set_task p f s) = k_ready_queue s" "k_sleep_queue (set_task p f s) = k_sleep_queue s"
  "k_current (set_task p f s) = k_current s" "k_next_pid (set_task p f s) = k_next_pid s"
  "k_irq_depth (set_task p f s) = k_irq_depth s" "k_pipe_count (set_task p f s) = k_pipe_count s"
  "k_tick (set_task p f s) = k_tick s" "k_rq_lock (set_task p f s) = k_rq_lock s"
  "k_scheduler (set_task p f s) = k_scheduler s"
  "k_cpu_kstack_base (set_task p f s) = k_cpu_kstack_base s" "k_cpu_kstack_top (set_task p f s) = k_cpu_kstack_top s"
  "k_tss_stack (set_task p f s) = k_tss_stack s" "k_directory (set_task p f s) = k_directory s"
  "k_task_switch_rsp (set_task p f s) = k_task_switch_rsp s"
  "k_timer_ticks (set_task p f s) = k_timer_ticks s" "k_fs_root (set_task p f s) = k_fs_root s"
  "k_std_node (set_task p f s) = k_std_node s" "k_mounts (set_task p f s) = k_mounts s"
  "k_out (set_task p f s) = k_out s" "k_blk (set_task p f s) = k_blk s"
  "k_fat_mounts (set_task p f s) = k_fat_mounts s" "k_initrd (set_task p f s) = k_initrd s"
  "k_initrd_bin (set_task p f s) = k_initrd_bin s"
  by (simp_all add: set_task_def)

text \<open>
  Requests to the kernel heap give a fresh address; running out of memory is not part of this state. Freeing an
  address that is not allocated, for one because it has been freed before, sets \<open>k_bad_free\<close> for good.
\<close>

definition kalloc :: "kst \<Rightarrow> ptr \<times> kst" where
  "kalloc s = (k_brk s, s\<lparr>k_brk := Suc (k_brk s), k_live := (k_live s)(k_brk s := True)\<rparr>)"

definition kfree :: "ptr \<Rightarrow> kst \<Rightarrow> kst" where
  "kfree p s = s\<lparr>k_live := (k_live s)(p := False), k_bad_free := (k_bad_free s \<or> \<not> k_live s p)\<rparr>"

definition set_node :: "ptr \<Rightarrow> (fs_node \<Rightarrow> fs_node) \<Rightarrow> kst \<Rightarrow> kst" where
  "set_node p f s = s\<lparr>k_nodes := (k_nodes s)(p := f (k_nodes s p))\<rparr>"

definition set_file :: "ptr \<Rightarrow> (file_t \<Rightarrow> file_t) \<Rightarrow> kst \<Rightarrow> kst" where
  "set_file p f s = s\<lparr>k_files := (k_files s)(p := f (k_files s p))\<rparr>"

section \<open>Chains\<close>

text \<open>
  \<open>chain nx p xs q\<close>: following the links \<open>nx\<close> from \<open>p\<close> visits exactly the objects \<open>xs\<close> and arrives at \<open>q\<close>.
\<close>

fun chain :: "(ptr \<Rightarrow> ptr option) \<Rightarrow> ptr option \<Rightarrow> ptr list \<Rightarrow> ptr option \<Rightarrow> bool" where
  "chain nx p [] q \<longleftrightarrow> p = q"
| "chain nx p (x # xs) q \<longleftrightarrow> p = Some x \<and> chain nx (nx x) xs q"

lemma chain_append: "chain nx p (xs @ ys) q \<longleftrightarrow> (\<exists>r. chain nx p xs r \<and> chain nx r ys q)"
  by (induction xs arbitrary: p) auto

lemma chain_cong: "(\<And>x. x \<in> set xs \<Longrightarrow> nx x = nx' x) \<Longrightarrow> chain nx p xs q \<longleftrightarrow> chain nx' p xs q"
  by (induction xs arbitrary: p) auto

lemma chain_upd [simp]: "a \<notin> set xs \<Longrightarrow> chain (nx(a := v)) p xs q \<longleftrightarrow> chain nx p xs q"
  by (rule chain_cong) auto

lemma chain_unique: "chain nx p xs None \<Longrightarrow> chain nx p ys None \<Longrightarrow> xs = ys"
proof (induction xs arbitrary: p ys)
  case Nil
  then show ?case by (cases ys) auto
next
  case (Cons x xs)
  then show ?case by (cases ys) auto
qed

lemma chain_insert:
  assumes "chain nx p (as @ bs) q" "as \<noteq> []" "distinct (as @ bs)" "t \<notin> set (as @ bs)"
  shows "chain (nx(t := nx (last as), last as := Some t)) p (as @ t # bs) q"
proof -
  obtain as' a where as: "as = as' @ [a]" using assms(2) by (cases as rule: rev_cases) auto
  have "chain nx p as' (Some a)" "chain nx (nx a) bs q"
    using assms(1) by (auto simp: as chain_append)
  with assms(3,4) show ?thesis by (auto simp: as chain_append)
qed

lemma chain_delete:
  assumes "chain nx p (as @ t # bs) q" "as \<noteq> []" "distinct (as @ t # bs)"
  shows "chain (nx(last as := nx t)) p (as @ bs) q"
proof -
  obtain as' a where as: "as = as' @ [a]" using assms(2) by (cases as rule: rev_cases) auto
  have "chain nx p as' (Some a)" "nx a = Some t" "chain nx (nx t) bs q"
    using assms(1) by (auto simp: as chain_append)
  with assms(3) show ?thesis by (auto simp: as chain_append)
qed

text \<open>
  The ring of tasks: a closed chain of distinct objects, starting and ending at its first one.
\<close>

definition ring_of :: "(ptr \<Rightarrow> ptr option) \<Rightarrow> ptr list \<Rightarrow> bool" where
  "ring_of nx xs \<longleftrightarrow> xs \<noteq> [] \<and> distinct xs \<and> chain nx (Some (hd xs)) xs (Some (hd xs))"

lemma ring_of_upd [simp]: "a \<notin> set xs \<Longrightarrow> ring_of (nx(a := v)) xs \<longleftrightarrow> ring_of nx xs"
  by (simp add: ring_of_def)

lemma ring_of_cong: "(\<And>x. x \<in> set xs \<Longrightarrow> nx x = nx' x) \<Longrightarrow> ring_of nx xs \<longleftrightarrow> ring_of nx' xs"
  unfolding ring_of_def by (metis chain_cong)

lemma ring_of_rotate1: "ring_of nx (x # xs) \<Longrightarrow> ring_of nx (xs @ [x])"
  by (cases xs) (auto simp: ring_of_def chain_append)

lemma ring_of_rotate: "ring_of nx (ys @ zs) \<Longrightarrow> ring_of nx (zs @ ys)"
proof (induction ys arbitrary: zs)
  case (Cons y ys)
  from ring_of_rotate1 [of nx y "ys @ zs"] Cons.prems have "ring_of nx (ys @ (zs @ [y]))" by simp
  from Cons.IH [OF this] show ?case by simp
qed simp

lemma ring_of_rotate_k: "ring_of nx xs \<Longrightarrow> ring_of nx (rotate k xs)"
proof (induction k)
  case (Suc k)
  then show ?case by (cases "rotate k xs") (auto simp: ring_of_rotate1)
qed simp

lemma ring_of_insert:
  assumes "ring_of nx (x # xs)" "new \<notin> set (x # xs)"
  shows "ring_of (nx(new := nx x, x := Some new)) (x # new # xs)"
  using assms by (auto simp: ring_of_def)

lemma ring_of_remove:
  assumes "ring_of nx (x # y # xs)"
  shows "ring_of (nx(x := nx y)) (x # xs)"
  using assms by (auto simp: ring_of_def)

section \<open>Loops over the ring\<close>

text \<open>
  The kernel's loops \<open>do { body; t = t->next; } while (t != start && t != 0)\<close>. The body may return
  from the enclosing function (\<open>Inr\<close>). \<open>None\<close> is a loop that never ends.
\<close>

partial_function (option) ring_loop ::
    "(ptr \<Rightarrow> 's \<Rightarrow> 's + 'r) \<Rightarrow> ('s \<Rightarrow> ptr \<Rightarrow> ptr option) \<Rightarrow> ptr \<Rightarrow> ptr \<Rightarrow> 's \<Rightarrow> ('s + 'r) option" where
  "ring_loop body nx start t s =
     (case body t s of
        Inr r \<Rightarrow> Some (Inr r)
      | Inl s' \<Rightarrow>
          (case nx s' t of
             None \<Rightarrow> Some (Inl s')
           | Some t' \<Rightarrow> if t' = start then Some (Inl s') else ring_loop body nx start t' s'))"

fun list_loop :: "(ptr \<Rightarrow> 's \<Rightarrow> 's + 'r) \<Rightarrow> ptr list \<Rightarrow> 's \<Rightarrow> 's + 'r" where
  "list_loop body [] s = Inl s"
| "list_loop body (t # ts) s =
     (case body t s of Inr r \<Rightarrow> Inr r | Inl s' \<Rightarrow> list_loop body ts s')"

text \<open>A body that keeps the links visits each task of the ring once, in order.\<close>

lemma ring_loop_chain:
  assumes "\<And>t s s'. t \<in> set xs \<Longrightarrow> body t s = Inl s' \<Longrightarrow> nx s' = nx s"
    and "chain (nx s) (Some x) (x # ys) (Some start)" "start \<notin> set ys" "set (x # ys) \<subseteq> set xs"
  shows "ring_loop body nx start x s = Some (list_loop body (x # ys) s)"
  using assms(2-)
proof (induction ys arbitrary: x s)
  case Nil
  then show ?case using assms(1) [of x s]
    by (subst ring_loop.simps) (auto split: sum.splits)
next
  case (Cons y ys)
  show ?case
  proof (cases "body x s")
    case (Inl s')
    then have nx: "nx s' = nx s" using assms(1) Cons.prems by auto
    with Cons.prems have step: "nx s' x = Some y" "chain (nx s') (Some y) (y # ys) (Some start)" by auto
    from Cons.IH [OF this(2)] Cons.prems have "ring_loop body nx start y s' = Some (list_loop body (y # ys) s')"
      by auto
    with Inl step(1) Cons.prems show ?thesis by (subst ring_loop.simps) auto
  next
    case (Inr r)
    then show ?thesis by (subst ring_loop.simps) auto
  qed
qed

lemma ring_loop_ring:
  assumes "\<And>t s s'. t \<in> set xs \<Longrightarrow> body t s = Inl s' \<Longrightarrow> nx s' = nx s"
    and "ring_of (nx s) xs"
  shows "ring_loop body nx (hd xs) (hd xs) s = Some (list_loop body xs s)"
proof -
  obtain x ys where xs: "xs = x # ys" using assms(2) by (cases xs) (auto simp: ring_of_def)
  show ?thesis
    using ring_loop_chain [of xs body nx s x ys x, OF assms(1)] assms(2) by (auto simp: xs ring_of_def)
qed

definition task_next :: "kst \<Rightarrow> ptr \<Rightarrow> ptr option" where
  "task_next s t = t_next (k_tasks s t)"

definition task_sleep_next :: "kst \<Rightarrow> ptr \<Rightarrow> ptr option" where
  "task_sleep_next s t = t_sleep_next (k_tasks s t)"

lemma task_links_set_task [simp]:
  "task_next (set_task p f s) = (task_next s)(p := t_next (f (k_tasks s p)))"
  "task_sleep_next (set_task p f s) = (task_sleep_next s)(p := t_sleep_next (f (k_tasks s p)))"
  by (auto simp: task_next_def task_sleep_next_def)

lemma task_links_idem [simp]:
  "(task_next s)(p := t_next (k_tasks s p)) = task_next s"
  "(task_sleep_next s)(p := t_sleep_next (k_tasks s p)) = task_sleep_next s"
  by (auto simp: task_next_def task_sleep_next_def)

lemma task_links_kst [simp]:
  "task_sleep_next (s\<lparr>k_sleep_queue := q\<rparr>) = task_sleep_next s"
  "task_next (s\<lparr>k_sleep_queue := q\<rparr>) = task_next s"
  "task_next (s\<lparr>k_rq_lock := b\<rparr>) = task_next s" "task_sleep_next (s\<lparr>k_rq_lock := b\<rparr>) = task_sleep_next s"
  "task_next (s\<lparr>k_irq_depth := d\<rparr>) = task_next s"
  "task_next (s\<lparr>k_current := c\<rparr>) = task_next s" "task_next (s\<lparr>k_tick := n\<rparr>) = task_next s"
  "task_sleep_next (s\<lparr>k_tick := n\<rparr>) = task_sleep_next s"
  by (auto simp: task_next_def task_sleep_next_def)

text \<open>The ready queue of a state is the ring \<open>xs\<close>; its head is the first task.\<close>

definition ready_ring :: "kst \<Rightarrow> ptr list \<Rightarrow> bool" where
  "ready_ring s xs \<longleftrightarrow> ring_of (task_next s) xs \<and> k_ready_queue s = Some (hd xs)"

text \<open>The sleep queue of a state is the list \<open>xs\<close>.\<close>

definition sleep_list :: "kst \<Rightarrow> ptr list \<Rightarrow> bool" where
  "sleep_list s xs \<longleftrightarrow> chain (task_sleep_next s) (k_sleep_queue s) xs None \<and> distinct xs"

section \<open>A search over the ring\<close>

lemma list_loop_search:
  "list_loop (\<lambda>t s. if P t s then Inr (f t s) else Inl s) xs s =
     (case find (\<lambda>t. P t s) xs of Some t \<Rightarrow> Inr (f t s) | None \<Rightarrow> Inl s)"
  by (induction xs) auto

lemma ring_search:
  assumes "ready_ring s xs"
  shows "ring_loop (\<lambda>t s. if P t s then Inr (f t s) else Inl s) task_next (hd xs) (hd xs) s =
    Some (case find (\<lambda>t. P t s) xs of Some t \<Rightarrow> Inr (f t s) | None \<Rightarrow> Inl s)"
proof -
  have "ring_loop (\<lambda>t s. if P t s then Inr (f t s) else Inl s) task_next (hd xs) (hd xs) s =
      Some (list_loop (\<lambda>t s. if P t s then Inr (f t s) else Inl s) xs s)"
    by (rule ring_loop_ring) (use assms in \<open>auto simp: ready_ring_def split: if_splits\<close>)
  then show ?thesis by (simp add: list_loop_search)
qed

section \<open>A small system\<close>

text \<open>A kernel with a boot task, the idle task and one sleeping child, used to exercise statements.\<close>

definition blank_task :: "u32 \<Rightarrow> tstate \<Rightarrow> ptr option \<Rightarrow> ptr option \<Rightarrow> task" where
  "blank_task pid st parent nxt =
     \<lparr>t_magic = 0xCAFEBABE, t_id = pid, t_user_esp = 0x3F00, t_user_eip = 0, t_kernel_stack = 0x4000,
      t_kernel_stack_base = 0x1000, t_guard = 0xCCCCCCCCCCCCCCCC, t_page_directory = None,
      t_parent = parent, t_state = st, t_capabilities = 0, t_fd_table = replicate 32 None, t_cwd = [47],
      t_next = nxt, t_pending_signals = 0, t_sigterm_handler = 0, t_saved_eip = 0, t_saved_esp = 0,
      t_in_signal = False, t_sleep_until = 0, t_sleep_next = None, t_exit_code = 0, t_ticks = 0\<rparr>"

definition small_kernel :: kst where
  "small_kernel =
     \<lparr>k_tasks = (\<lambda>p. if p = 10 then blank_task 1 TASK_RUNNING None (Some 20)
                    else if p = 20 then blank_task 2 TASK_READY None (Some 30)
                    else (blank_task 3 TASK_WAITING (Some 10) (Some 10))\<lparr>t_sleep_until := (if p = 30 then 50 else 0)\<rparr>),
      k_files = (\<lambda>_. \<lparr>f_node = 0, f_offset = 0, f_flags = 0, f_refcount = 0\<rparr>),
      k_nodes = (\<lambda>_. \<lparr>n_name = [], n_mask = 0, n_flags = 0, n_inode = 0, n_length = 0, n_impl = NoImpl, n_driver = DriverStd\<rparr>),
      k_pipes = (\<lambda>_. \<lparr>p_buffer = [], p_head = 0, p_tail = 0, p_len = 0, p_size = 0, p_readers = 0,
                    p_writers = 0, p_waiting_task = None\<rparr>),
      k_bufs = (\<lambda>_. []), k_live = (\<lambda>p. p \<in> {10, 20, 30}), k_bad_free = False, k_brk = 100, k_ready_queue = Some 10,
      k_sleep_queue = Some 30, k_current = 10, k_next_pid = 4, k_irq_depth = 1, k_pipe_count = 0,
      k_tick = 0, k_rq_lock = False, k_scheduler = True, k_cpu_kstack_base = 0x8000,
      k_cpu_kstack_top = 0xA000, k_tss_stack = 0x4000, k_directory = None, k_task_switch_rsp = 0,
      k_timer_ticks = 0, k_fs_root = None, k_std_node = None, k_mounts = [], k_out = [],
      k_blk = \<lparr>b_devices = [], b_ramdisk = [], b_disks = (\<lambda>_ _. None)\<rparr>, k_fat_mounts = [],
      k_initrd = [], k_initrd_bin = []\<rparr>"

lemma small_kernel_ring: "ready_ring small_kernel [10, 20, 30]"
  by (simp add: ready_ring_def ring_of_def task_next_def small_kernel_def blank_task_def)

end
