(* ===== verification/Task.thy ===== *)
theory Task
  imports Kstate
begin

text \<open>
  The sleep queue, the signal code and the process searches of kernel/core/task.c, on the shared
  kernel state. The sleep queue is a sorted linked list through the task structures; the searches
  walk the ring of tasks. The lock \<open>rq_lock\<close> is part of the state: acquiring it while it is held
  never returns.
\<close>

section \<open>Sleep queue\<close>

partial_function (option) sleepq_position :: "u32 \<Rightarrow> ptr \<Rightarrow> kst \<Rightarrow> ptr option" where
  "sleepq_position wake_tick prev s =
     (case t_sleep_next (k_tasks s prev) of
        None \<Rightarrow> Some prev
      | Some n \<Rightarrow> if t_sleep_until (k_tasks s n) \<le> wake_tick then sleepq_position wake_tick n s else Some prev)"

definition sleepq_insert :: "ptr \<Rightarrow> u32 \<Rightarrow> kst \<Rightarrow> kst option" where
  "sleepq_insert t wake_tick s0 =
     (let s = set_task t (\<lambda>k. k\<lparr>t_sleep_until := wake_tick, t_sleep_next := None\<rparr>) s0 in
      case k_sleep_queue s of
        None \<Rightarrow> Some (s\<lparr>k_sleep_queue := Some t\<rparr>)
      | Some h \<Rightarrow>
          if wake_tick \<le> t_sleep_until (k_tasks s h)
          then Some ((set_task t (\<lambda>k. k\<lparr>t_sleep_next := Some h\<rparr>) s)\<lparr>k_sleep_queue := Some t\<rparr>)
          else do {
            prev \<leftarrow> sleepq_position wake_tick h s;
            let s1 = set_task t (\<lambda>k. k\<lparr>t_sleep_next := t_sleep_next (k_tasks s prev)\<rparr>) s;
            Some (set_task prev (\<lambda>k. k\<lparr>t_sleep_next := Some t\<rparr>) s1) })"

partial_function (option) sleepq_before :: "ptr \<Rightarrow> ptr option \<Rightarrow> kst \<Rightarrow> ptr option option" where
  "sleepq_before t prev s =
     (case prev of
        None \<Rightarrow> Some None
      | Some p \<Rightarrow> if t_sleep_next (k_tasks s p) = Some t then Some (Some p)
                  else sleepq_before t (t_sleep_next (k_tasks s p)) s)"

definition sleepq_remove :: "ptr \<Rightarrow> kst \<Rightarrow> kst option" where
  "sleepq_remove t s0 =
     (if t_sleep_until (k_tasks s0 t) = 0 then Some s0
      else let s = set_task t (\<lambda>k. k\<lparr>t_sleep_until := 0\<rparr>) s0 in
        if k_sleep_queue s = Some t
        then Some (set_task t (\<lambda>k. k\<lparr>t_sleep_next := None\<rparr>)
               (s\<lparr>k_sleep_queue := t_sleep_next (k_tasks s t)\<rparr>))
        else do {
          prev \<leftarrow> sleepq_before t (k_sleep_queue s) s;
          let s1 = (case prev of
                      Some p \<Rightarrow> set_task p (\<lambda>k. k\<lparr>t_sleep_next := t_sleep_next (k_tasks s t)\<rparr>) s
                    | None \<Rightarrow> s);
          Some (set_task t (\<lambda>k. k\<lparr>t_sleep_next := None\<rparr>) s1) })"

text \<open>The wake-up loop of the timer interrupt (cpu/timer.c).\<close>

partial_function (option) sleepq_drain :: "u32 \<Rightarrow> kst \<Rightarrow> kst option" where
  "sleepq_drain cur_tick s =
     (case k_sleep_queue s of
        None \<Rightarrow> Some s
      | Some t \<Rightarrow>
          if t_sleep_until (k_tasks s t) \<le> cur_tick
          then sleepq_drain cur_tick
            (set_task t (\<lambda>k. k\<lparr>t_sleep_next := None, t_sleep_until := 0,
                 t_state := (if t_state k = TASK_WAITING then TASK_READY else t_state k)\<rparr>)
               (s\<lparr>k_sleep_queue := t_sleep_next (k_tasks s t)\<rparr>))
          else Some s)"

section \<open>Signals\<close>

definition SIGINT :: int where "SIGINT = 2"
definition SIGKILL :: int where "SIGKILL = 9"
definition SIGTERM :: int where "SIGTERM = 15"
definition SIGCHLD :: int where "SIGCHLD = 17"

definition SIG_BIT :: "int \<Rightarrow> u32" where
  "SIG_BIT sig = push_bit (nat sig) 1"

text \<open>The termination part of \<open>task_deliver_signal\<close>.\<close>

definition notify_parent :: "ptr \<Rightarrow> kst \<Rightarrow> kst" where
  "notify_parent t s =
     (case t_parent (k_tasks s t) of
        None \<Rightarrow> s
      | Some p \<Rightarrow> set_task p (\<lambda>k. k\<lparr>t_pending_signals := t_pending_signals k OR SIG_BIT SIGCHLD,
                   t_state := (if t_state k = TASK_WAITING then TASK_READY else t_state k)\<rparr>) s)"

definition do_terminate :: "ptr \<Rightarrow> kst \<Rightarrow> (kst, kst) outcome" where
  "do_terminate t s =
     (if t_state (k_tasks s t) = TASK_ZOMBIE then Ret s
      else obind (ends (sleepq_remove t s)) (\<lambda>s1.
        let s2 = set_task t (\<lambda>k. k\<lparr>t_state := TASK_ZOMBIE\<rparr>) s1;
            s3 = notify_parent t s2
        in if t = k_current s3 then Hang (s3\<lparr>k_irq_depth := 0\<rparr>) else Ret s3))"

definition task_deliver_signal :: "ptr \<Rightarrow> int \<Rightarrow> kst \<Rightarrow> (kst, kst) outcome" where
  "task_deliver_signal t sig s =
     (if sig = SIGKILL then do_terminate t s
      else if sig = SIGTERM \<or> sig = SIGINT then
        if t_sigterm_handler (k_tasks s t) \<noteq> 0
        then Ret (set_task t (\<lambda>k. k\<lparr>t_pending_signals := t_pending_signals k OR SIG_BIT sig\<rparr>) s)
        else do_terminate t s
      else if sig = SIGCHLD then
        (case t_parent (k_tasks s t) of
           None \<Rightarrow> Ret s
         | Some p \<Rightarrow> Ret (set_task p (\<lambda>k. k\<lparr>t_pending_signals := t_pending_signals k OR SIG_BIT SIGCHLD\<rparr>) s))
      else Ret s)"

section \<open>The ready queue lock\<close>

definition rq_acquire :: "kst \<Rightarrow> (kst, kst) outcome" where
  "rq_acquire s = (if k_rq_lock s then Diverge else Ret (s\<lparr>k_rq_lock := True\<rparr>))"

definition rq_release :: "kst \<Rightarrow> kst" where
  "rq_release s = s\<lparr>k_rq_lock := False\<rparr>"

section \<open>Searches\<close>

definition kill :: "int \<Rightarrow> kst \<Rightarrow> (kst, kst) outcome" where
  "kill pid s =
     (case k_ready_queue s of
        None \<Rightarrow> Ret s
      | Some start \<Rightarrow>
          if pid = 2 then Ret s
          else obind (ends (ring_loop
              (\<lambda>t s. if t_id (k_tasks s t) = word_of_int pid then Inr (task_deliver_signal t SIGKILL s)
                     else Inl s) task_next start start s))
            (\<lambda>r. case r of Inl s' \<Rightarrow> Ret s' | Inr m \<Rightarrow> m))"

text \<open>\<open>task_send_signal\<close> returns 0 or -1; a delivery that does not return leaves the lock held.\<close>

definition task_send_signal :: "int \<Rightarrow> int \<Rightarrow> kst \<Rightarrow> (kst, int \<times> kst) outcome" where
  "task_send_signal pid sig s0 =
     (if pid = 2 then Ret (- 1, s0)
      else obind (rq_acquire s0) (\<lambda>s.
        case k_ready_queue s of
          None \<Rightarrow> Ret (- 1, rq_release s)
        | Some start \<Rightarrow>
            obind (ends (ring_loop
              (\<lambda>t s. if t_id (k_tasks s t) = word_of_int pid then Inr (task_deliver_signal t sig s)
                     else Inl s) task_next start start s))
            (\<lambda>r. case r of
               Inl s' \<Rightarrow> Ret (- 1, rq_release s')
             | Inr m \<Rightarrow> obind m (\<lambda>s'. Ret (0, rq_release s')))))"

text \<open>A loop body that delivers a signal to every task but the first two.\<close>

definition signal_body :: "int \<Rightarrow> ptr \<Rightarrow> kst \<Rightarrow> kst + (kst, kst) outcome" where
  "signal_body sig t s =
     (if 2 < t_id (k_tasks s t)
      then (case task_deliver_signal t sig s of Ret s' \<Rightarrow> Inl s' | m \<Rightarrow> Inr m)
      else Inl s)"

definition task_send_sigint_foreground :: "kst \<Rightarrow> (kst, kst) outcome" where
  "task_send_sigint_foreground s0 =
     obind (rq_acquire s0) (\<lambda>s.
       case k_ready_queue s of
         None \<Rightarrow> Ret (rq_release s)
       | Some start \<Rightarrow>
           obind (ends (ring_loop (signal_body SIGINT) task_next start start s))
             (\<lambda>r. case r of Inl s' \<Rightarrow> Ret (rq_release s') | Inr m \<Rightarrow> m))"

definition kill_all_children :: "kst \<Rightarrow> (kst, kst) outcome" where
  "kill_all_children s =
     (case k_ready_queue s of
        None \<Rightarrow> Ret s
      | Some start \<Rightarrow>
          obind (ends (ring_loop (signal_body SIGKILL) task_next start start s))
            (\<lambda>r. case r of Inl s' \<Rightarrow> Ret s' | Inr m \<Rightarrow> m))"

section \<open>The sleep queue is a sorted list\<close>

definition until :: "kst \<Rightarrow> ptr \<Rightarrow> u32" where
  "until s t = t_sleep_until (k_tasks s t)"

text \<open>The queue of the state is the list \<open>xs\<close>, in the order of the wake-up ticks.\<close>

definition sleep_sorted :: "kst \<Rightarrow> ptr list \<Rightarrow> bool" where
  "sleep_sorted s xs \<longleftrightarrow> sleep_list s xs \<and> sorted (map (until s) xs)"

text \<open>Only fields of the sleep queue differ.\<close>

definition same_but_sleep :: "task \<Rightarrow> task \<Rightarrow> bool" where
  "same_but_sleep k k' \<longleftrightarrow> (\<exists>u n. k' = k\<lparr>t_sleep_until := u, t_sleep_next := n\<rparr>)"

definition only_sleep :: "kst \<Rightarrow> kst \<Rightarrow> bool" where
  "only_sleep s s' \<longleftrightarrow>
     (\<exists>ts q. s' = s\<lparr>k_tasks := ts, k_sleep_queue := q\<rparr> \<and> (\<forall>p. same_but_sleep (k_tasks s p) (ts p)))"

lemma same_but_sleep_refl: "same_but_sleep k k"
proof -
  have "k = k\<lparr>t_sleep_until := t_sleep_until k, t_sleep_next := t_sleep_next k\<rparr>" by simp
  then show ?thesis unfolding same_but_sleep_def by blast
qed

lemma same_but_sleep_trans: "same_but_sleep k k1 \<Longrightarrow> same_but_sleep k1 k2 \<Longrightarrow> same_but_sleep k k2"
  by (clarsimp simp: same_but_sleep_def) (intro exI, rule refl)

lemma only_sleep_I:
  "s' = s\<lparr>k_tasks := ts, k_sleep_queue := q\<rparr> \<Longrightarrow> (\<And>p. same_but_sleep (k_tasks s p) (ts p)) \<Longrightarrow> only_sleep s s'"
  by (auto simp: only_sleep_def)

lemma only_sleep_trans:
  assumes "only_sleep s s1" "only_sleep s1 s2"
  shows "only_sleep s s2"
proof -
  obtain ts q where 1: "s1 = s\<lparr>k_tasks := ts, k_sleep_queue := q\<rparr>" "\<And>p. same_but_sleep (k_tasks s p) (ts p)"
    using assms(1) by (auto simp: only_sleep_def)
  obtain ts' q' where 2: "s2 = s1\<lparr>k_tasks := ts', k_sleep_queue := q'\<rparr>"
    "\<And>p. same_but_sleep (k_tasks s1 p) (ts' p)"
    using assms(2) by (auto simp: only_sleep_def)
  show ?thesis
    by (rule only_sleep_I [where ts = ts' and q = q']) (use 1 2 in \<open>auto intro: same_but_sleep_trans\<close>)
qed

lemma only_sleep_refl [simp]: "only_sleep s s"
  by (rule only_sleep_I [where ts = "k_tasks s" and q = "k_sleep_queue s"]) (simp_all add: same_but_sleep_refl)

lemma only_sleep_task:
  assumes "\<And>k. same_but_sleep k (f k)"
  shows "only_sleep s (set_task p f s)"
  by (rule only_sleep_I [where ts = "(k_tasks s)(p := f (k_tasks s p))" and q = "k_sleep_queue s"])
    (auto simp: set_task_def same_but_sleep_refl assms)

lemma same_but_sleep_upd:
  "same_but_sleep k (k\<lparr>t_sleep_next := n\<rparr>)" "same_but_sleep k (k\<lparr>t_sleep_until := w\<rparr>)"
  "same_but_sleep k (k\<lparr>t_sleep_until := w, t_sleep_next := n\<rparr>)"
proof -
  have "k\<lparr>t_sleep_next := n\<rparr> = k\<lparr>t_sleep_until := t_sleep_until k, t_sleep_next := n\<rparr>"
    "k\<lparr>t_sleep_until := w\<rparr> = k\<lparr>t_sleep_until := w, t_sleep_next := t_sleep_next k\<rparr>" by simp_all
  then show "same_but_sleep k (k\<lparr>t_sleep_next := n\<rparr>)" "same_but_sleep k (k\<lparr>t_sleep_until := w\<rparr>)"
    "same_but_sleep k (k\<lparr>t_sleep_until := w, t_sleep_next := n\<rparr>)"
    unfolding same_but_sleep_def by blast+
qed

lemma only_sleep_set:
  "only_sleep s (set_task p (\<lambda>k. k\<lparr>t_sleep_next := n\<rparr>) s)"
  "only_sleep s (set_task p (\<lambda>k. k\<lparr>t_sleep_until := w\<rparr>) s)"
  "only_sleep s (set_task p (\<lambda>k. k\<lparr>t_sleep_until := w, t_sleep_next := n\<rparr>) s)"
  "only_sleep s (s\<lparr>k_sleep_queue := q\<rparr>)"
proof -
  show "only_sleep s (set_task p (\<lambda>k. k\<lparr>t_sleep_next := n\<rparr>) s)"
    "only_sleep s (set_task p (\<lambda>k. k\<lparr>t_sleep_until := w\<rparr>) s)"
    "only_sleep s (set_task p (\<lambda>k. k\<lparr>t_sleep_until := w, t_sleep_next := n\<rparr>) s)"
    by (rule only_sleep_task, rule same_but_sleep_upd)+
  show "only_sleep s (s\<lparr>k_sleep_queue := q\<rparr>)"
    by (rule only_sleep_I [where ts = "k_tasks s" and q = q]) (simp_all add: same_but_sleep_refl)
qed

lemma sleepq_position_last:
  "chain (task_sleep_next s) (Some p) (p # ys) None \<Longrightarrow>
   sleepq_position w p s = Some (last (p # takeWhile (\<lambda>x. until s x \<le> w) ys))"
proof (induction ys arbitrary: p)
  case Nil
  then show ?case by (subst sleepq_position.simps) (simp add: task_sleep_next_def)
next
  case (Cons y ys)
  then have "t_sleep_next (k_tasks s p) = Some y" by (simp add: task_sleep_next_def)
  with Cons show ?case by (subst sleepq_position.simps) (auto simp: until_def)
qed

lemma until_set [simp]:
  "until (set_task p (\<lambda>k. k\<lparr>t_sleep_next := n\<rparr>) s) = until s"
  "until (set_task p (\<lambda>k. k\<lparr>t_sleep_until := w, t_sleep_next := n\<rparr>) s) = (until s)(p := w)"
  "until (set_task p (\<lambda>k. k\<lparr>t_sleep_until := w\<rparr>) s) = (until s)(p := w)"
  "until (s\<lparr>k_sleep_queue := q\<rparr>) = until s"
  by (auto simp: until_def)

lemma until_keep: "(\<And>k. t_sleep_until (f k) = t_sleep_until k) \<Longrightarrow> until (set_task p f s) = until s"
  by (auto simp: until_def)

lemma sorted_map_upd: "t \<notin> set xs \<Longrightarrow> sorted (map (f(t := w)) xs) = sorted (map f xs)"
  by (metis fun_upd_other map_cong)

lemma sorted_insert_mid:
  assumes "sorted (map f as)" "sorted (map f bs)" "\<forall>x \<in> set as. f x \<le> w" "\<forall>x \<in> set bs. w \<le> f x"
    "t \<notin> set (as @ bs)"
  shows "sorted (map (f(t := (w :: u32))) (as @ t # bs))"
proof -
  have "map (f(t := w)) as = map f as" "map (f(t := w)) bs = map f bs" using assms(5) by auto
  moreover have "f x \<le> f y" if "x \<in> set as" "y \<in> set bs" for x y
    using assms(3,4) that order_trans by blast
  ultimately show ?thesis using assms by (simp add: sorted_append)
qed

lemma sorted_takeWhile_dropWhile:
  assumes "sorted (map f xs)"
  shows "\<forall>x \<in> set (takeWhile (\<lambda>x. f x \<le> w) xs). f x \<le> w" "\<forall>x \<in> set (dropWhile (\<lambda>x. f x \<le> w) xs). w < f x"
proof -
  show "\<forall>x \<in> set (takeWhile (\<lambda>x. f x \<le> w) xs). f x \<le> w" by (auto dest: set_takeWhileD)
  show "\<forall>x \<in> set (dropWhile (\<lambda>x. f x \<le> w) xs). w < f x"
    using assms by (induction xs) (auto simp: not_le intro: less_le_trans)
qed

lemma sleepq_insert_split:
  assumes "sleep_sorted s xs" "t \<notin> set xs"
  shows "\<exists>s' as bs. sleepq_insert t w s = Some s' \<and> xs = as @ bs \<and> sleep_sorted s' (as @ t # bs) \<and>
    until s' = (until s)(t := w) \<and> only_sleep s s'"
proof -
  let ?s1 = "set_task t (\<lambda>k. k\<lparr>t_sleep_until := w, t_sleep_next := None\<rparr>) s"
  have ch: "chain (task_sleep_next s) (k_sleep_queue s) xs None" "distinct xs"
    and srt: "sorted (map (until s) xs)"
    using assms(1) by (auto simp: sleep_sorted_def sleep_list_def)
  have ch1: "chain (task_sleep_next ?s1) (k_sleep_queue s) xs None" using ch assms(2) by simp
  consider "xs = []" | h ys where "xs = h # ys" "w \<le> until s h" | h ys where "xs = h # ys" "\<not> w \<le> until s h"
    by (cases xs) auto
  then show ?thesis
  proof cases
    case 1
    let ?s' = "?s1\<lparr>k_sleep_queue := Some t\<rparr>"
    have "only_sleep s ?s'" by (rule only_sleep_trans [OF only_sleep_set(3) only_sleep_set(4)])
    then show ?thesis using ch 1
      by (intro exI [of _ ?s'] exI [of _ "[]"]) (simp add: sleepq_insert_def sleep_sorted_def sleep_list_def Let_def)
  next
    case 2
    let ?s' = "(set_task t (\<lambda>k. k\<lparr>t_sleep_next := Some h\<rparr>) ?s1)\<lparr>k_sleep_queue := Some t\<rparr>"
    have q: "k_sleep_queue s = Some h" "h \<noteq> t" using ch 2 assms(2) by auto
    have "only_sleep s ?s'"
      by (rule only_sleep_trans [OF only_sleep_trans [OF only_sleep_set(3) only_sleep_set(1)] only_sleep_set(4)])
    moreover have "sleep_sorted ?s' (t # xs)"
      using 2 srt ch1 ch assms(2) q by (auto simp: sleep_sorted_def sleep_list_def sorted_map_upd)
    moreover have "sleepq_insert t w s = Some ?s'"
      using 2 q by (simp add: sleepq_insert_def Let_def until_def)
    ultimately show ?thesis by (intro exI [of _ ?s'] exI [of _ "[]"] exI [of _ xs]) auto
  next
    case 3
    define as where "as = h # takeWhile (\<lambda>x. until s x \<le> w) ys"
    define bs where "bs = dropWhile (\<lambda>x. until s x \<le> w) ys"
    have xs: "xs = as @ bs" "as \<noteq> []" by (simp_all add: 3 as_def bs_def)
    have q: "k_sleep_queue s = Some h" "h \<noteq> t" using ch 3 assms(2) by auto
    have tw: "takeWhile (\<lambda>x. until ?s1 x \<le> w) ys = takeWhile (\<lambda>x. until s x \<le> w) ys"
      using assms(2) 3 by (intro takeWhile_cong) auto
    have pos: "sleepq_position w h ?s1 = Some (last as)"
      using sleepq_position_last [of ?s1 h ys w] ch1 q 3 unfolding tw as_def by simp
    let ?s2 = "set_task t (\<lambda>k. k\<lparr>t_sleep_next := t_sleep_next (k_tasks ?s1 (last as))\<rparr>) ?s1"
    let ?s' = "set_task (last as) (\<lambda>k. k\<lparr>t_sleep_next := Some t\<rparr>) ?s2"
    have ne: "last as \<noteq> t" using assms(2) xs by auto
    have "only_sleep s ?s'"
      by (rule only_sleep_trans [OF only_sleep_trans [OF only_sleep_set(3) only_sleep_set(1)] only_sleep_set(1)])
    moreover have "task_sleep_next ?s' =
        (task_sleep_next s)(t := task_sleep_next s (last as), last as := Some t)"
      using ne by (auto simp: task_sleep_next_def)
    then have "sleep_list ?s' (as @ t # bs)"
      using chain_insert [of "task_sleep_next s" "k_sleep_queue s" as bs None t] ch assms(2) xs
      by (auto simp: sleep_list_def)
    moreover have "until ?s' = (until s)(t := w)" by simp
    moreover have "sorted (map ((until s)(t := w)) (as @ t # bs))"
    proof (rule sorted_insert_mid)
      show "sorted (map (until s) as)" "sorted (map (until s) bs)"
        using srt by (simp_all add: xs sorted_append)
      show "\<forall>x \<in> set as. until s x \<le> w" "\<forall>x \<in> set bs. w \<le> until s x"
        using sorted_takeWhile_dropWhile [of "until s" ys w] srt 3 by (auto simp: as_def bs_def)
    qed (use assms(2) xs in auto)
    moreover have "sleepq_insert t w s = Some ?s'"
      using 3 q pos ne by (simp add: sleepq_insert_def Let_def until_def)
    ultimately show ?thesis
      using xs by (intro exI [of _ ?s'] exI [of _ as] exI [of _ bs]) (simp only: sleep_sorted_def simp_thms)
  qed
qed

text \<open>The invariant of the queue: sorted, and a task is queued exactly when it has a wake-up tick.\<close>

definition sleep_inv :: "kst \<Rightarrow> ptr list \<Rightarrow> bool" where
  "sleep_inv s xs \<longleftrightarrow> sleep_sorted s xs \<and> (\<forall>t. until s t \<noteq> 0 \<longleftrightarrow> t \<in> set xs)"

text \<open>
  C24. Going to sleep until a tick other than 0 inserts the task into the sleep queue so that the
  queue stays sorted by wake-up tick; the others keep their order, and nothing but sleep queue
  fields changes.
\<close>

theorem sleepq_insert_sorted:
  assumes "sleep_inv s xs" "t \<notin> set xs" "w \<noteq> 0"
  shows "\<exists>s' as bs. sleepq_insert t w s = Some s' \<and> xs = as @ bs \<and> sleep_inv s' (as @ t # bs) \<and>
    until s' = (until s)(t := w) \<and> only_sleep s s'"
proof -
  have "sleep_sorted s xs" using assms(1) by (simp add: sleep_inv_def)
  from sleepq_insert_split [OF this assms(2), of w] obtain s' as bs where
    s': "sleepq_insert t w s = Some s'" "xs = as @ bs" "sleep_sorted s' (as @ t # bs)"
    "until s' = (until s)(t := w)" "only_sleep s s'" by blast
  have "until s' x \<noteq> 0 \<longleftrightarrow> x \<in> set (as @ t # bs)" for x
    using assms(1,3) unfolding s'(2,4) sleep_inv_def by simp
  with s' show ?thesis unfolding sleep_inv_def by blast
qed

lemma sleepq_before_absent:
  "chain (task_sleep_next s) p xs None \<Longrightarrow> t \<notin> set xs \<Longrightarrow> sleepq_before t p s = Some None"
proof (induction xs arbitrary: p)
  case (Cons x xs)
  then show ?case by (cases xs) (subst sleepq_before.simps; auto simp: task_sleep_next_def)+
qed (subst sleepq_before.simps, simp)

lemma sleepq_before_last:
  "chain (task_sleep_next s) p (as @ t # bs) None \<Longrightarrow> as \<noteq> [] \<Longrightarrow> t \<notin> set as \<Longrightarrow>
   sleepq_before t p s = Some (Some (last as))"
proof (induction as arbitrary: p)
  case (Cons a as)
  then show ?case
    by (cases as) (subst sleepq_before.simps; auto simp: task_sleep_next_def)+
qed simp

lemma sleepq_remove_queued:
  assumes "sleep_inv s (as @ t # bs)"
  shows "\<exists>s'. sleepq_remove t s = Some s' \<and> sleep_inv s' (as @ bs) \<and> until s' = (until s)(t := 0) \<and>
    only_sleep s s'"
proof -
  let ?s1 = "set_task t (\<lambda>k. k\<lparr>t_sleep_until := 0\<rparr>) s"
  have ch: "chain (task_sleep_next s) (k_sleep_queue s) (as @ t # bs) None" "distinct (as @ t # bs)"
    and srt: "sorted (map (until s) (as @ t # bs))" and mem: "\<And>x. until s x \<noteq> 0 \<longleftrightarrow> x \<in> set (as @ t # bs)"
    using assms by (auto simp: sleep_inv_def sleep_sorted_def sleep_list_def)
  have nz: "t_sleep_until (k_tasks s t) \<noteq> 0" using mem [of t] by (simp add: until_def)
  have links: "task_sleep_next ?s1 = task_sleep_next s" by (auto simp: task_sleep_next_def)
  have srt': "sorted (map ((until s)(t := 0)) (as @ bs))"
    using srt ch(2) by (subst sorted_map_upd) (auto simp: sorted_append)
  have mem': "((until s)(t := 0)) x \<noteq> 0 \<longleftrightarrow> x \<in> set (as @ bs)" for x
    using mem [of x] ch(2) by auto
  show ?thesis
  proof (cases "as = []")
    case True
    let ?s' = "set_task t (\<lambda>k. k\<lparr>t_sleep_next := None\<rparr>) (?s1\<lparr>k_sleep_queue := task_sleep_next s t\<rparr>)"
    have q: "k_sleep_queue s = Some t" using ch True by simp
    have "sleepq_remove t s = Some ?s'"
      using nz q by (simp add: sleepq_remove_def Let_def task_sleep_next_def)
    moreover have "sleep_list ?s' bs" using ch True by (auto simp: sleep_list_def links)
    moreover have "only_sleep s ?s'"
      by (rule only_sleep_trans [OF only_sleep_trans [OF only_sleep_set(2) only_sleep_set(4)] only_sleep_set(1)])
    ultimately show ?thesis
      using srt' mem' True by (intro exI [of _ ?s']) (simp add: sleep_inv_def sleep_sorted_def)
  next
    case False
    let ?s2 = "set_task (last as) (\<lambda>k. k\<lparr>t_sleep_next := t_sleep_next (k_tasks ?s1 t)\<rparr>) ?s1"
    let ?s' = "set_task t (\<lambda>k. k\<lparr>t_sleep_next := None\<rparr>) ?s2"
    have ne: "last as \<noteq> t" "k_sleep_queue s \<noteq> Some t" using ch False by (cases as; auto)+
    have "sleepq_before t (k_sleep_queue s) ?s1 = Some (Some (last as))"
      by (rule sleepq_before_last) (use ch False links in auto)
    then have "sleepq_remove t s = Some ?s'"
      using nz ne by (simp add: sleepq_remove_def Let_def)
    moreover have "task_sleep_next ?s' = (task_sleep_next s)(last as := task_sleep_next s t, t := None)"
      using ne by (auto simp: task_sleep_next_def)
    then have "sleep_list ?s' (as @ bs)"
      using chain_delete [OF ch(1) False ch(2)] ch(2) by (auto simp: sleep_list_def)
    moreover have "only_sleep s ?s'"
      by (rule only_sleep_trans [OF only_sleep_trans [OF only_sleep_set(2) only_sleep_set(1)] only_sleep_set(1)])
    ultimately show ?thesis
      using srt' mem' by (intro exI [of _ ?s']) (simp add: sleep_inv_def sleep_sorted_def)
  qed
qed

lemma sleepq_remove_spec:
  assumes "sleep_inv s xs"
  obtains s' where "sleepq_remove t s = Some s'" "sleep_inv s' (remove1 t xs)"
    "until s' = (until s)(t := 0)" "only_sleep s s'"
proof (cases "t \<in> set xs")
  case True
  then obtain as bs where xs: "xs = as @ t # bs" "t \<notin> set as" by (meson split_list_first)
  then have "remove1 t xs = as @ bs" by (simp add: remove1_append)
  with that sleepq_remove_queued [of s as t bs] assms xs show ?thesis by auto
next
  case False
  then have "until s t = 0" using assms by (auto simp: sleep_inv_def)
  then have "sleepq_remove t s = Some s" "until s = (until s)(t := 0)"
    by (auto simp: sleepq_remove_def until_def)
  with that [of s] assms False show ?thesis by (simp add: remove1_idem)
qed

text \<open>What the timer does to a task whose time has come.\<close>

definition woken :: "task \<Rightarrow> task" where
  "woken k = k\<lparr>t_sleep_next := None, t_sleep_until := 0,
     t_state := (if t_state k = TASK_WAITING then TASK_READY else t_state k)\<rparr>"

lemma sleepq_drain_step:
  "sleepq_drain cur s =
     (case k_sleep_queue s of
        None \<Rightarrow> Some s
      | Some t \<Rightarrow> if until s t \<le> cur
                  then sleepq_drain cur (set_task t woken (s\<lparr>k_sleep_queue := task_sleep_next s t\<rparr>))
                  else Some s)"
  by (subst sleepq_drain.simps) (simp add: until_def task_sleep_next_def woken_def [abs_def] split: option.splits)

lemma until_woken [simp]: "until (set_task p woken s) = (until s)(p := 0)"
  by (auto simp: until_def woken_def)

lemma sleep_inv_pop:
  assumes "sleep_inv s (x # xs)"
  shows "k_sleep_queue s = Some x" "x \<notin> set xs"
    "sleep_inv (set_task x woken (s\<lparr>k_sleep_queue := task_sleep_next s x\<rparr>)) xs"
proof -
  have ch: "k_sleep_queue s = Some x" "chain (task_sleep_next s) (task_sleep_next s x) xs None"
    "distinct (x # xs)" and srt: "sorted (map (until s) (x # xs))"
    and mem: "\<And>t. until s t \<noteq> 0 \<longleftrightarrow> t \<in> set (x # xs)"
    using assms by (auto simp: sleep_inv_def sleep_sorted_def sleep_list_def)
  then show "k_sleep_queue s = Some x" "x \<notin> set xs" by simp_all
  have "((until s)(x := 0)) t \<noteq> 0 \<longleftrightarrow> t \<in> set xs" for t using mem [of t] ch(3) by auto
  then show "sleep_inv (set_task x woken (s\<lparr>k_sleep_queue := task_sleep_next s x\<rparr>)) xs"
    using ch srt by (simp add: sleep_inv_def sleep_sorted_def sleep_list_def sorted_map_upd)
qed

lemma kst_same: "s\<lparr>k_tasks := k_tasks s, k_sleep_queue := k_sleep_queue s\<rparr> = s"
  by simp

lemma sleepq_drain_spec:
  assumes "sleep_inv s xs"
  shows "\<exists>ts q. sleepq_drain cur s = Some (s\<lparr>k_tasks := ts, k_sleep_queue := q\<rparr>) \<and>
    sleep_inv (s\<lparr>k_tasks := ts, k_sleep_queue := q\<rparr>) (filter (\<lambda>t. cur < until s t) xs) \<and>
    (\<forall>t. ts t = (if t \<in> set xs \<and> until s t \<le> cur then woken (k_tasks s t) else k_tasks s t))"
  using assms
proof (induction xs arbitrary: s)
  case Nil
  then have "k_sleep_queue s = None" by (simp add: sleep_inv_def sleep_sorted_def sleep_list_def)
  then have "sleepq_drain cur s = Some s" by (subst sleepq_drain_step) simp
  with Nil show ?case
    by (intro exI [of _ "k_tasks s"] exI [of _ "k_sleep_queue s"]) (simp only: kst_same, simp)
next
  case (Cons x xs)
  note pop = sleep_inv_pop [OF Cons.prems]
  show ?case
  proof (cases "until s x \<le> cur")
    case True
    let ?s1 = "set_task x woken (s\<lparr>k_sleep_queue := task_sleep_next s x\<rparr>)"
    obtain ts q where ih: "sleepq_drain cur ?s1 = Some (?s1\<lparr>k_tasks := ts, k_sleep_queue := q\<rparr>)"
      "sleep_inv (?s1\<lparr>k_tasks := ts, k_sleep_queue := q\<rparr>) (filter (\<lambda>t. cur < until ?s1 t) xs)"
      "\<forall>t. ts t = (if t \<in> set xs \<and> until ?s1 t \<le> cur then woken (k_tasks ?s1 t) else k_tasks ?s1 t)"
      using Cons.IH [OF pop(3)] by blast
    have s1: "?s1\<lparr>k_tasks := ts, k_sleep_queue := q\<rparr> = s\<lparr>k_tasks := ts, k_sleep_queue := q\<rparr>"
      by (simp add: set_task_def)
    have "sleepq_drain cur s = sleepq_drain cur ?s1"
      using True pop(1) by (subst sleepq_drain_step) simp
    then have "sleepq_drain cur s = Some (s\<lparr>k_tasks := ts, k_sleep_queue := q\<rparr>)" using ih(1) s1 by simp
    moreover have "filter (\<lambda>t. cur < until ?s1 t) xs = filter (\<lambda>t. cur < until s t) (x # xs)"
      using True pop(2) by (auto intro!: filter_cong)
    then have "sleep_inv (s\<lparr>k_tasks := ts, k_sleep_queue := q\<rparr>) (filter (\<lambda>t. cur < until s t) (x # xs))"
      using ih(2) s1 by simp
    moreover have "ts t = (if t \<in> set (x # xs) \<and> until s t \<le> cur then woken (k_tasks s t) else k_tasks s t)" for t
      using ih(3) True pop(2) by auto
    ultimately show ?thesis by blast
  next
    case False
    have late: "\<forall>t \<in> set (x # xs). cur < until s t"
      using Cons.prems False by (auto simp: sleep_inv_def sleep_sorted_def intro: less_le_trans)
    then have "filter (\<lambda>t. cur < until s t) (x # xs) = x # xs" by (auto intro!: filter_True)
    moreover have "sleepq_drain cur s = Some s" using False pop(1) by (subst sleepq_drain_step) simp
    moreover have "k_tasks s t = (if t \<in> set (x # xs) \<and> until s t \<le> cur then woken (k_tasks s t) else k_tasks s t)" for t
      using late by (metis not_le)
    ultimately show ?thesis
      using Cons.prems by (intro exI [of _ "k_tasks s"] exI [of _ "k_sleep_queue s"]) (simp only: kst_same, blast)
  qed
qed

text \<open>
  C26. The timer's wake-up loop ends; it makes every queued task whose tick has come ready (if it was
  waiting) and takes it off the queue, and leaves every other task, and the order of the rest of
  the queue, as they were: nobody oversleeps and nobody wakes early.
\<close>

theorem sleepq_drain_wakes:
  assumes "sleep_inv s xs"
  shows "\<exists>s'. sleepq_drain cur s = Some s' \<and> sleep_inv s' (filter (\<lambda>t. cur < until s t) xs) \<and>
    (\<forall>t. k_tasks s' t = (if t \<in> set xs \<and> until s t \<le> cur then woken (k_tasks s t) else k_tasks s t))"
proof -
  obtain ts q where "sleepq_drain cur s = Some (s\<lparr>k_tasks := ts, k_sleep_queue := q\<rparr>)"
    "sleep_inv (s\<lparr>k_tasks := ts, k_sleep_queue := q\<rparr>) (filter (\<lambda>t. cur < until s t) xs)"
    "\<forall>t. ts t = (if t \<in> set xs \<and> until s t \<le> cur then woken (k_tasks s t) else k_tasks s t)"
    using sleepq_drain_spec [OF assms, of cur] by blast
  then show ?thesis by (intro exI [of _ "s\<lparr>k_tasks := ts, k_sleep_queue := q\<rparr>"]) simp
qed

lemma small_kernel_sleep: "sleep_inv small_kernel [30]"
  by (auto simp: sleep_inv_def sleep_sorted_def sleep_list_def until_def task_sleep_next_def
      small_kernel_def blank_task_def)

theorem sleepq_insert_sorted_witness:
  "\<exists>s' as bs. sleepq_insert 10 20 small_kernel = Some s' \<and> [30] = as @ bs \<and> sleep_inv s' (as @ 10 # bs) \<and>
     until s' = (until small_kernel)(10 := 20) \<and> only_sleep small_kernel s'"
  using sleepq_insert_sorted [OF small_kernel_sleep, of 10 20] by simp

theorem sleepq_drain_wakes_witness:
  "\<exists>s'. sleepq_drain 50 small_kernel = Some s' \<and> sleep_inv s' [] \<and> k_tasks s' 30 = woken (k_tasks small_kernel 30)"
proof -
  have "until small_kernel 30 = 50" by (simp add: until_def small_kernel_def)
  then show ?thesis using sleepq_drain_wakes [OF small_kernel_sleep, of 50] by auto
qed

section \<open>Signals\<close>

text \<open>Everything but states, pending signals and the sleep queue is the same.\<close>

definition same_graph :: "kst \<Rightarrow> kst \<Rightarrow> bool" where
  "same_graph s s' \<longleftrightarrow>
     task_next s' = task_next s \<and>
     (\<forall>p. t_id (k_tasks s' p) = t_id (k_tasks s p) \<and> t_parent (k_tasks s' p) = t_parent (k_tasks s p) \<and>
        t_fd_table (k_tasks s' p) = t_fd_table (k_tasks s p) \<and>
        t_sigterm_handler (k_tasks s' p) = t_sigterm_handler (k_tasks s p) \<and>
        t_magic (k_tasks s' p) = t_magic (k_tasks s p) \<and> t_guard (k_tasks s' p) = t_guard (k_tasks s p) \<and>
        t_user_esp (k_tasks s' p) = t_user_esp (k_tasks s p) \<and>
        t_kernel_stack (k_tasks s' p) = t_kernel_stack (k_tasks s p) \<and>
        t_kernel_stack_base (k_tasks s' p) = t_kernel_stack_base (k_tasks s p) \<and>
        t_page_directory (k_tasks s' p) = t_page_directory (k_tasks s p)) \<and>
     k_scheduler s' = k_scheduler s \<and> k_irq_depth s' = k_irq_depth s \<and> k_next_pid s' = k_next_pid s \<and>
     k_cpu_kstack_base s' = k_cpu_kstack_base s \<and> k_cpu_kstack_top s' = k_cpu_kstack_top s \<and>
     k_brk s' = k_brk s \<and> k_ready_queue s' = k_ready_queue s \<and> k_current s' = k_current s \<and> k_rq_lock s' = k_rq_lock s \<and>
     k_live s' = k_live s \<and> k_files s' = k_files s \<and> k_nodes s' = k_nodes s \<and> k_pipes s' = k_pipes s"

lemma same_graph_refl [simp]: "same_graph s s"
  by (simp add: same_graph_def)

lemma same_graph_trans: "same_graph s s1 \<Longrightarrow> same_graph s1 s2 \<Longrightarrow> same_graph s s2"
  by (simp add: same_graph_def)

lemma same_graph_ring: "same_graph s s' \<Longrightarrow> ready_ring s' xs \<longleftrightarrow> ready_ring s xs"
  by (simp add: same_graph_def ready_ring_def)

lemma only_sleep_frame:
  assumes "only_sleep s s'"
  shows "same_graph s s'" "t_state (k_tasks s' p) = t_state (k_tasks s p)"
    "t_pending_signals (k_tasks s' p) = t_pending_signals (k_tasks s p)"
proof -
  obtain ts q where s': "s' = s\<lparr>k_tasks := ts, k_sleep_queue := q\<rparr>" "\<And>p. same_but_sleep (k_tasks s p) (ts p)"
    using assms by (auto simp: only_sleep_def)
  have "t_next (ts p) = t_next (k_tasks s p) \<and> t_id (ts p) = t_id (k_tasks s p) \<and>
      t_parent (ts p) = t_parent (k_tasks s p) \<and> t_fd_table (ts p) = t_fd_table (k_tasks s p) \<and>
      t_sigterm_handler (ts p) = t_sigterm_handler (k_tasks s p) \<and> t_state (ts p) = t_state (k_tasks s p) \<and>
      t_pending_signals (ts p) = t_pending_signals (k_tasks s p) \<and> t_magic (ts p) = t_magic (k_tasks s p) \<and>
      t_guard (ts p) = t_guard (k_tasks s p) \<and> t_user_esp (ts p) = t_user_esp (k_tasks s p) \<and>
      t_kernel_stack (ts p) = t_kernel_stack (k_tasks s p) \<and> t_page_directory (ts p) = t_page_directory (k_tasks s p) \<and>
      t_kernel_stack_base (ts p) = t_kernel_stack_base (k_tasks s p)" for p
    using s'(2) [of p] by (auto simp: same_but_sleep_def)
  then show "same_graph s s'" "t_state (k_tasks s' p) = t_state (k_tasks s p)"
    "t_pending_signals (k_tasks s' p) = t_pending_signals (k_tasks s p)"
    by (auto simp: s'(1) same_graph_def task_next_def)
qed

text \<open>The states after task \<open>t\<close> has been terminated.\<close>

definition killed_states :: "ptr \<Rightarrow> kst \<Rightarrow> ptr \<Rightarrow> tstate" where
  "killed_states t s p =
     (if p = t then TASK_ZOMBIE
      else if t_parent (k_tasks s t) = Some p \<and> t_state (k_tasks s p) = TASK_WAITING then TASK_READY
      else t_state (k_tasks s p))"

lemma notify_parent_frame:
  "same_graph s (notify_parent t s)" "until (notify_parent t s) = until s"
  "task_sleep_next (notify_parent t s) = task_sleep_next s"
  "k_sleep_queue (notify_parent t s) = k_sleep_queue s"
  by (auto simp: notify_parent_def same_graph_def task_next_def task_sleep_next_def until_def split: option.splits)

lemma do_terminate_spec:
  assumes "sleep_inv s xs" "t_state (k_tasks s t) \<noteq> TASK_ZOMBIE"
  obtains s' where
    "do_terminate t s = (if t = k_current s then Hang (s'\<lparr>k_irq_depth := 0\<rparr>) else Ret s')"
    "sleep_inv s' (remove1 t xs)" "same_graph s s'"
    "\<And>p. t_state (k_tasks s' p) = killed_states t s p"
    "\<And>p. t_pending_signals (k_tasks s' p) = (if t_parent (k_tasks s t) = Some p
        then t_pending_signals (k_tasks s p) OR SIG_BIT SIGCHLD else t_pending_signals (k_tasks s p))"
proof -
  obtain s1 where s1: "sleepq_remove t s = Some s1" "sleep_inv s1 (remove1 t xs)" "only_sleep s s1"
    using assms(1) by (rule sleepq_remove_spec)
  note fr = only_sleep_frame [OF s1(3)]
  let ?s2 = "set_task t (\<lambda>k. k\<lparr>t_state := TASK_ZOMBIE\<rparr>) s1"
  let ?s3 = "notify_parent t ?s2"
  have "same_graph s1 ?s2" by (simp add: same_graph_def)
  with fr(1) have "same_graph s ?s2" by (rule same_graph_trans)
  then have g2: "same_graph s ?s2" "t_state (k_tasks ?s2 p) = (if p = t then TASK_ZOMBIE else t_state (k_tasks s p))"
    "t_pending_signals (k_tasks ?s2 p) = t_pending_signals (k_tasks s p)" for p
    using fr(2,3) by auto
  have par: "t_parent (k_tasks s1 t) = t_parent (k_tasks s t)"
    using fr(1) by (simp add: same_graph_def)
  have "sleep_inv ?s2 (remove1 t xs)"
    using s1(2) by (simp add: sleep_inv_def sleep_sorted_def sleep_list_def until_keep)
  then have "sleep_inv ?s3 (remove1 t xs)"
    by (simp add: sleep_inv_def sleep_sorted_def sleep_list_def notify_parent_frame)
  moreover have g3: "same_graph s ?s3"
    using same_graph_trans [OF g2(1) notify_parent_frame(1)] .
  moreover have "do_terminate t s = (if t = k_current s then Hang (?s3\<lparr>k_irq_depth := 0\<rparr>) else Ret ?s3)"
    using assms(2) s1(1) g3 by (simp add: do_terminate_def Let_def same_graph_def)
  moreover have "t_state (k_tasks ?s3 p) = killed_states t s p"
    "t_pending_signals (k_tasks ?s3 p) = (if t_parent (k_tasks s t) = Some p
        then t_pending_signals (k_tasks s p) OR SIG_BIT SIGCHLD else t_pending_signals (k_tasks s p))" for p
    using g2(2,3) [of p] by (auto simp: notify_parent_def killed_states_def par split: option.splits)
  ultimately show ?thesis using that by blast
qed

definition has_pid :: "int \<Rightarrow> kst \<Rightarrow> ptr \<Rightarrow> bool" where
  "has_pid pid s t \<longleftrightarrow> t_id (k_tasks s t) = word_of_int pid"

lemma ready_ring_lock [simp]:
  "ready_ring (s\<lparr>k_rq_lock := b\<rparr>) rs = ready_ring s rs" "has_pid pid (s\<lparr>k_rq_lock := b\<rparr>) = has_pid pid s"
  "sleep_inv (s\<lparr>k_rq_lock := b\<rparr>) xs = sleep_inv s xs" "killed_states t (s\<lparr>k_rq_lock := b\<rparr>) = killed_states t s"
  by (auto simp: ready_ring_def has_pid_def sleep_inv_def sleep_sorted_def sleep_list_def until_def [abs_def]
      killed_states_def)

text \<open>
  C28. Killing another live task by its process id terminates exactly that task: it becomes a zombie
  and leaves the sleep queue, its parent is sent \<open>SIGCHLD\<close> and is made ready if it was waiting, and
  the ring of tasks and all other tasks' states are unchanged.
\<close>

theorem kill_terminates:
  assumes "ready_ring s rs" "sleep_inv s xs" "find (has_pid pid s) rs = Some t" "pid \<noteq> 2"
    and "t_state (k_tasks s t) \<noteq> TASK_ZOMBIE" "t \<noteq> k_current s"
  shows "\<exists>s'. kill pid s = Ret s' \<and> (\<forall>p. t_state (k_tasks s' p) = killed_states t s p) \<and>
    sleep_inv s' (remove1 t xs) \<and> ready_ring s' rs \<and> same_graph s s' \<and>
    (\<forall>p. t_parent (k_tasks s t) = Some p \<longrightarrow>
       t_pending_signals (k_tasks s' p) = t_pending_signals (k_tasks s p) OR SIG_BIT SIGCHLD)"
proof -
  obtain s' where s': "do_terminate t s = (if t = k_current s then Hang (s'\<lparr>k_irq_depth := 0\<rparr>) else Ret s')"
    "sleep_inv s' (remove1 t xs)" "same_graph s s'" "\<And>p. t_state (k_tasks s' p) = killed_states t s p"
    "\<And>p. t_pending_signals (k_tasks s' p) = (if t_parent (k_tasks s t) = Some p
        then t_pending_signals (k_tasks s p) OR SIG_BIT SIGCHLD else t_pending_signals (k_tasks s p))"
    using assms(2,5) by (rule do_terminate_spec) blast
  have "kill pid s = Ret s'"
    using ring_search [OF assms(1), of "\<lambda>t s. has_pid pid s t" "\<lambda>t. task_deliver_signal t SIGKILL"]
      assms(1,3,4,6) s'(1)
    by (simp add: kill_def ready_ring_def has_pid_def [abs_def] task_deliver_signal_def)
  with s' show ?thesis by (auto simp: same_graph_ring [OF s'(3)] assms(1))
qed

theorem kill_terminates_witness:
  "\<exists>s'. kill 3 small_kernel = Ret s' \<and> t_state (k_tasks s' 30) = TASK_ZOMBIE \<and> sleep_inv s' [] \<and>
     ready_ring s' [10, 20, 30]"
proof -
  have "find (has_pid 3 small_kernel) [10, 20, 30] = Some 30"
    "t_state (k_tasks small_kernel 30) \<noteq> TASK_ZOMBIE" "30 \<noteq> k_current small_kernel"
    by (simp_all add: has_pid_def small_kernel_def blank_task_def)
  from kill_terminates [OF small_kernel_ring small_kernel_sleep this(1) _ this(2,3)]
  show ?thesis by (auto simp: killed_states_def)
qed

lemma task_send_signal_eq:
  assumes "ready_ring s rs" "\<not> k_rq_lock s" "pid \<noteq> 2"
  shows "task_send_signal pid sig s =
    (case find (has_pid pid s) rs of
       None \<Rightarrow> Ret (- 1, s)
     | Some t \<Rightarrow> obind (task_deliver_signal t sig (s\<lparr>k_rq_lock := True\<rparr>)) (\<lambda>s'. Ret (0, rq_release s')))"
proof -
  let ?s = "s\<lparr>k_rq_lock := True\<rparr>"
  have r: "ready_ring ?s rs" using assms(1) by simp
  have id: "s\<lparr>k_rq_lock := False\<rparr> = s" using assms(2) by simp
  show ?thesis
    using ring_search [OF r, of "\<lambda>t s. has_pid pid s t" "\<lambda>t. task_deliver_signal t sig"] assms r id
    by (auto simp: task_send_signal_def rq_acquire_def rq_release_def ready_ring_def has_pid_def [abs_def] split: option.splits)
qed

text \<open>Whether a signal ends the task it is sent to.\<close>

definition terminal :: "int \<Rightarrow> task \<Rightarrow> bool" where
  "terminal sig k \<longleftrightarrow> sig = SIGKILL \<or> (sig = SIGTERM \<or> sig = SIGINT) \<and> t_sigterm_handler k = 0"

lemma deliver_terminal: "terminal sig (k_tasks s t) \<Longrightarrow> task_deliver_signal t sig s = do_terminate t s"
  by (auto simp: terminal_def task_deliver_signal_def)

text \<open>The state after task \<open>t\<close> has been ended: its own state, its parent's, and the sleep queue.\<close>

definition terminated_to :: "ptr \<Rightarrow> ptr list \<Rightarrow> kst \<Rightarrow> kst \<Rightarrow> bool" where
  "terminated_to t xs s s' \<longleftrightarrow> sleep_inv s' (remove1 t xs) \<and> same_graph s s' \<and>
     (\<forall>p. t_state (k_tasks s' p) = killed_states t s p \<and>
        t_pending_signals (k_tasks s' p) = (if t_parent (k_tasks s t) = Some p
          then t_pending_signals (k_tasks s p) OR SIG_BIT SIGCHLD else t_pending_signals (k_tasks s p)))"

lemma send_terminal:
  assumes "ready_ring s rs" "\<not> k_rq_lock s" "sleep_inv s xs" "pid \<noteq> 2" "find (has_pid pid s) rs = Some t"
    and "terminal sig (k_tasks s t)" "t_state (k_tasks s t) \<noteq> TASK_ZOMBIE"
  obtains s' where "terminated_to t xs s s'"
    "task_send_signal pid sig s = (if t = k_current s then Hang (s'\<lparr>k_irq_depth := 0, k_rq_lock := True\<rparr>) else Ret (0, s'))"
proof -
  let ?s = "s\<lparr>k_rq_lock := True\<rparr>"
  have "sleep_inv ?s xs" "t_state (k_tasks ?s t) \<noteq> TASK_ZOMBIE" using assms(3,7) by simp_all
  then obtain s1 where s1: "do_terminate t ?s = (if t = k_current ?s then Hang (s1\<lparr>k_irq_depth := 0\<rparr>) else Ret s1)"
    "sleep_inv s1 (remove1 t xs)" "same_graph ?s s1" "\<And>p. t_state (k_tasks s1 p) = killed_states t ?s p"
    "\<And>p. t_pending_signals (k_tasks s1 p) = (if t_parent (k_tasks ?s t) = Some p
        then t_pending_signals (k_tasks ?s p) OR SIG_BIT SIGCHLD else t_pending_signals (k_tasks ?s p))"
    by (rule do_terminate_spec) blast
  let ?s' = "rq_release s1"
  have "terminated_to t xs s ?s'"
    using s1(2-5) assms(2) by (simp add: terminated_to_def same_graph_def rq_release_def task_next_def [abs_def])
  moreover have "s1\<lparr>k_irq_depth := 0\<rparr> = ?s'\<lparr>k_irq_depth := 0, k_rq_lock := True\<rparr>"
    using s1(3) by (cases s1) (simp add: rq_release_def same_graph_def)
  then have "task_send_signal pid sig s = (if t = k_current s then Hang (?s'\<lparr>k_irq_depth := 0, k_rq_lock := True\<rparr>) else Ret (0, ?s'))"
    using task_send_signal_eq [OF assms(1,2,4), of sig] assms(5) deliver_terminal [of sig ?s t] assms(6) s1(1) by simp
  ultimately show thesis by (rule that)
qed


definition handling_kernel :: kst where
  "handling_kernel = set_task 30 (\<lambda>k. k\<lparr>t_sigterm_handler := 0x401000\<rparr>) small_kernel"

lemma handling_kernel_wf: "ready_ring handling_kernel [10, 20, 30]" "sleep_inv handling_kernel [30]"
  by (auto simp: ready_ring_def ring_of_def task_next_def sleep_inv_def sleep_sorted_def sleep_list_def until_def
      task_sleep_next_def handling_kernel_def small_kernel_def blank_task_def)


end
