(* ===== verification/Sched.thy ===== *)
theory Sched
  imports Task
begin

text \<open>
  The task switch of kernel/core/task.c with its consistency checks, the round-robin policy of
  kernel/modules/sched_rr, the timer interrupt of kernel/cpu/timer.c, and signal dispatch to user
  handlers. The register frame of the interrupted task is given by its address.
\<close>

section \<open>Consistency checks\<close>

definition TASK_MAGIC :: u32 where "TASK_MAGIC = 0xCAFEBABE"
definition STACK_MAGIC :: u64 where "STACK_MAGIC = 0xCCCCCCCCCCCCCCCC"
definition MAX_TASKS :: nat where "MAX_TASKS = 128"

text \<open>\<open>validate_task\<close>: the panic it raises, if any.\<close>

definition validate_task :: "kst \<Rightarrow> ptr \<Rightarrow> string option" where
  "validate_task s t =
     (let k = k_tasks s t in
      if t_magic k \<noteq> TASK_MAGIC then Some ''validate_task: Task magic corrupted''
      else if t_kernel_stack k = 0 then Some ''validate_task: Task kernel_stack NULL''
      else if t_user_esp k = 0 then Some ''validate_task: Task user_esp NULL''
      else if t_guard k \<noteq> STACK_MAGIC then Some ''KERNEL STACK OVERFLOW''
      else None)"

text \<open>
  \<open>assert_on_kstack\<close>: the frame must lie on the task's or the CPU's kernel stack.
\<close>

definition assert_on_kstack :: "u64 \<Rightarrow> kst \<Rightarrow> string option" where
  "assert_on_kstack regs s =
     (let k = k_tasks s (k_current s) in
      if t_id k = 0 \<or> 1000 \<le> t_id k then None
      else if t_kernel_stack_base k \<le> regs \<and> regs < t_kernel_stack k then None
      else if k_cpu_kstack_base s \<le> regs \<and> regs < k_cpu_kstack_top s then None
      else Some ''KERNEL STACK ESCAPE'')"

section \<open>The round-robin policy\<close>

partial_function (option) rr_search :: "ptr \<Rightarrow> ptr \<Rightarrow> kst \<Rightarrow> ptr option" where
  "rr_search rq n s =
     (if t_state (k_tasks s n) \<noteq> TASK_READY \<and> n \<noteq> k_current s
      then rr_search rq (case t_next (k_tasks s n) of Some m \<Rightarrow> m | None \<Rightarrow> rq) s
      else Some n)"

definition round_robin_pick_next :: "kst \<Rightarrow> ptr option" where
  "round_robin_pick_next s =
     (case k_ready_queue s of
        None \<Rightarrow> Some (k_current s)
      | Some rq \<Rightarrow>
          rr_search rq (case t_next (k_tasks s (k_current s)) of Some m \<Rightarrow> m | None \<Rightarrow> rq) s)"

text \<open>The walk used when no policy is registered, with its bound on the number of steps.\<close>

fun fallback_walk :: "nat \<Rightarrow> ptr \<Rightarrow> ptr option \<Rightarrow> kst \<Rightarrow> ptr" where
  "fallback_walk 0 prev t s = prev"
| "fallback_walk (Suc n) prev t s =
     (case t of
        None \<Rightarrow> prev
      | Some p \<Rightarrow> if p = prev then prev
                  else if t_state (k_tasks s p) = TASK_READY then p
                  else fallback_walk n prev (t_next (k_tasks s p)) s)"

section \<open>The task switch\<close>

text \<open>The loop over the ready queue at the start of \<open>task_switch\<close>: was the current task seen?\<close>

definition queue_check_body :: "ptr \<Rightarrow> kst \<times> nat \<times> bool \<Rightarrow> (kst \<times> nat \<times> bool) + string" where
  "queue_check_body t = (\<lambda>(s, count, seen).
     case validate_task s t of
       Some m \<Rightarrow> Inr m
     | None \<Rightarrow> if MAX_TASKS + 2 < count + 1 then Inr ''READY QUEUE LOOP CORRUPTION''
               else Inl (s, count + 1, seen \<or> t = k_current s))"

definition esp_ok :: "kst \<Rightarrow> ptr \<Rightarrow> bool" where
  "esp_ok s t \<longleftrightarrow>
     (let k = k_tasks s t in
      \<not> ((t_user_esp k < t_kernel_stack_base k \<or> t_kernel_stack k \<le> t_user_esp k) \<and>
         (t_user_esp k < k_cpu_kstack_base s \<or> k_cpu_kstack_top s \<le> t_user_esp k)))"

text \<open>From the choice of the next task on; the lock is held on entry.\<close>

definition switch_to :: "ptr \<Rightarrow> ptr \<Rightarrow> kst \<Rightarrow> (kst, kst) outcome" where
  "switch_to prev nxt s =
     (if nxt = prev then Ret (rq_release (set_task prev (\<lambda>k. k\<lparr>t_state := TASK_RUNNING\<rparr>) s))
      else let s1 = rq_release (set_task nxt (\<lambda>k. k\<lparr>t_state := TASK_RUNNING\<rparr>) (s\<lparr>k_current := nxt\<rparr>)) in
        case validate_task s1 nxt of
          Some m \<Rightarrow> Panic m
        | None \<Rightarrow>
            let k = k_tasks s1 nxt;
                s2 = s1\<lparr>k_directory := t_page_directory k, k_tss_stack := t_kernel_stack k\<rparr>
            in if \<not> esp_ok s2 nxt then Panic ''TASK SWITCH ESP OUT OF KSTACK''
               else if t_user_esp k AND 7 \<noteq> 0 then Panic ''ESP NOT 64-BIT ALIGNED (Restore)''
               else Ret (s2\<lparr>k_task_switch_rsp := t_user_esp k\<rparr>))"

definition task_switch :: "u64 \<Rightarrow> kst \<Rightarrow> (kst, kst) outcome" where
  "task_switch regs s =
     (case k_ready_queue s of
        None \<Rightarrow> Ret s
      | Some rq \<Rightarrow>
          obind (ends (ring_loop queue_check_body (\<lambda>(s, _). task_next s) rq rq (s, 0, False))) (\<lambda>r.
          case r of
            Inr m \<Rightarrow> Panic m
          | Inl (_, _, seen) \<Rightarrow>
              if \<not> seen then
                if t_id (k_tasks s (k_current s)) = 0 \<or> 1000 \<le> t_id (k_tasks s (k_current s)) then Ret s
                else Panic ''CURRENT TASK NOT IN READY QUEUE''
              else if 1 < k_irq_depth s then Ret s
              else
                let prev = k_current s;
                    s1 = set_task prev (\<lambda>k. k\<lparr>t_user_esp := regs\<rparr>) s
                in obind (rq_acquire s1) (\<lambda>s2.
                  let s3 = (if t_state (k_tasks s2 prev) = TASK_RUNNING
                            then set_task prev (\<lambda>k. k\<lparr>t_state := TASK_READY\<rparr>) s2 else s2)
                  in obind (if k_scheduler s3 then ends (round_robin_pick_next s3)
                            else Ret (fallback_walk (MAX_TASKS + 3) prev (t_next (k_tasks s3 prev)) s3))
                     (\<lambda>nxt. switch_to prev nxt s3))))"

definition schedule :: "u64 \<Rightarrow> kst \<Rightarrow> (kst, kst) outcome" where
  "schedule regs s =
     (if k_ready_queue s = None then Panic ''READY QUEUE NULL (schedule)''
      else if 1 < k_irq_depth s then Ret s
      else case assert_on_kstack regs s of
          Some m \<Rightarrow> Panic m
        | None \<Rightarrow> task_switch regs s)"

text \<open>
  \<open>timer_callback\<close>: \<open>lapic\<close> tells whether the interrupt came from the local timer, in which case the
  handler also switches tasks.
\<close>

definition timer_callback :: "bool \<Rightarrow> u64 \<Rightarrow> kst \<Rightarrow> (kst, kst) outcome" where
  "timer_callback lapic regs s =
     (let s1 = set_task (k_current s) (\<lambda>k. k\<lparr>t_ticks := t_ticks k + 1\<rparr>) 
                  (s\<lparr>k_tick := k_tick s + 1, k_timer_ticks := k_timer_ticks s + 1\<rparr>)
      in obind (ends (sleepq_drain (k_tick s1) s1)) (\<lambda>s2.
         if lapic then task_switch regs s2 else Ret s2))"

section \<open>Round robin picks the next ready task\<close>

lemma ring_of_rotate_to:
  assumes "ring_of nx rs" "c \<in> set rs"
  obtains ys where "ring_of nx (c # ys)" "set (c # ys) = set rs" "length (c # ys) = length rs"
proof -
  obtain as bs where rs: "rs = as @ c # bs" using assms(2) by (meson split_list)
  then have "ring_of nx ((c # bs) @ as)" using assms(1) ring_of_rotate by blast
  then show ?thesis using that [of "bs @ as"] rs by auto
qed

lemma rr_search_chain:
  assumes "chain (task_next s) (Some y) (y # ys) (Some (k_current s))" "k_current s \<notin> set (y # ys)"
  shows "rr_search rq y s =
    Some (case find (\<lambda>t. t_state (k_tasks s t) = TASK_READY) (y # ys) of Some t \<Rightarrow> t | None \<Rightarrow> k_current s)"
  using assms
proof (induction ys arbitrary: y)
  case Nil
  then have "t_next (k_tasks s y) = Some (k_current s)" by (simp add: task_next_def)
  moreover have "rr_search rq (k_current s) s = Some (k_current s)" by (subst rr_search.simps) simp
  ultimately show ?case using Nil by (subst rr_search.simps) auto
next
  case (Cons z ys)
  then have "t_next (k_tasks s y) = Some z" by (simp add: task_next_def)
  with Cons show ?case by (subst rr_search.simps) auto
qed

definition next_ready :: "kst \<Rightarrow> ptr list \<Rightarrow> ptr" where
  "next_ready s ys =
     (case find (\<lambda>t. t_state (k_tasks s t) = TASK_READY) ys of Some t \<Rightarrow> t | None \<Rightarrow> k_current s)"

lemma round_robin_next:
  assumes "ring_of (task_next s) (k_current s # ys)" "k_ready_queue s \<noteq> None"
  shows "round_robin_pick_next s = Some (next_ready s ys)"
proof (cases ys)
  case Nil
  with assms have "t_next (k_tasks s (k_current s)) = Some (k_current s)"
    by (auto simp: ring_of_def task_next_def)
  moreover have "rr_search rq (k_current s) s = Some (k_current s)" for rq by (subst rr_search.simps) simp
  ultimately show ?thesis using assms(2) Nil by (auto simp: round_robin_pick_next_def next_ready_def)
next
  case (Cons y zs)
  with assms(1) have "t_next (k_tasks s (k_current s)) = Some y"
    "chain (task_next s) (Some y) (y # zs) (Some (k_current s))" "k_current s \<notin> set (y # zs)"
    by (auto simp: ring_of_def task_next_def)
  from rr_search_chain [OF this(2,3)] this(1) assms(2) Cons show ?thesis
    by (auto simp: round_robin_pick_next_def next_ready_def)
qed

section \<open>The task switch\<close>

text \<open>A frame the switch can later be resumed from.\<close>

definition frame_ok :: "u64 \<Rightarrow> ptr \<Rightarrow> kst \<Rightarrow> bool" where
  "frame_ok regs t s \<longleftrightarrow> regs \<noteq> 0 \<and> regs AND 7 = 0 \<and>
     (t_kernel_stack_base (k_tasks s t) \<le> regs \<and> regs < t_kernel_stack (k_tasks s t) \<or>
      k_cpu_kstack_base s \<le> regs \<and> regs < k_cpu_kstack_top s)"

definition task_ok :: "kst \<Rightarrow> ptr \<Rightarrow> bool" where
  "task_ok s t \<longleftrightarrow> validate_task s t = None \<and> frame_ok (t_user_esp (k_tasks s t)) t s"

text \<open>What the scheduler relies on: a ring of at most 128 sound tasks with the current one in it.\<close>

definition sched_ok :: "kst \<Rightarrow> ptr list \<Rightarrow> bool" where
  "sched_ok s rs \<longleftrightarrow>
     ready_ring s rs \<and> k_current s \<in> set rs \<and> length rs \<le> MAX_TASKS \<and> (\<forall>t \<in> set rs. task_ok s t) \<and>
     k_irq_depth s \<le> 1 \<and> \<not> k_rq_lock s \<and> k_scheduler s"

lemma frame_ok_esp: "frame_ok (t_user_esp (k_tasks s t)) t s \<Longrightarrow> esp_ok s t"
  by (auto simp: frame_ok_def esp_ok_def Let_def)

lemma queue_check_list:
  assumes "\<forall>t \<in> set xs. validate_task s t = None" "n + length xs \<le> MAX_TASKS + 2"
  shows "list_loop queue_check_body xs (s, n, b) = Inl (s, n + length xs, b \<or> k_current s \<in> set xs)"
  using assms by (induction xs arbitrary: n b) (auto simp: queue_check_body_def)

lemma queue_check_ok:
  assumes "sched_ok s rs"
  shows "ring_loop queue_check_body (\<lambda>(s, _). task_next s) (hd rs) (hd rs) (s, 0, False) =
    Some (Inl (s, length rs, True))"
proof -
  have "ring_loop queue_check_body (\<lambda>(s, _). task_next s) (hd rs) (hd rs) (s, 0, False) =
      Some (list_loop queue_check_body rs (s, 0, False))"
  proof (rule ring_loop_ring)
    show "ring_of (case (s, 0, False) of (s, _) \<Rightarrow> task_next s) rs"
      using assms by (simp add: sched_ok_def ready_ring_def)
  qed (auto simp: queue_check_body_def split: option.splits if_splits)
  also have "list_loop queue_check_body rs (s, 0, False) = Inl (s, length rs, True)"
    using assms queue_check_list [of rs s 0 False] by (auto simp: sched_ok_def task_ok_def)
  finally show ?thesis .
qed

text \<open>The task structures after a switch from \<open>c\<close> to \<open>n\<close>, with the frame of \<open>c\<close> saved.\<close>

definition switched :: "u64 \<Rightarrow> ptr \<Rightarrow> ptr \<Rightarrow> kst \<Rightarrow> ptr \<Rightarrow> task" where
  "switched regs c n s =
     (let k1 = (k_tasks s)(c := (k_tasks s c)\<lparr>t_user_esp := regs,
             t_state := (if t_state (k_tasks s c) = TASK_RUNNING then TASK_READY else t_state (k_tasks s c))\<rparr>)
      in k1(n := (k1 n)\<lparr>t_state := TASK_RUNNING\<rparr>))"

lemma next_ready_cong:
  "k_current s' = k_current s \<Longrightarrow> (\<And>t. t \<in> set ys \<Longrightarrow> t_state (k_tasks s' t) = t_state (k_tasks s t)) \<Longrightarrow>
   next_ready s' ys = next_ready s ys"
  unfolding next_ready_def by (metis (mono_tags, lifting) find_cong)

lemma next_ready_mem: "next_ready s ys \<in> insert (k_current s) (set ys)"
  by (auto simp: next_ready_def find_Some_iff split: option.splits)

lemma task_switch_spec:
  assumes ok: "sched_ok s rs" and ring: "ring_of (task_next s) (k_current s # ys)" "set ys \<subseteq> set rs"
  defines "n \<equiv> next_ready s ys"
  shows "\<exists>s'. task_switch regs s = Ret s' \<and> k_tasks s' = switched regs (k_current s) n s \<and>
    k_current s' = n \<and> k_ready_queue s' = k_ready_queue s \<and> \<not> k_rq_lock s' \<and>
    k_irq_depth s' = k_irq_depth s \<and> k_scheduler s' \<and> k_cpu_kstack_base s' = k_cpu_kstack_base s \<and>
    k_cpu_kstack_top s' = k_cpu_kstack_top s \<and> k_sleep_queue s' = k_sleep_queue s \<and>
    (n \<noteq> k_current s \<longrightarrow> k_task_switch_rsp s' = t_user_esp (k_tasks s n) \<and>
       k_directory s' = t_page_directory (k_tasks s n) \<and> k_tss_stack s' = t_kernel_stack (k_tasks s n))"
proof -
  let ?c = "k_current s"
  let ?s2 = "(set_task ?c (\<lambda>k. k\<lparr>t_user_esp := regs\<rparr>) s)\<lparr>k_rq_lock := True\<rparr>"
  let ?s3 = "if t_state (k_tasks ?s2 ?c) = TASK_RUNNING
             then set_task ?c (\<lambda>k. k\<lparr>t_state := TASK_READY\<rparr>) ?s2 else ?s2"
  have s3: "k_current ?s3 = ?c" "k_ready_queue ?s3 = k_ready_queue s" "task_next ?s3 = task_next s"
    "k_scheduler ?s3 = k_scheduler s" by (auto simp: task_next_def)
  have "k_ready_queue s = Some (hd rs)" using ok by (simp add: sched_ok_def ready_ring_def)
  moreover have "?c \<notin> set ys" using ring(1) by (simp add: ring_of_def)
  then have "next_ready ?s3 ys = n" unfolding n_def by (intro next_ready_cong) auto
  then have "round_robin_pick_next ?s3 = Some n"
    using round_robin_next [of ?s3 ys] ring(1) calculation s3 by simp
  ultimately have eq: "task_switch regs s = switch_to ?c n ?s3"
    using queue_check_ok [OF ok] ok s3(4)
    by (simp add: task_switch_def rq_acquire_def sched_ok_def Let_def flip: not_le)
  have n: "n \<in> set rs" using next_ready_mem [of s ys] ring(2) ok by (auto simp: n_def sched_ok_def)
  show ?thesis
  proof (cases "n = ?c")
    case True
    then show ?thesis unfolding eq using ok
      by (auto simp: switch_to_def rq_release_def switched_def Let_def sched_ok_def fun_eq_iff)
  next
    case False
    have "task_ok s n" using ok n by (simp add: sched_ok_def)
    then show ?thesis unfolding eq using False ok frame_ok_esp [of s n]
      by (auto simp: switch_to_def rq_release_def switched_def Let_def sched_ok_def fun_eq_iff task_ok_def
          validate_task_def esp_ok_def frame_ok_def split: if_splits)
  qed
qed

lemma switched_fields [simp]:
  "t_next (switched regs c n s p) = t_next (k_tasks s p)" "t_id (switched regs c n s p) = t_id (k_tasks s p)"
  "t_magic (switched regs c n s p) = t_magic (k_tasks s p)"
  "t_guard (switched regs c n s p) = t_guard (k_tasks s p)"
  "t_kernel_stack (switched regs c n s p) = t_kernel_stack (k_tasks s p)"
  "t_kernel_stack_base (switched regs c n s p) = t_kernel_stack_base (k_tasks s p)"
  "t_user_esp (switched regs c n s p) = (if p = c then regs else t_user_esp (k_tasks s p))"
  "t_state (switched regs c n s p) =
     (if p = n then TASK_RUNNING
      else if p = c \<and> t_state (k_tasks s p) = TASK_RUNNING then TASK_READY else t_state (k_tasks s p))"
  by (auto simp: switched_def Let_def)

lemma task_switch_ok:
  assumes ok: "sched_ok s rs" and ring: "ring_of (task_next s) (k_current s # ys)" "set (k_current s # ys) = set rs"
    and frame: "frame_ok regs (k_current s) s"
  obtains s' where "task_switch regs s = Ret s'" "k_current s' = next_ready s ys"
    "k_tasks s' = switched regs (k_current s) (next_ready s ys) s" "sched_ok s' rs"
    "k_sleep_queue s' = k_sleep_queue s"
    "k_current s' \<noteq> k_current s \<Longrightarrow> k_task_switch_rsp s' = t_user_esp (k_tasks s (k_current s'))"
proof -
  obtain s' where s': "task_switch regs s = Ret s'" "k_current s' = next_ready s ys"
    "k_tasks s' = switched regs (k_current s) (next_ready s ys) s" "k_ready_queue s' = k_ready_queue s"
    "\<not> k_rq_lock s'" "k_irq_depth s' = k_irq_depth s" "k_scheduler s'"
    "k_cpu_kstack_base s' = k_cpu_kstack_base s" "k_cpu_kstack_top s' = k_cpu_kstack_top s"
    "k_sleep_queue s' = k_sleep_queue s"
    "k_current s' \<noteq> k_current s \<longrightarrow> k_task_switch_rsp s' = t_user_esp (k_tasks s (k_current s'))"
    using task_switch_spec [OF ok ring(1), of regs] ring(2) by auto
  have "task_next s' = task_next s" by (auto simp: task_next_def s'(3))
  then have "ready_ring s' rs" using ok s'(4) by (simp add: sched_ok_def ready_ring_def)
  moreover have "task_ok s' t" if "t \<in> set rs" for t
    using ok that frame
    by (auto simp: sched_ok_def task_ok_def validate_task_def frame_ok_def s'(3,8,9) Let_def split: if_splits)
  moreover have "k_current s' \<in> set rs" using next_ready_mem [of s ys] ring(2) s'(2) by auto
  ultimately have "sched_ok s' rs" using ok s'(5,6,7) by (simp add: sched_ok_def)
  with s' that show ?thesis by blast
qed

lemma ready_ring_rotation:
  "ready_ring s (as @ c # bs) \<Longrightarrow> ring_of (task_next s) (c # bs @ as)"
  using ring_of_rotate [of "task_next s" as "c # bs"] by (simp add: ready_ring_def)

text \<open>
  C1. A task switch in a sound system never panics or hangs: it saves the interrupted frame, hands
  the CPU to the first ready task after the current one in ring order (to the current one if no
  other is ready), restores from the frame that task had saved, and leaves the system sound. If only
  the current task was running, only the new current task is.
\<close>

theorem task_switch_round_robin:
  assumes "sched_ok s (as @ k_current s # bs)" "frame_ok regs (k_current s) s"
    and "\<forall>p \<in> set (as @ bs). t_state (k_tasks s p) \<noteq> TASK_RUNNING"
  shows "\<exists>s'. task_switch regs s = Ret s' \<and> sched_ok s' (as @ k_current s # bs) \<and>
    k_current s' = next_ready s (bs @ as) \<and>
    (\<forall>p \<in> set (as @ k_current s # bs). t_state (k_tasks s' p) = TASK_RUNNING \<longleftrightarrow> p = k_current s') \<and>
    t_user_esp (k_tasks s' (k_current s)) = regs \<and>
    (k_current s' \<noteq> k_current s \<longrightarrow> k_task_switch_rsp s' = t_user_esp (k_tasks s (k_current s')))"
proof -
  have "ring_of (task_next s) (k_current s # bs @ as)"
    using assms(1) ready_ring_rotation by (auto simp: sched_ok_def)
  then obtain s' where "task_switch regs s = Ret s'" "k_current s' = next_ready s (bs @ as)"
    "k_tasks s' = switched regs (k_current s) (next_ready s (bs @ as)) s" "sched_ok s' (as @ k_current s # bs)"
    "k_current s' \<noteq> k_current s \<Longrightarrow> k_task_switch_rsp s' = t_user_esp (k_tasks s (k_current s'))"
    using task_switch_ok [OF assms(1) _ _ assms(2), of "bs @ as"] by auto
  with assms(3) show ?thesis by auto
qed

lemma small_kernel_sched: "sched_ok small_kernel ([] @ k_current small_kernel # [20, 30])"
  "frame_ok 0x2000 (k_current small_kernel) small_kernel"
  using small_kernel_ring
  by (auto simp: sched_ok_def task_ok_def frame_ok_def validate_task_def small_kernel_def blank_task_def
      MAX_TASKS_def TASK_MAGIC_def STACK_MAGIC_def)

theorem task_switch_round_robin_witness:
  "\<exists>s'. task_switch 0x2000 small_kernel = Ret s' \<and> k_current s' = 20 \<and> k_task_switch_rsp s' = 0x3F00"
proof -
  have c: "k_current small_kernel = 10" "next_ready small_kernel [20, 30] = 20"
    "t_user_esp (k_tasks small_kernel 20) = 0x3F00"
    "\<forall>p \<in> set ([] @ [20, 30]). t_state (k_tasks small_kernel p) \<noteq> TASK_RUNNING"
    by (simp_all add: small_kernel_def next_ready_def blank_task_def)
  from task_switch_round_robin [OF small_kernel_sched c(4)] show ?thesis by (auto simp: c)
qed

section \<open>No starvation\<close>

text \<open>
  Successive task switches; before each, the rest of the system changes the state by \<open>e\<close> and the
  interrupted frame is at \<open>r\<close> of the resulting state.
\<close>

fun switches :: "((kst \<Rightarrow> kst) \<times> (kst \<Rightarrow> u64)) list \<Rightarrow> kst \<Rightarrow> kst list option" where
  "switches [] s = Some []"
| "switches ((e, r) # es) s =
     (case task_switch (r (e s)) (e s) of
        Ret s' \<Rightarrow> map_option ((#) s') (switches es s')
      | _ \<Rightarrow> None)"

text \<open>What is allowed in between: the ring, the current task and the readiness of \<open>t\<close> are kept.\<close>

definition harmless :: "ptr \<Rightarrow> ptr list \<Rightarrow> (kst \<Rightarrow> kst) \<times> (kst \<Rightarrow> u64) \<Rightarrow> bool" where
  "harmless t rs = (\<lambda>(e, r). \<forall>s. sched_ok s rs \<longrightarrow>
     sched_ok (e s) rs \<and> k_current (e s) = k_current s \<and> frame_ok (r (e s)) (k_current (e s)) (e s) \<and>
     (t_state (k_tasks s t) = TASK_READY \<longrightarrow> t_state (k_tasks (e s) t) = TASK_READY))"

lemma switch_step:
  assumes "sched_ok s rs" "harmless t rs (e, r)" "rotate k rs = k_current s # ys"
  obtains s' where "task_switch (r (e s)) (e s) = Ret s'" "sched_ok s' rs" "k_current s' = next_ready (e s) ys"
    "k_tasks s' = switched (r (e s)) (k_current s) (next_ready (e s) ys) (e s)"
proof -
  have e: "sched_ok (e s) rs" "k_current (e s) = k_current s" "frame_ok (r (e s)) (k_current (e s)) (e s)"
    using assms(1,2) by (auto simp: harmless_def)
  have "ring_of (task_next (e s)) (k_current (e s) # ys)"
    using ring_of_rotate_k [of "task_next (e s)" rs k] e assms(3) by (simp add: sched_ok_def ready_ring_def)
  moreover have "set (k_current (e s) # ys) = set rs" using arg_cong [OF assms(3), of set] e(2) by simp
  ultimately obtain s' where "task_switch (r (e s)) (e s) = Ret s'" "sched_ok s' rs"
    "k_current s' = next_ready (e s) ys"
    "k_tasks s' = switched (r (e s)) (k_current (e s)) (next_ready (e s) ys) (e s)"
    using task_switch_ok [OF e(1) _ _ e(3)] by metis
  with e(2) that show ?thesis by simp
qed

lemma rotation_to:
  assumes "sched_ok s rs"
  obtains k ys where "rotate k rs = k_current s # ys"
proof -
  obtain as bs where "rs = as @ k_current s # bs" using assms by (auto simp: sched_ok_def dest: split_list)
  then have "rotate (length as) rs = k_current s # bs @ as" by (simp add: rotate_append)
  then show ?thesis using that by blast
qed

lemma switches_total:
  "sched_ok s rs \<Longrightarrow> \<forall>x \<in> set es. harmless t rs x \<Longrightarrow> \<exists>ss. switches es s = Some ss"
proof (induction es arbitrary: s)
  case (Cons x es)
  obtain e r where x: "x = (e, r)" by (cases x)
  obtain k ys where "rotate k rs = k_current s # ys" using Cons.prems(1) by (rule rotation_to)
  then obtain s' where "task_switch (r (e s)) (e s) = Ret s'" "sched_ok s' rs"
    using switch_step [OF Cons.prems(1), of t e r k ys] Cons.prems(2) x by auto
  with Cons show ?case by (fastforce simp: x)
qed simp

lemma switches_reach:
  assumes "sched_ok s rs" "\<forall>x \<in> set es. harmless t rs x" "rotate k rs = k_current s # us @ t # vs"
    and "t_state (k_tasks s t) = TASK_READY" "length us < length es"
  shows "\<exists>ss. switches es s = Some ss \<and> (\<exists>s' \<in> set ss. k_current s' = t)"
  using assms
proof (induction es arbitrary: s k us vs)
  case (Cons x es)
  obtain e r where x: "x = (e, r)" by (cases x)
  have h: "harmless t rs (e, r)" using Cons.prems(2) x by simp
  then have ready: "t_state (k_tasks (e s) t) = TASK_READY" "k_current (e s) = k_current s"
    using Cons.prems(1,4) by (auto simp: harmless_def)
  obtain s' where s': "task_switch (r (e s)) (e s) = Ret s'" "sched_ok s' rs"
    "k_current s' = next_ready (e s) (us @ t # vs)"
    "k_tasks s' = switched (r (e s)) (k_current s) (next_ready (e s) (us @ t # vs)) (e s)"
    using switch_step [OF Cons.prems(1) h Cons.prems(3)] by blast
  have dist: "distinct (k_current s # us @ t # vs)"
    using Cons.prems(1) arg_cong [OF Cons.prems(3), of distinct]
    by (simp add: sched_ok_def ready_ring_def ring_of_def)
  obtain ss where ss: "switches es s' = Some ss" using switches_total [OF s'(2), of es t] Cons.prems(2) by auto
  show ?case
  proof (cases "find (\<lambda>p. t_state (k_tasks (e s) p) = TASK_READY) us")
    case None
    then have "find (\<lambda>p. t_state (k_tasks (e s) p) = TASK_READY) (us @ t # vs) = Some t"
      using ready by (induction us) (auto split: if_splits)
    then have "k_current s' = t" using s'(3) by (simp add: next_ready_def)
    then show ?thesis using s'(1) ss by (auto simp: x)
  next
    case (Some u)
    then have "find (\<lambda>p. t_state (k_tasks (e s) p) = TASK_READY) (us @ t # vs) = Some u"
      by (induction us) (auto split: if_splits)
    then have "next_ready (e s) (us @ t # vs) = u" by (simp add: next_ready_def)
    moreover have "u \<in> set us" using Some by (auto simp: find_Some_iff)
    ultimately have u: "next_ready (e s) (us @ t # vs) = u" "u \<in> set us" .
    then obtain us1 us2 where us: "us = us1 @ u # us2" by (meson split_list)
    have "rotate (length (k_current s # us1) + k) rs =
        rotate (length (k_current s # us1)) ((k_current s # us1) @ u # us2 @ t # vs)"
      using Cons.prems(3) us rotate_rotate [of "length (k_current s # us1)" k rs] by simp
    also have "\<dots> = u # us2 @ t # vs @ k_current s # us1"
      by (subst rotate_append) simp
    finally have rot: "rotate (length (k_current s # us1) + k) rs = k_current s' # us2 @ t # (vs @ k_current s # us1)"
      using s'(3) u by simp
    have "t_state (k_tasks s' t) = TASK_READY"
      using s'(4) u us dist ready by auto
    from Cons.IH [OF s'(2) _ rot this] Cons.prems(2,5) us have
      "\<exists>ss. switches es s' = Some ss \<and> (\<exists>s'' \<in> set ss. k_current s'' = t)" by auto
    then show ?thesis using s'(1) by (auto simp: x)
  qed
qed simp

text \<open>
  C3. Round robin starves nobody: if a task of the ring is ready, and between switches the rest of
  the system keeps the ring and that task's readiness, the task gets the CPU within as many
  switches as there are other tasks, whatever the states of the others do.
\<close>

theorem round_robin_no_starvation:
  assumes "sched_ok s rs" "t \<in> set rs" "t \<noteq> k_current s" "t_state (k_tasks s t) = TASK_READY"
    and "\<forall>x \<in> set es. harmless t rs x" "length rs - 1 \<le> length es"
  shows "\<exists>ss. switches es s = Some ss \<and> (\<exists>s' \<in> set ss. k_current s' = t)"
proof -
  obtain k ys where k: "rotate k rs = k_current s # ys" using assms(1) by (rule rotation_to)
  then have len: "length rs = Suc (length ys)" and mem: "set rs = insert (k_current s) (set ys)"
    by (metis length_rotate length_Cons, metis set_rotate list.simps(15))
  then have "t \<in> set ys" using assms(2,3) by auto
  then obtain us vs where ys: "ys = us @ t # vs" by (meson split_list)
  have "length us < length es" using len ys assms(6) by simp
  with switches_reach [OF assms(1,5) _ assms(4)] k ys show ?thesis by blast
qed

theorem round_robin_no_starvation_witness:
  "\<exists>ss. switches [(id, \<lambda>s. t_user_esp (k_tasks s (k_current s))), (id, \<lambda>s. t_user_esp (k_tasks s (k_current s)))]
     small_kernel = Some ss \<and> (\<exists>s' \<in> set ss. k_current s' = 20)"
proof -
  have "20 \<noteq> k_current small_kernel" "t_state (k_tasks small_kernel 20) = TASK_READY" "k_current small_kernel = 10"
    by (simp_all add: small_kernel_def blank_task_def)
  moreover have "harmless 20 [10, 20, 30] (id, \<lambda>s. t_user_esp (k_tasks s (k_current s)))"
    by (auto simp: harmless_def sched_ok_def task_ok_def)
  ultimately show ?thesis
    using round_robin_no_starvation [of small_kernel "[10, 20, 30]" 20
        "[(id, \<lambda>s. t_user_esp (k_tasks s (k_current s))), (id, \<lambda>s. t_user_esp (k_tasks s (k_current s)))]"]
      small_kernel_sched(1)
    by simp
qed

section \<open>A signal to oneself\<close>

lemma sched_ok_same_graph:
  assumes "same_graph s s'" "sched_ok s rs"
  shows "sched_ok s' rs"
proof -
  have "task_ok s' p = task_ok s p" for p
    using assms(1) by (simp add: same_graph_def task_ok_def frame_ok_def validate_task_def Let_def)
  then show ?thesis
    using assms same_graph_ring [OF assms(1)] by (simp add: sched_ok_def) (simp add: same_graph_def)
qed

lemma sched_ok_irq0:
  "sched_ok (s\<lparr>k_rq_lock := False\<rparr>) rs \<Longrightarrow> sched_ok (s\<lparr>k_irq_depth := 0, k_rq_lock := False\<rparr>) rs"
  by (auto simp: sched_ok_def ready_ring_def task_ok_def frame_ok_def validate_task_def task_next_def [abs_def])

lemma task_switch_locked:
  assumes "sched_ok (rq_release s) rs" "k_rq_lock s"
  shows "task_switch regs s = Diverge"
proof -
  have v: "validate_task s t = None" if "t \<in> set rs" for t
    using assms(1) that by (auto simp: sched_ok_def task_ok_def validate_task_def rq_release_def)
  have "ring_of (task_next s) rs" "k_ready_queue s = Some (hd rs)" "length rs \<le> MAX_TASKS" "k_current s \<in> set rs"
    "\<not> 1 < k_irq_depth s"
    using assms(1) by (auto simp: sched_ok_def ready_ring_def rq_release_def)
  moreover from this have "ring_loop queue_check_body (\<lambda>(s, _). task_next s) (hd rs) (hd rs) (s, 0, False) =
      Some (list_loop queue_check_body rs (s, 0, False))"
    by (intro ring_loop_ring) (auto simp: queue_check_body_def split: option.splits if_splits)
  ultimately show ?thesis
    using queue_check_list [of rs s 0 False] v assms(2)
    by (simp add: task_switch_def rq_acquire_def Let_def)
qed

text \<open>
  C5. A task that sends itself a signal that ends it (\<open>SIGKILL\<close>, or \<open>SIGTERM\<close> or \<open>SIGINT\<close> without a handler)
  through \<open>task_send_signal\<close> halts for good with \<open>rq_lock\<close> held: from the resulting state neither a task
  switch nor another signal ever completes, so no other task runs again.
\<close>

theorem self_signal_deadlock:
  assumes "sched_ok s rs" "sleep_inv s xs" "find (has_pid pid s) rs = Some (k_current s)" "pid \<noteq> 2"
    and "terminal sig (k_tasks s (k_current s))" "t_state (k_tasks s (k_current s)) \<noteq> TASK_ZOMBIE"
  shows "\<exists>s'. task_send_signal pid sig s = Hang s' \<and> sched_ok (rq_release s') rs \<and>
    task_switch regs s' = Diverge \<and> (\<forall>p sig'. p \<noteq> 2 \<longrightarrow> task_send_signal p sig' s' = Diverge)"
proof -
  have ring: "ready_ring s rs" "\<not> k_rq_lock s" using assms(1) by (auto simp: sched_ok_def)
  obtain s1 where s1: "terminated_to (k_current s) xs s s1"
    "task_send_signal pid sig s = (if k_current s = k_current s then Hang (s1\<lparr>k_irq_depth := 0, k_rq_lock := True\<rparr>) else Ret (0, s1))"
    by (rule send_terminal [OF ring assms(2,4,3,5,6)])
  let ?s' = "s1\<lparr>k_irq_depth := 0, k_rq_lock := True\<rparr>"
  have g: "same_graph s s1" using s1(1) by (simp add: terminated_to_def)
  then have "\<not> k_rq_lock s1" using ring(2) by (simp add: same_graph_def)
  then have "s1 = s1\<lparr>k_rq_lock := False\<rparr>" by simp
  with sched_ok_same_graph [OF g assms(1)] have "sched_ok (s1\<lparr>k_rq_lock := False\<rparr>) rs" by metis
  then have ok: "sched_ok (rq_release ?s') rs" using sched_ok_irq0 [of s1 rs] by (simp add: rq_release_def)
  moreover have "task_switch regs ?s' = Diverge" by (rule task_switch_locked [OF ok]) simp
  ultimately show ?thesis using s1(2) by (auto simp: task_send_signal_def rq_acquire_def)
qed

theorem self_signal_deadlock_witness:
  "\<exists>s'. task_send_signal 1 2 small_kernel = Hang s' \<and> task_switch 0x2000 s' = Diverge"
proof -
  have c: "k_current small_kernel = 10" "find (has_pid 1 small_kernel) [10, 20, 30] = Some (k_current small_kernel)"
    "terminal 2 (k_tasks small_kernel (k_current small_kernel))"
    "t_state (k_tasks small_kernel (k_current small_kernel)) \<noteq> TASK_ZOMBIE"
    by (simp_all add: small_kernel_def has_pid_def blank_task_def terminal_def SIGINT_def SIGTERM_def SIGKILL_def)
  have "sched_ok small_kernel [10, 20, 30]" using small_kernel_sched(1) c(1) by simp
  from self_signal_deadlock [OF this small_kernel_sleep c(2) _ c(3,4), where regs = "0x2000"] show ?thesis by auto
qed

end
