(* ===== verification/Signal.thy ===== *)
theory Signal
  imports Sched
begin

text \<open>
  Dispatch of queued signals to a user handler and the return from it: \<open>task_check_pending_signals\<close>
  of kernel/core/task.c, and the system calls \<open>SIGACTION\<close> and \<open>SIGRETURN\<close> of
  kernel/core/syscall_dispatch.c. User memory is byte addressed; the register frame is that of
  kernel/cpu/isr.h.
\<close>

record registers =
  r_gs :: u64
  r_fs :: u64
  r_es :: u64
  r_ds :: u64
  r_r15 :: u64
  r_r14 :: u64
  r_r13 :: u64
  r_r12 :: u64
  r_r11 :: u64
  r_r10 :: u64
  r_r9 :: u64
  r_r8 :: u64
  r_rbp :: u64
  r_rdi :: u64
  r_rsi :: u64
  r_rdx :: u64
  r_rcx :: u64
  r_rbx :: u64
  r_rax :: u64
  r_int_no :: u64
  r_err_code :: u64
  r_rip :: u64
  r_cs :: u64
  r_rflags :: u64
  r_rsp :: u64
  r_ss :: u64

definition trampoline_code :: "u8 list" where
  "trampoline_code = [0xB8, 50, 0, 0, 0, 0xCD, 0x80]"

text \<open>The signal to dispatch, if any: \<open>SIGTERM\<close> before \<open>SIGINT\<close>.\<close>

definition pending_choice :: "task \<Rightarrow> int option" where
  "pending_choice k =
     (if t_pending_signals k AND SIG_BIT SIGTERM \<noteq> 0 then Some SIGTERM
      else if t_pending_signals k AND SIG_BIT SIGINT \<noteq> 0 then Some SIGINT
      else None)"

text \<open>
  The frame pushed on the user stack below \<open>esp\<close>: the trampoline, the signal number and the return
  address; the result is the new stack pointer and memory.
\<close>

definition signal_frame :: "bool \<Rightarrow> int \<Rightarrow> u64 \<Rightarrow> (u64 \<Rightarrow> u8) \<Rightarrow> u64 \<times> (u64 \<Rightarrow> u8)" where
  "signal_frame is_32bit sig esp m =
     (let tramp = esp - 7;
          m1 = store_bytes tramp trampoline_code m
      in if is_32bit then
           let u0 = tramp AND NOT 3;
               u1 = u0 - 4;
               m2 = store_bytes u1 (le_bytes 4 (word_of_int sig)) m1;
               u2 = u1 - 4
           in (u2, store_bytes u2 (le_bytes 4 tramp) m2)
         else
           let u0 = tramp AND NOT 7;
               u1 = u0 - 8;
               m2 = store_bytes u1 (le_bytes 8 (word_of_int sig)) m1;
               u2 = u1 - 8
           in (u2, store_bytes u2 (le_bytes 8 tramp) m2))"

definition task_check_pending_signals ::
    "registers \<Rightarrow> kst \<Rightarrow> (u64 \<Rightarrow> u8) \<Rightarrow> registers \<times> kst \<times> (u64 \<Rightarrow> u8)" where
  "task_check_pending_signals regs s m =
     (let t = k_current s; k = k_tasks s t in
      if r_cs regs AND 3 = 0 then (regs, s, m)
      else if t_in_signal k then (regs, s, m)
      else if t_sigterm_handler k = 0 then (regs, s, m)
      else case pending_choice k of
          None \<Rightarrow> (regs, s, m)
        | Some sig \<Rightarrow>
            let is_32bit = (r_cs regs AND 0xFFFF = 0x2B);
                (u, m') = signal_frame is_32bit sig (r_rsp regs) m;
                s' = set_task t (\<lambda>k. k\<lparr>t_pending_signals := t_pending_signals k AND NOT (SIG_BIT sig),
                       t_saved_eip := r_rip regs, t_saved_esp := r_rsp regs, t_in_signal := True\<rparr>) s
            in (if is_32bit
                then regs\<lparr>r_rip := ucast (ucast (t_sigterm_handler k) :: u32), r_rsp := ucast (ucast u :: u32)\<rparr>
                else regs\<lparr>r_rip := t_sigterm_handler k, r_rsp := u\<rparr>, s', m'))"

text \<open>System call 49. The handler passes through a 32-bit variable.\<close>

definition sys_sigaction :: "registers \<Rightarrow> kst \<Rightarrow> registers \<times> kst" where
  "sys_sigaction regs s =
     (let sig = sint (ucast (r_rbx regs) :: u32);
          handler = ucast (r_rcx regs) :: u32
      in if sig = SIGKILL \<or> sig = SIGCHLD then (regs\<lparr>r_rax := - 1\<rparr>, s)
         else (regs\<lparr>r_rax := 0\<rparr>, set_task (k_current s) (\<lambda>k. k\<lparr>t_sigterm_handler := ucast handler\<rparr>) s))"

text \<open>System call 50.\<close>

definition sys_sigreturn :: "registers \<Rightarrow> kst \<Rightarrow> registers \<times> kst" where
  "sys_sigreturn regs s =
     (let t = k_current s; k = k_tasks s t in
      if t_in_signal k
      then (regs\<lparr>r_rip := t_saved_eip k, r_rsp := t_saved_esp k, r_rax := 0\<rparr>,
            set_task t (\<lambda>k. k\<lparr>t_in_signal := False\<rparr>) s)
      else (regs\<lparr>r_rax := 0\<rparr>, s))"

section \<open>The signal frame\<close>

text \<open>Addresses below a stack pointer, counted downwards without wrapping.\<close>

lemma unat_below: "unat (n :: u64) \<le> unat esp \<Longrightarrow> unat (esp - n) = unat esp - unat n"
  by (simp add: unat_sub word_le_nat_alt)

lemma unat_add_small: "unat (a :: u64) + i < 2 ^ 64 \<Longrightarrow> unat (a + of_nat i) = unat a + i"
  by (simp add: unat_word_ariths unsigned_of_nat take_bit_nat_eq_self)

lemma store_bytes_above:
  assumes "unat a + length bs \<le> unat x"
  shows "store_bytes a bs m x = m x"
proof (rule store_bytes_outside)
  fix i assume i: "i < length bs"
  have "unat a + i < 2 ^ 64" using assms i unat_bounds(4) [of x] by (simp del: unat_bounds)
  then have "unat (a + of_nat i) < unat x" using assms i by (simp add: unat_add_small)
  then show "x \<noteq> a + of_nat i" by auto
qed

lemma store_bytes_below:
  assumes "unat x < unat a" "unat a + length bs \<le> 2 ^ 64"
  shows "store_bytes a bs m x = m x"
proof (rule store_bytes_outside)
  fix i assume i: "i < length bs"
  then have "unat a \<le> unat (a + of_nat i)" using assms(2) by (simp add: unat_add_small)
  then show "x \<noteq> a + of_nat i" using assms(1) by auto
qed

lemma load_bytes_cong:
  "(\<And>i. i < n \<Longrightarrow> m (a + of_nat i) = m' (a + of_nat i)) \<Longrightarrow> load_bytes a n m = load_bytes a n m'"
  by (simp add: load_bytes_def)

lemma load_bytes_above:
  assumes "unat b + length bs \<le> unat a" "unat a + n \<le> 2 ^ 64"
  shows "load_bytes a n (store_bytes b bs m) = load_bytes a n m"
proof (rule load_bytes_cong)
  fix i assume "i < n"
  then have "unat (a + of_nat i) = unat a + i" using assms(2) by (intro unat_add_small) simp
  with assms(1) show "store_bytes b bs m (a + of_nat i) = m (a + of_nat i)"
    by (intro store_bytes_above) simp
qed

lemma load_store_le [simp]: "load_bytes a n (store_bytes a (le_bytes n v) m) = le_bytes n v" if "n \<le> 8"
  using load_store_bytes [of "le_bytes n v" a m] that by simp

lemma and_not_7: "unat ((a :: u64) AND NOT 7) = unat a div 8 * 8"
proof -
  have "(7 :: u64) = mask 3" by (simp add: mask_numeral)
  then show ?thesis by (simp only: unat_and_not_mask) simp
qed

lemma and_not_3: "unat ((a :: u64) AND NOT 3) = unat a div 4 * 4"
proof -
  have "(3 :: u64) = mask 2" by (simp add: mask_numeral)
  then show ?thesis by (simp only: unat_and_not_mask) simp
qed

text \<open>Two words of \<open>w\<close> bytes pushed below the trampoline.\<close>

lemma frame_words:
  fixes esp v :: u64 and m :: "u64 \<Rightarrow> u8"
  assumes esp: "32 \<le> unat esp" and w: "w = 4 \<or> w = (8 :: nat)" and u0: "unat u0 = unat (esp - 7) div w * w"
  defines "u1 \<equiv> u0 - of_nat w"
  defines "u2 \<equiv> u1 - of_nat w"
  defines "m' \<equiv> store_bytes u2 (le_bytes w (esp - 7)) (store_bytes u1 (le_bytes w v) (store_bytes (esp - 7) trampoline_code m))"
  shows "unat u2 + 2 * w \<le> unat (esp - 7)" "unat u2 mod w = 0" "load_bytes u2 w m' = le_bytes w (esp - 7)"
    "load_bytes (u2 + of_nat w) w m' = le_bytes w v" "load_bytes (esp - 7) 7 m' = trampoline_code"
    "unat esp \<le> unat x \<Longrightarrow> m' x = m x"
proof -
  define tramp where "tramp = esp - 7"
  define m1 where "m1 = store_bytes tramp trampoline_code m"
  define m2 where "m2 = store_bytes u1 (le_bytes w v) m1"
  have m': "m' = store_bytes u2 (le_bytes w tramp) m2" by (simp add: m'_def m2_def m1_def tramp_def)
  have e: "unat u0 \<le> 2 ^ 64" "unat esp \<le> 2 ^ 64" using unsigned_less [of u0] unsigned_less [of esp] by (simp_all add: less_imp_le)
  have tr: "unat tramp = unat esp - 7" using esp by (simp add: tramp_def unat_below)
  have le: "unat u0 \<le> unat tramp" "16 \<le> unat u0" "w \<le> 8" "unat (of_nat w :: u64) = w"
    using esp tr w u0 by (auto simp: tramp_def [symmetric])
  have u1: "unat u1 = unat u0 - w" using le w unfolding u1_def by (subst unat_below) simp_all
  have u2: "unat u2 = unat u0 - 2 * w" using le u1 w unfolding u2_def by (subst unat_below) auto
  have u21: "u2 + of_nat w = u1" by (simp add: u2_def)
  have len: "length trampoline_code = 7" by (simp add: trampoline_code_def)
  show "unat u2 + 2 * w \<le> unat (esp - 7)" using u2 le w by (auto simp: tramp_def [symmetric])
  show "unat u2 mod w = 0" using u2 u0 le w by (auto simp: mod_eq_0_iff_dvd dvd_diff_nat)
  show "load_bytes u2 w m' = le_bytes w (esp - 7)" using le by (simp add: m' tramp_def)
  have "load_bytes u1 w m' = load_bytes u1 w m2"
    unfolding m' using u1 u2 le w e by (intro load_bytes_above) auto
  then show "load_bytes (u2 + of_nat w) w m' = le_bytes w v" unfolding u21 using le by (simp add: m2_def)
  have "load_bytes tramp 7 m' = load_bytes tramp 7 m2" unfolding m' using u2 le w e tr by (intro load_bytes_above) auto
  also have "\<dots> = load_bytes tramp 7 m1" unfolding m2_def using u1 le w e tr by (intro load_bytes_above) auto
  finally show "load_bytes (esp - 7) 7 m' = trampoline_code"
    using load_store_bytes [of trampoline_code tramp m] len by (simp add: m1_def tramp_def)
  show "m' x = m x" if "unat esp \<le> unat x"
    using that u1 u2 le w tr len esp unfolding m' m2_def m1_def by (subst store_bytes_above, force)+ simp
qed

definition word_size :: "bool \<Rightarrow> nat" where
  "word_size is_32bit = (if is_32bit then 4 else 8)"

lemma signal_frame_ok:
  assumes "32 \<le> unat esp"
  obtains u m' where "signal_frame b sig esp m = (u, m')"
    "unat u + 2 * word_size b \<le> unat (esp - 7)" "unat u mod word_size b = 0"
    "load_bytes u (word_size b) m' = le_bytes (word_size b) (esp - 7)"
    "load_bytes (u + of_nat (word_size b)) (word_size b) m' = le_bytes (word_size b) (word_of_int sig)"
    "load_bytes (esp - 7) 7 m' = trampoline_code"
    "\<forall>x. unat esp \<le> unat x \<longrightarrow> m' x = m x"
proof -
  define u0 where "u0 = (if b then (esp - 7) AND NOT 3 else (esp - 7) AND NOT 7)"
  have w: "word_size b = 4 \<or> word_size b = 8" "unat u0 = unat (esp - 7) div word_size b * word_size b"
    using and_not_3 [of "esp - 7"] and_not_7 [of "esp - 7"] unfolding word_size_def u0_def by (cases b; simp only: if_True if_False refl simp_thms)+
  note f = frame_words [OF assms w]
  show thesis
    by (rule that [OF _ f(1,2) f(3-5) [where v = "word_of_int sig" and m = m]])
      (use f(6) [where v = "word_of_int sig" and m = m] in \<open>auto simp: signal_frame_def Let_def word_size_def u0_def\<close>)
qed

section \<open>Dispatch and return\<close>

definition deliverable :: "task \<Rightarrow> int \<Rightarrow> bool" where
  "deliverable k sig \<longleftrightarrow> \<not> t_in_signal k \<and> t_sigterm_handler k \<noteq> 0 \<and> pending_choice k = Some sig"

definition in_32bit :: "registers \<Rightarrow> bool" where
  "in_32bit regs \<longleftrightarrow> r_cs regs AND 0xFFFF = 0x2B"

lemma low32: "unat (x :: u64) < 2 ^ 32 \<Longrightarrow> ucast (ucast x :: u32) = x"
  by (simp add: word_unat_eq_iff unsigned_ucast_eq unsigned_take_bit_eq take_bit_nat_eq_self_iff)

text \<open>
  C7. Dispatching a queued signal and returning from the handler, for 64-bit and for 32-bit user code. The
  handler is entered with an aligned stack whose top word is the address of the trampoline and whose next
  word is the signal number; the trampoline is \<open>mov eax, 50; int 0x80\<close>; nothing at or above the interrupted
  stack pointer is written; of the registers only the instruction and stack pointers change; and while the
  handler runs no further signal is dispatched. \<open>SIGRETURN\<close> resumes at the interrupted instruction and stack
  pointers, whatever registers \<open>r\<close> the handler left, and clears that signal. It restores nothing else: every
  other register keeps what the handler left, and \<open>rax\<close>, where the interrupted code expects the result of
  its system call, becomes 0.
\<close>

theorem signal_roundtrip:
  assumes "deliverable (k_tasks s (k_current s)) sig" "r_cs regs AND 3 \<noteq> 0" "32 \<le> unat (r_rsp regs)"
    and narrow: "in_32bit regs \<Longrightarrow> unat (r_rsp regs) < 2 ^ 32 \<and> unat (t_sigterm_handler (k_tasks s (k_current s))) < 2 ^ 32"
    and w: "w = word_size (in_32bit regs)"
  shows "\<exists>u s' m'. task_check_pending_signals regs s m =
      (regs\<lparr>r_rip := t_sigterm_handler (k_tasks s (k_current s)), r_rsp := u\<rparr>, s', m') \<and>
    unat u + 2 * w \<le> unat (r_rsp regs) \<and> unat u mod w = 0 \<and>
    load_bytes u w m' = le_bytes w (r_rsp regs - 7) \<and>
    load_bytes (u + of_nat w) w m' = le_bytes w (word_of_int sig) \<and>
    load_bytes (r_rsp regs - 7) 7 m' = [0xB8, 50, 0, 0, 0, 0xCD, 0x80] \<and>
    (\<forall>x. unat (r_rsp regs) \<le> unat x \<longrightarrow> m' x = m x) \<and>
    (\<forall>r m. task_check_pending_signals r s' m = (r, s', m)) \<and>
    (\<forall>r. \<exists>s''. sys_sigreturn r s' = (r\<lparr>r_rip := r_rip regs, r_rsp := r_rsp regs, r_rax := 0\<rparr>, s'') \<and>
      \<not> t_in_signal (k_tasks s'' (k_current s'')) \<and>
      t_pending_signals (k_tasks s'' (k_current s'')) =
        t_pending_signals (k_tasks s (k_current s)) AND NOT (SIG_BIT sig))"
proof -
  obtain u m' where f: "signal_frame (in_32bit regs) sig (r_rsp regs) m = (u, m')" "unat u + 2 * w \<le> unat (r_rsp regs - 7)"
    "unat u mod w = 0" "load_bytes u w m' = le_bytes w (r_rsp regs - 7)"
    "load_bytes (u + of_nat w) w m' = le_bytes w (word_of_int sig)"
    "load_bytes (r_rsp regs - 7) 7 m' = trampoline_code"
    "\<forall>x. unat (r_rsp regs) \<le> unat x \<longrightarrow> m' x = m x"
    unfolding w by (rule signal_frame_ok [OF assms(3), where sig = sig and m = m and b = "in_32bit regs"])
  let ?k = "k_tasks s (k_current s)"
  let ?s' = "set_task (k_current s) (\<lambda>k. k\<lparr>t_pending_signals := t_pending_signals k AND NOT (SIG_BIT sig),
    t_saved_eip := r_rip regs, t_saved_esp := r_rsp regs, t_in_signal := True\<rparr>) s"
  have tr: "unat (r_rsp regs - 7) = unat (r_rsp regs) - 7" using assms(3) by (simp add: unat_below)
  have low: "ucast (ucast u :: u32) = u \<and> ucast (ucast (t_sigterm_handler ?k) :: u32) = t_sigterm_handler ?k" if "in_32bit regs"
    using narrow [OF that] f(2) tr by (auto intro!: low32)
  have eq: "task_check_pending_signals regs s m = (regs\<lparr>r_rip := t_sigterm_handler ?k, r_rsp := u\<rparr>, ?s', m')"
    using assms(1,2) f(1) low by (auto simp: task_check_pending_signals_def deliverable_def Let_def in_32bit_def [symmetric])
  have quiet: "task_check_pending_signals r ?s' m = (r, ?s', m)" for r m
    by (simp add: task_check_pending_signals_def Let_def)
  have ret: "\<exists>s''. sys_sigreturn r ?s' = (r\<lparr>r_rip := r_rip regs, r_rsp := r_rsp regs, r_rax := 0\<rparr>, s'') \<and>
      \<not> t_in_signal (k_tasks s'' (k_current s'')) \<and>
      t_pending_signals (k_tasks s'' (k_current s'')) = t_pending_signals ?k AND NOT (SIG_BIT sig)" for r
    by (simp add: sys_sigreturn_def Let_def)
  show ?thesis
    by (rule exI [of _ u], rule exI [of _ ?s'], rule exI [of _ m'], intro conjI)
      (use f(2-7) tr eq quiet ret in \<open>simp_all add: trampoline_code_def\<close>)
qed

definition signalled_kernel :: kst where
  "signalled_kernel = set_task 10 (\<lambda>k. k\<lparr>t_sigterm_handler := 0x401000,
     t_pending_signals := SIG_BIT SIGTERM\<rparr>) small_kernel"

definition user_frame :: registers where
  "user_frame = \<lparr>r_gs = 0, r_fs = 0, r_es = 0, r_ds = 0, r_r15 = 0, r_r14 = 0, r_r13 = 0, r_r12 = 0, r_r11 = 0,
     r_r10 = 0, r_r9 = 0, r_r8 = 0, r_rbp = 0, r_rdi = 0, r_rsi = 0, r_rdx = 0, r_rcx = 0, r_rbx = 0, r_rax = 0,
     r_int_no = 0, r_err_code = 0, r_rip = 0x400123, r_cs = 0x1B, r_rflags = 0x202, r_rsp = 0x7FF3, r_ss = 0x23\<rparr>"

lemma signalled_kernel_deliverable: "deliverable (k_tasks signalled_kernel (k_current signalled_kernel)) 15"
  by (simp add: deliverable_def signalled_kernel_def small_kernel_def blank_task_def pending_choice_def
      SIG_BIT_def SIGTERM_def)

theorem signal_roundtrip_witness:
  "\<exists>u s' m'. task_check_pending_signals user_frame signalled_kernel (\<lambda>_. 0) = (user_frame\<lparr>r_rip := 0x401000, r_rsp := u\<rparr>, s', m') \<and>
     fst (sys_sigreturn (user_frame\<lparr>r_rbx := 7, r_rax := 9\<rparr>) s') = user_frame\<lparr>r_rbx := 7\<rparr>"
proof -
  have h: "r_cs user_frame AND 3 \<noteq> 0" "32 \<le> unat (r_rsp user_frame)" "\<not> in_32bit user_frame"
    and v: "t_sigterm_handler (k_tasks signalled_kernel (k_current signalled_kernel)) = 0x401000"
    and r: "user_frame\<lparr>r_rbx := 7, r_rax := 9\<rparr>\<lparr>r_rip := r_rip user_frame, r_rsp := r_rsp user_frame, r_rax := 0\<rparr> = user_frame\<lparr>r_rbx := 7\<rparr>"
    by (simp_all add: user_frame_def signalled_kernel_def small_kernel_def in_32bit_def)
  obtain u s' m' where "task_check_pending_signals user_frame signalled_kernel (\<lambda>_. 0) = (user_frame\<lparr>r_rip := 0x401000, r_rsp := u\<rparr>, s', m')"
    and ret: "\<forall>r. \<exists>s''. sys_sigreturn r s' = (r\<lparr>r_rip := r_rip user_frame, r_rsp := r_rsp user_frame, r_rax := 0\<rparr>, s'')"
    using signal_roundtrip [OF signalled_kernel_deliverable h(1,2) _ refl, of "\<lambda>_. 0"] h(3) unfolding v by blast
  moreover obtain s'' where "sys_sigreturn (user_frame\<lparr>r_rbx := 7, r_rax := 9\<rparr>) s' = (user_frame\<lparr>r_rbx := 7\<rparr>, s'')"
    using spec [OF ret, of "user_frame\<lparr>r_rbx := 7, r_rax := 9\<rparr>"] unfolding r by blast
  ultimately show ?thesis by (intro exI [of _ u] exI [of _ s'] exI [of _ m']) simp
qed

text \<open>
  C40. \<open>SIGACTION\<close> installs only the low 32 bits of the handler address: a handler at or above
  4 GiB is entered at another address than the one registered.
\<close>

theorem sigaction_truncates:
  assumes "2 ^ 32 \<le> r_rcx regs" "ucast (r_rbx regs) = (15 :: u32)"
  shows "\<exists>s'. sys_sigaction regs s = (regs\<lparr>r_rax := 0\<rparr>, s') \<and>
    t_sigterm_handler (k_tasks s' (k_current s')) = take_bit 32 (r_rcx regs) \<and>
    t_sigterm_handler (k_tasks s' (k_current s')) \<noteq> r_rcx regs"
proof -
  have t: "(ucast (ucast (r_rcx regs) :: u32) :: u64) = take_bit 32 (r_rcx regs)"
    by (simp add: unsigned_ucast_eq unsigned_take_bit_eq take_bit_word_eq_self)
  have "take_bit 32 (r_rcx regs) < 2 ^ 32"
    by (simp add: word_less_nat_alt unsigned_take_bit_eq take_bit_nat_less_exp [of 32, simplified])
  then have "take_bit 32 (r_rcx regs) \<noteq> r_rcx regs" using assms(1) by auto
  with assms(2) t show ?thesis by (simp add: sys_sigaction_def Let_def SIGKILL_def SIGCHLD_def)
qed

theorem sigaction_truncates_witness:
  "t_sigterm_handler (k_tasks (snd (sys_sigaction (user_frame\<lparr>r_rbx := 15, r_rcx := 0x100401000\<rparr>) small_kernel)) 10) =
     0x401000"
proof -
  let ?r = "user_frame\<lparr>r_rbx := 15, r_rcx := 0x100401000\<rparr>"
  have "2 ^ 32 \<le> r_rcx ?r" "ucast (r_rbx ?r) = (15 :: u32)" "take_bit 32 (r_rcx ?r) = 0x401000"
    by simp_all
  moreover have "k_current (snd (sys_sigaction ?r small_kernel)) = 10"
    by (simp add: sys_sigaction_def Let_def small_kernel_def)
  ultimately show ?thesis using sigaction_truncates [of ?r small_kernel] by auto
qed

end
