(* ===== verification/LinkTable.thy ===== *)
theory LinkTable
  imports Prelude
begin

text \<open>
  The contract of an allocation table: entries can be read and set independently. From it: walking
  a chain of entries, the chain being determined by its start and free of repetitions, and setting
  all entries of a list.
\<close>

section \<open>Chains\<close>

text \<open>\<open>runs nx c cs\<close>: starting at \<open>c\<close> the successor function visits \<open>cs\<close> and then leaves the table.\<close>

fun runs :: "(u32 \<Rightarrow> u32) \<Rightarrow> u32 \<Rightarrow> u32 list \<Rightarrow> bool" where
  "runs nx c [] \<longleftrightarrow> 0x0FFFFFF8 \<le> c"
| "runs nx c (x # xs) \<longleftrightarrow> c = x \<and> c < 0x0FFFFFF8 \<and> runs nx (nx x) xs"

lemma runs_unique: "runs nx c xs \<Longrightarrow> runs nx c ys \<Longrightarrow> xs = ys"
proof (induction xs arbitrary: c ys)
  case Nil
  then show ?case by (cases ys) auto
next
  case (Cons x xs)
  then show ?case by (cases ys) auto
qed

lemma runs_append: "runs nx c (xs @ y # ys) \<Longrightarrow> runs nx y (y # ys)"
  by (induction xs arbitrary: c) auto

lemma runs_distinct: "runs nx c xs \<Longrightarrow> distinct xs"
proof (induction xs arbitrary: c)
  case (Cons x xs)
  have "x \<notin> set xs"
  proof
    assume "x \<in> set xs"
    then obtain as bs where xs: "xs = as @ x # bs" by (meson split_list)
    from Cons.prems have "runs nx x (x # xs)" "runs nx x (x # bs)"
      using runs_append [of nx "nx x" as x bs] by (auto simp: xs)
    from runs_unique [OF this] show False using xs by simp
  qed
  then show ?case using Cons by auto
qed simp

lemma runs_cong: "(\<And>x. x \<in> set xs \<Longrightarrow> nx x = nx' x) \<Longrightarrow> runs nx c xs \<longleftrightarrow> runs nx' c xs"
  by (induction xs arbitrary: c) auto

lemma runs_extend:
  "runs nx c (xs @ [y]) \<Longrightarrow> n < 0x0FFFFFF8 \<Longrightarrow> n \<notin> set (xs @ [y]) \<Longrightarrow> 0x0FFFFFF8 \<le> e \<Longrightarrow>
   runs (nx(y := n, n := e)) c (xs @ [y, n])"
proof (induction xs arbitrary: c)
  case (Cons x xs)
  have "x \<noteq> y" using runs_distinct [OF Cons.prems(1)] by auto
  then show ?case using Cons by auto
qed auto

section \<open>Tables\<close>

locale link_table =
  fixes get :: "u32 \<Rightarrow> 's \<Rightarrow> u32"
    and put :: "u32 \<Rightarrow> u32 \<Rightarrow> 's \<Rightarrow> 's"
    and ok :: "'s \<Rightarrow> bool"
    and valid :: "u32 \<Rightarrow> bool"
  assumes put_ok: "ok s \<Longrightarrow> valid c \<Longrightarrow> ok (put c v s)"
    and get_put: "ok s \<Longrightarrow> valid c \<Longrightarrow> valid d \<Longrightarrow>
      get d (put c v s) = (if d = c then v AND 0x0FFFFFFF else get d s)"
begin

definition clear_all :: "u32 list \<Rightarrow> 's \<Rightarrow> 's" where
  "clear_all cs s = foldl (\<lambda>s c. put c 0 s) s cs"

lemma clear_all_simps [simp]:
  "clear_all [] s = s" "clear_all (c # cs) s = clear_all cs (put c 0 s)"
  by (simp_all add: clear_all_def)

lemma clear_all_ok: "ok s \<Longrightarrow> list_all valid cs \<Longrightarrow> ok (clear_all cs s)"
  by (induction cs arbitrary: s) (auto simp: put_ok)

lemma get_clear_all:
  "ok s \<Longrightarrow> list_all valid cs \<Longrightarrow> valid d \<Longrightarrow> get d (clear_all cs s) = (if d \<in> set cs then 0 else get d s)"
  by (induction cs arbitrary: s) (auto simp: put_ok get_put)

lemma runs_put:
  assumes "ok s" "valid c" "list_all valid xs" "c \<notin> set xs"
  shows "runs (\<lambda>d. get d (put c v s)) a xs \<longleftrightarrow> runs (\<lambda>d. get d s) a xs"
proof (rule runs_cong)
  fix x assume "x \<in> set xs"
  then have "valid x" "x \<noteq> c" using assms(3,4) by (auto simp: list_all_iff)
  then show "get x (put c v s) = get x s" using assms(1,2) get_put by simp
qed

lemma runs_link:
  assumes "ok s" "list_all valid (xs @ [y, n])" "runs (\<lambda>d. get d s) a (xs @ [y])" "n \<notin> set (xs @ [y])"
    and "n < 0x0FFFFFF8" "0x0FFFFFF8 \<le> e AND 0x0FFFFFFF"
  shows "runs (\<lambda>d. get d (put y n (put n e s))) a (xs @ [y, n])"
proof -
  have v: "valid y" "valid n" "n \<noteq> y" using assms(2,4) by auto
  have n: "n AND 0x0FFFFFFF = n"
    using assms(5) by (intro and_mask28_id) (simp add: word_less_nat_alt)
  let ?nx = "(\<lambda>d. get d s)(y := n, n := e AND 0x0FFFFFFF)"
  have r: "runs ?nx a (xs @ [y, n])"
    using assms(3-6) by (intro runs_extend) auto
  have "?nx x = get x (put y n (put n e s))"
    if "x \<in> set (xs @ [y, n])" for x
  proof -
    have "valid x" using that assms(2) by (auto simp: list_all_iff)
    then show ?thesis using v assms(1) n by (auto simp: get_put put_ok)
  qed
  from runs_cong [where nx = ?nx, OF this] r show ?thesis by blast
qed

end

end
