(* ===== verification/FatTable.thy ===== *)
theory FatTable
  imports FatFs LinkTable
begin

text \<open>
  The FAT32 allocation table implements the contract of theory LinkTable: an entry reads back as it
  was set and no other entry changes. From that, freeing a chain ends and clears exactly the chain,
  and removing a file gives back exactly its clusters.
\<close>

section \<open>Sectors of the table\<close>

definition in_table :: "fat32_mount \<Rightarrow> u32 \<Rightarrow> bool" where
  "in_table m c \<longleftrightarrow> c < EOC \<and> unat c div 128 < unat (m_sectors_per_fat m)"

definition fat_sector :: "fat32_mount \<Rightarrow> u32 \<Rightarrow> u64" where
  "fat_sector m c = ucast (m_fat_lba_start m + c * 4 div 512)"

definition fat_sectors :: "fat32_mount \<Rightarrow> u64 set" where
  "fat_sectors m = (\<lambda>k. ucast (m_fat_lba_start m + of_nat k)) ` {..<unat (m_sectors_per_fat m)}"

text \<open>The table lies below sector \<open>2 ^ 32\<close> and can be read.\<close>

definition fat_ok :: "u32 \<Rightarrow> fat32_mount \<Rightarrow> blk \<Rightarrow> bool" where
  "fat_ok dev m s \<longleftrightarrow> blk_wf s \<and> unat (m_fat_lba_start m) + unat (m_sectors_per_fat m) \<le> 2 ^ 32 \<and>
     (\<forall>l \<in> fat_sectors m. dev_read dev l s \<noteq> None)"

lemma block_write_one: "snd (kabi_block_write dev l b s) = dev.write_one dev l b s"
  by (auto simp: kabi_block_write_def dev.write_one_def dev_write_def Let_def kabi_codes split: option.splits)

lemma block_write_code:
  assumes "blk_wf s" "length b = 512" "dev_read dev l s \<noteq> None"
  shows "kabi_block_write dev l b s = (KABI_SUCCESS, dev.write_one dev l b s)"
proof -
  obtain s' where "dev_write dev l b s = Some s'" using dev.wr_ok [OF assms] by blast
  then have "kabi_block_write dev l b s = (KABI_SUCCESS, s')"
    by (auto simp: dev_write_def split: prod.splits if_splits)
  then show ?thesis using block_write_one [of dev l b s] by simp
qed

lemma entry_index:
  assumes "c < EOC"
  shows "unat (c * 4 div 512) = unat c div 128" "unat (c * 4 mod 512) = unat c mod 128 * 4"
proof -
  have "unat c < 0x0FFFFFF8" using assms by (simp add: word_less_nat_alt)
  then have "unat (c * 4) = unat c * 4" by (simp add: unat_word_ariths)
  then show "unat (c * 4 div 512) = unat c div 128" "unat (c * 4 mod 512) = unat c mod 128 * 4"
    using mod_mult_mult2 [of "unat c" 4 128] by (simp_all add: unat_div unat_mod)
qed

lemma u64_of_u32_inj: "(ucast (a :: u32) :: u64) = ucast b \<longleftrightarrow> a = b"
proof
  assume "(ucast a :: u64) = ucast b"
  then have "unat (ucast a :: u64) = unat (ucast b :: u64)" by simp
  then show "a = b" by (intro u32_eqI) (simp add: unsigned_ucast_eq take_bit_nat_eq_self unat_bounds less_trans [OF unat_bounds(3)])
qed simp

lemma unat_u32_add: "unat (a :: u32) + n < 2 ^ 32 \<Longrightarrow> unat (a + of_nat n) = unat a + n"
  by (simp add: unat_word_ariths unsigned_of_nat take_bit_nat_eq_self)

lemma fat_sector_nat:
  assumes "fat_ok dev m s" "in_table m c"
  shows "fat_sector m c = ucast (m_fat_lba_start m + of_nat (unat c div 128))" "fat_sector m c \<in> fat_sectors m"
proof -
  have "c * 4 div 512 = of_nat (unat c div 128)"
    using assms(2) entry_index(1) [of c] by (intro u32_eqI) (simp add: in_table_def unsigned_of_nat take_bit_nat_eq_self
        less_trans [OF _ unat_bounds(3) [of "m_sectors_per_fat m"]])
  then show "fat_sector m c = ucast (m_fat_lba_start m + of_nat (unat c div 128))" by (simp add: fat_sector_def)
  then show "fat_sector m c \<in> fat_sectors m" using assms(2) by (auto simp: fat_sectors_def in_table_def)
qed

lemma fat_sector_eq_iff:
  assumes "fat_ok dev m s" "in_table m c" "in_table m d"
  shows "fat_sector m c = fat_sector m d \<longleftrightarrow> unat c div 128 = unat d div 128"
proof -
  have "unat (m_fat_lba_start m) + unat x div 128 < 2 ^ 32" if "in_table m x" for x
    using assms(1) that by (simp add: fat_ok_def in_table_def)
  then have n: "unat (m_fat_lba_start m + of_nat (unat x div 128)) = unat (m_fat_lba_start m) + unat x div 128"
    if "in_table m x" for x using that by (intro unat_u32_add) simp
  have "fat_sector m c = fat_sector m d \<longleftrightarrow>
      unat (m_fat_lba_start m + of_nat (unat c div 128)) = unat (m_fat_lba_start m + of_nat (unat d div 128))"
    unfolding fat_sector_nat(1) [OF assms(1,2)] fat_sector_nat(1) [OF assms(1,3)] u64_of_u32_inj
    by (blast intro: u32_eqI arg_cong [where f = unat])
  then show ?thesis unfolding n [OF assms(2)] n [OF assms(3)] by simp
qed

section \<open>Reading and setting entries\<close>

definition new_value :: "u32 \<Rightarrow> u32 \<Rightarrow> u32" where
  "new_value old v = (old AND 0xF0000000) OR (v AND 0x0FFFFFFF)"

lemma new_value_read: "new_value old v AND 0x0FFFFFFF = v AND 0x0FFFFFFF"
proof -
  have "(0xF0000000 :: u32) = NOT 0x0FFFFFFF" by simp
  then show ?thesis
    unfolding new_value_def
    by (simp only: bit.conj_disj_distrib2 and.assoc) (simp add: and.assoc and.left_commute)
qed

lemma entry_sector:
  assumes "fat_ok dev m s" "in_table m c"
  obtains b where "dev_read dev (fat_sector m c) s = Some b" "length b = 512"
    "fat32_get_next_cluster dev m c s = get32 b (unat c mod 128 * 4) AND 0x0FFFFFFF"
    "\<And>v. fat32_set_cluster dev m c v s =
       dev.write_one dev (fat_sector m c) (put32 (unat c mod 128 * 4) (new_value (get32 b (unat c mod 128 * 4)) v) b) s"
proof -
  obtain b where b: "dev_read dev (fat_sector m c) s = Some b"
    using assms fat_sector_nat(2) [OF assms] by (auto simp: fat_ok_def)
  moreover have "length b = 512" using b assms(1) by (auto simp: fat_ok_def intro: dev.rd_length)
  moreover have r: "kabi_block_read dev (ucast (m_fat_lba_start m + c * 4 div 512)) s = Inr b"
    using b by (simp add: block_read_dev fat_sector_def)
  moreover note entry_index(2) [of c]
  ultimately show ?thesis
    using that [of b] assms(2)
    by (simp add: fat32_get_next_cluster_def fat32_set_cluster_def Let_def in_table_def block_write_one new_value_def
        fat_sector_def)
qed

lemma set_cluster_read:
  assumes "fat_ok dev m s" "in_table m c"
  shows "l \<noteq> fat_sector m c \<Longrightarrow> dev_read dev l (fat32_set_cluster dev m c v s) = dev_read dev l s"
    and "fat_ok dev m (fat32_set_cluster dev m c v s)"
proof -
  obtain b where b: "dev_read dev (fat_sector m c) s = Some b" "length b = 512"
    "\<And>v. fat32_set_cluster dev m c v s =
       dev.write_one dev (fat_sector m c) (put32 (unat c mod 128 * 4) (new_value (get32 b (unat c mod 128 * 4)) v) b) s"
    using entry_sector [OF assms] by metis
  have wf: "blk_wf s" using assms(1) by (simp add: fat_ok_def)
  have rd: "dev_read dev k (fat32_set_cluster dev m c v s) =
    (if k = fat_sector m c then Some (put32 (unat c mod 128 * 4) (new_value (get32 b (unat c mod 128 * 4)) v) b)
     else dev_read dev k s)" for k
    unfolding b(3) using dev.rd_write_one [OF wf] b by simp
  then show "l \<noteq> fat_sector m c \<Longrightarrow> dev_read dev l (fat32_set_cluster dev m c v s) = dev_read dev l s" by simp
  show "fat_ok dev m (fat32_set_cluster dev m c v s)"
    using assms(1) rd dev.write_one_ok [OF wf] b(2) by (auto simp: fat_ok_def b(3))
qed

lemma get_set_cluster:
  assumes "fat_ok dev m s" "in_table m c" "in_table m d"
  shows "fat32_get_next_cluster dev m d (fat32_set_cluster dev m c v s) =
    (if d = c then v AND 0x0FFFFFFF else fat32_get_next_cluster dev m d s)"
proof -
  let ?s = "fat32_set_cluster dev m c v s" and ?i = "\<lambda>c :: u32. unat c mod 128 * 4"
  have wf: "blk_wf s" using assms(1) by (simp add: fat_ok_def)
  obtain b where b: "dev_read dev (fat_sector m c) s = Some b" "length b = 512"
    "\<And>v. fat32_set_cluster dev m c v s =
       dev.write_one dev (fat_sector m c) (put32 (?i c) (new_value (get32 b (?i c)) v) b) s"
    using entry_sector [OF assms(1,2)] by metis
  obtain e where e: "dev_read dev (fat_sector m d) s = Some e"
    "fat32_get_next_cluster dev m d s = get32 e (?i d) AND 0x0FFFFFFF"
    using entry_sector [OF assms(1,3)] by metis
  obtain e' where e': "dev_read dev (fat_sector m d) ?s = Some e'"
    "fat32_get_next_cluster dev m d ?s = get32 e' (?i d) AND 0x0FFFFFFF"
    using entry_sector [OF set_cluster_read(2) [OF assms(1,2)] assms(3)] by metis
  have rd: "dev_read dev k ?s = (if k = fat_sector m c then Some (put32 (?i c) (new_value (get32 b (?i c)) v) b)
     else dev_read dev k s)" for k
    unfolding b(3) using dev.rd_write_one [OF wf] b by simp
  show ?thesis
  proof (cases "fat_sector m d = fat_sector m c")
    case True
    have dc: "d = c \<longleftrightarrow> ?i d = ?i c"
      using fat_sector_eq_iff [OF assms(1,3,2)] True
      by (metis div_mult_mod_eq mult_right_cancel u32_eqI zero_neq_numeral)
    have lt: "?i c + 4 \<le> 512" by simp
    have "e' = put32 (?i c) (new_value (get32 b (?i c)) v) b" "e = b" using rd [of "fat_sector m d"] True e' e b(1) by auto
    moreover have "?i d + 4 \<le> ?i c \<or> ?i c + 4 \<le> ?i d" if "d \<noteq> c" using that dc by auto
    ultimately show ?thesis
      using e' e dc b(2) lt get_put32_other [of "?i d" "?i c" "new_value (get32 b (?i c)) v" b]
      by (cases "d = c") (auto simp: new_value_read)
  next
    case False
    then show ?thesis using rd [of "fat_sector m d"] e e' by auto
  qed
qed

interpretation fat: link_table "fat32_get_next_cluster dev m" "fat32_set_cluster dev m" "fat_ok dev m" "in_table m"
  for dev m
  by unfold_locales (simp_all add: set_cluster_read(2) get_set_cluster)

text \<open>The table depends only on its own sectors.\<close>

lemma fat_frame:
  assumes "fat_ok dev m s" "blk_wf s'" "\<And>l. l \<in> fat_sectors m \<Longrightarrow> dev_read dev l s' = dev_read dev l s"
  shows "fat_ok dev m s'"
    and "in_table m c \<Longrightarrow> fat32_get_next_cluster dev m c s' = fat32_get_next_cluster dev m c s"
proof -
  show ok: "fat_ok dev m s'" using assms by (simp add: fat_ok_def)
  assume c: "in_table m c"
  have "dev_read dev (fat_sector m c) s' = dev_read dev (fat_sector m c) s"
    using fat_sector_nat(2) [OF assms(1) c] assms(3) by blast
  moreover obtain b where "dev_read dev (fat_sector m c) s = Some b"
    "fat32_get_next_cluster dev m c s = get32 b (unat c mod 128 * 4) AND 0x0FFFFFFF"
    using entry_sector [OF assms(1) c] by metis
  moreover obtain b' where "dev_read dev (fat_sector m c) s' = Some b'"
    "fat32_get_next_cluster dev m c s' = get32 b' (unat c mod 128 * 4) AND 0x0FFFFFFF"
    using entry_sector [OF ok c] by metis
  ultimately show "fat32_get_next_cluster dev m c s' = fat32_get_next_cluster dev m c s" by simp
qed

section \<open>Freeing a chain\<close>

lemma free_chain_clears:
  assumes "fat_ok dev m s" "list_all (in_table m) cs" "0 \<notin> set cs" "distinct cs"
    and "runs (\<lambda>c. fat32_get_next_cluster dev m c s) fc cs"
  shows "free_chain dev m fc s = Some (fat.clear_all dev m cs s)"
  using assms
proof (induction cs arbitrary: fc s)
  case Nil
  then show ?case by (simp add: free_chain.simps [of dev m fc] leD)
next
  case (Cons c cs)
  let ?s = "fat32_set_cluster dev m c 0 s"
  have fc: "fc = c" "c < EOC" "c \<noteq> 0" using Cons.prems by auto
  have v: "in_table m c" "list_all (in_table m) cs" "c \<notin> set cs" using Cons.prems by auto
  have "runs (\<lambda>d. fat32_get_next_cluster dev m d ?s) (fat32_get_next_cluster dev m c s) cs"
    using fat.runs_put [OF Cons.prems(1) v] Cons.prems(5) by simp
  then have "free_chain dev m (fat32_get_next_cluster dev m c s) ?s = Some (fat.clear_all dev m cs ?s)"
    using Cons.IH [of ?s] Cons.prems(1,3,4) v fat.put_ok by simp
  then show ?case using fc by (simp add: free_chain.simps [of dev m c s])
qed

lemma clear_all_outside:
  assumes "fat_ok dev m s" "list_all (in_table m) cs" "l \<notin> fat_sectors m"
  shows "dev_read dev l (fat.clear_all dev m cs s) = dev_read dev l s"
  using assms(1,2)
proof (induction cs arbitrary: s)
  case (Cons c cs)
  have "in_table m c" using Cons.prems by simp
  then have "l \<noteq> fat_sector m c" using fat_sector_nat(2) [OF Cons.prems(1)] assms(3) by auto
  then show ?case
    using Cons \<open>in_table m c\<close> set_cluster_read [OF Cons.prems(1)] by simp
qed simp

section \<open>Removing a file\<close>

lemma length_entry: "length b = 512 \<Longrightarrow> i < 16 \<Longrightarrow> length (entry b i) = 32"
  by (simp add: entry_def)

lemma length_put_entry: "length b = 512 \<Longrightarrow> i < 16 \<Longrightarrow> length e = 32 \<Longrightarrow> length (put_entry i e b) = 512"
  by (simp add: put_entry_def)

lemma scan_hit: "scan_entries p is b = ScanHit i \<Longrightarrow>
  i \<in> set is \<and> p (entry b i) \<and> entry b i ! 0 \<noteq> 0 \<and> entry b i ! 0 \<noteq> 0xE5 \<and> de_attr (entry b i) \<noteq> 0x0F"
  by (induction "is") (auto simp: Let_def split: if_splits)

lemma dir_sectors_hit: "dir_sectors p dev lba ks s = Some (DirHit l i b) \<Longrightarrow>
  dev_read dev (ucast l) s = Some b \<and> i < 16 \<and> p (entry b i)"
proof (induction ks)
  case (Cons k ks)
  then show ?case
    by (auto simp: block_read_dev dest: scan_hit split: sum.splits scan.splits)
qed simp

lemma dir_walk_hit:
  assumes "dir_walk p dev m c s = Some (DirHit l i b)"
  shows "dev_read dev (ucast l) s = Some b \<and> i < 16 \<and> p (entry b i)"
proof -
  have "\<forall>l i b. r = DirHit l i b \<longrightarrow> dev_read dev (ucast l) s = Some b \<and> i < 16 \<and> p (entry b i)"
    if "dir_walk p dev m c s = Some r" for r
    using that
  proof (rule dir_walk.raw_induct [rotated])
    fix walk p dev m c s r
    assume IH: "\<And>p dev m c s r. walk p dev m c s = Some r \<Longrightarrow>
        \<forall>l i b. r = DirHit l i b \<longrightarrow> dev_read dev (ucast l) s = Some b \<and> i < 16 \<and> p (entry b i)"
      and "(if c < EOC then case dir_sectors p dev (fat32_cluster_to_lba m c) (cluster_sectors m) s of
             Some r \<Rightarrow> Some r | None \<Rightarrow> walk p dev m (fat32_get_next_cluster dev m c s) s
           else Some DirEnd) = Some r"
    then show "\<forall>l i b. r = DirHit l i b \<longrightarrow> dev_read dev (ucast l) s = Some b \<and> i < 16 \<and> p (entry b i)"
      using dir_sectors_hit [of p dev _ _ s] by (auto split: if_splits option.splits) blast
  qed
  then show ?thesis using assms by blast
qed

text \<open>
  C11. Removing a file ends and succeeds when its clusters form a chain of the table and the directory
  lies outside the table: exactly the clusters of the file become free, every other table entry is
  unchanged, the directory entry is marked deleted, and no sector outside the table and the
  directory's sector is touched.
\<close>

theorem unlink_frees_chain:
  assumes "fat_ok dev m s" "dir_walk (\<lambda>e. de_name e = canonicalize_83 name) dev m (dir_start m dir) s = Some (DirHit lba i b)"
    and "runs (\<lambda>c. fat32_get_next_cluster dev m c s) (de_cluster (entry b i)) cs" "list_all (in_table m) cs"
    and "0 \<notin> set cs" "ucast lba \<notin> fat_sectors m"
  shows "\<exists>s'. fat32_unlink dev m dir name s = Some (KABI_SUCCESS, s') \<and>
    (\<forall>c. in_table m c \<longrightarrow> fat32_get_next_cluster dev m c s' =
       (if c \<in> set cs then 0 else fat32_get_next_cluster dev m c s)) \<and>
    dev_read dev (ucast lba) s' = Some (put_entry i ((entry b i)[0 := 0xE5]) b) \<and>
    (\<forall>l. l \<notin> fat_sectors m \<and> l \<noteq> ucast lba \<longrightarrow> dev_read dev l s' = dev_read dev l s)"
proof -
  let ?s1 = "fat.clear_all dev m cs s" and ?b = "put_entry i ((entry b i)[0 := 0xE5]) b"
  let ?s2 = "dev.write_one dev (ucast lba) ?b ?s1"
  have hit: "dev_read dev (ucast lba) s = Some b" "i < 16" using dir_walk_hit [OF assms(2)] by auto
  have wf: "blk_wf s" using assms(1) by (simp add: fat_ok_def)
  have len: "length b = 512" using hit(1) wf by (auto intro: dev.rd_length)
  then have lb: "length ?b = 512" using hit(2) by (intro length_put_entry) (simp_all add: length_entry)
  have free: "free_chain dev m (de_cluster (entry b i)) s = Some ?s1"
    using free_chain_clears assms(1,3,4,5) runs_distinct [OF assms(3)] by blast
  have ok1: "fat_ok dev m ?s1" using fat.clear_all_ok assms(1,4) by blast
  have rd1: "dev_read dev (ucast lba) ?s1 = Some b"
    using clear_all_outside [OF assms(1,4,6)] hit(1) by simp
  have wf1: "blk_wf ?s1" using ok1 by (simp add: fat_ok_def)
  have rd2: "dev_read dev l ?s2 = (if l = ucast lba then Some ?b else dev_read dev l ?s1)" for l
    using dev.rd_write_one [OF wf1 lb] rd1 by simp
  have "kabi_block_write dev (ucast lba) ?b ?s1 = (KABI_SUCCESS, ?s2)"
    using block_write_code [OF wf1 lb] rd1 by simp
  then have "fat32_unlink dev m dir name s = Some (KABI_SUCCESS, ?s2)"
    using assms(2) free by (simp add: fat32_unlink_def Let_def)
  moreover have "fat32_get_next_cluster dev m c ?s2 = fat32_get_next_cluster dev m c ?s1" if "in_table m c" for c
    using that rd2 assms(6) dev.write_one_ok [OF wf1 lb] by (intro fat_frame(2) [OF ok1]) auto
  moreover note fat.get_clear_all [OF assms(1,4)] clear_all_outside [OF assms(1,4)]
  ultimately show ?thesis using rd2 by (intro exI [of _ ?s2]) simp
qed

section \<open>A small volume\<close>

text \<open>
  One table sector, one sector per cluster, the root directory in cluster 2 and a two-cluster file
  \<open>A.TXT\<close> of 700 bytes in clusters 3 and 4.
\<close>

definition small_mount :: fat32_mount where
  "small_mount = \<lparr>m_part_lba_start = 0, m_fat_lba_start = 1, m_data_lba_start = 2, m_sectors_per_cluster = 1,
     m_bytes_per_sector = 512, m_sectors_per_fat = 1, m_root_cluster = 2\<rparr>"

definition small_table :: "u8 list" where
  "small_table = put32 16 0x0FFFFFFF (put32 12 4 (put32 8 0x0FFFFFFF (put32 4 0x0FFFFFFF
     (put32 0 0x0FFFFFFF (replicate 512 0)))))"

definition small_dir :: "u8 list" where
  "small_dir = new_entry (canonicalize_83 [97, 46, 116, 120, 116]) 0x20 3 700 @ replicate 480 0"

definition small_volume :: blk where
  "small_volume = \<lparr>b_devices = [plain_device [100] (Disk 0) 0], b_ramdisk = replicate 1024 0,
     b_disks = (\<lambda>_ lba. if lba = 1 then Some small_table else if lba = 2 then Some small_dir
       else if lba = 3 then Some (replicate 512 65) else if lba < 64 then Some (replicate 512 66) else None)\<rparr>"

lemma length_small: "length small_table = 512" "length small_dir = 512"
  by (simp add: small_table_def) (code_simp)

lemma small_fat_ok: "fat_ok 0 small_mount small_volume"
proof -
  have "fat_sectors small_mount = {1}" by (simp add: fat_sectors_def small_mount_def lessThan_Suc)
  moreover have "dev_read 0 1 small_volume = Some small_table"
    by (simp add: dev_read_def kabi_block_read_def block_dev_get_by_index_def small_volume_def plain_device_def
        read_sector_def target_lba_def)
  moreover have "blk_wf small_volume"
    by (auto simp: blk_wf_def small_volume_def MAX_BLOCK_DEVICES_def length_small split: if_splits)
  ultimately show ?thesis by (simp add: fat_ok_def) (simp add: small_mount_def)
qed

lemma small_chain:
  "fat32_get_next_cluster 0 small_mount 3 small_volume = 4"
  "fat32_get_next_cluster 0 small_mount 4 small_volume = 0x0FFFFFFF"
  "dir_walk (\<lambda>e. de_name e = canonicalize_83 [65, 46, 116, 120, 116]) 0 small_mount (dir_start small_mount 0) small_volume
     = Some (DirHit 2 0 small_dir)"
  "de_cluster (entry small_dir 0) = 3"
  by code_simp+

theorem unlink_frees_chain_witness:
  "\<exists>s'. fat32_unlink 0 small_mount 0 [65, 46, 116, 120, 116] small_volume = Some (KABI_SUCCESS, s') \<and>
     fat32_get_next_cluster 0 small_mount 3 s' = 0 \<and> fat32_get_next_cluster 0 small_mount 4 s' = 0"
proof -
  have t: "in_table small_mount 3" "in_table small_mount 4" by (simp_all add: in_table_def small_mount_def)
  have f: "ucast (2 :: u32) \<notin> fat_sectors small_mount" by (simp add: fat_sectors_def small_mount_def lessThan_Suc)
  have r: "runs (\<lambda>c. fat32_get_next_cluster 0 small_mount c small_volume) (de_cluster (entry small_dir 0)) [3, 4]"
    by (simp add: small_chain)
  from unlink_frees_chain [OF small_fat_ok small_chain(3) r _ _ f] t show ?thesis by auto
qed

end
