(* ===== verification/FatIo.thy ===== *)
theory FatIo
  imports FatTable
begin

text \<open>
  Reading, writing and growing a FAT32 file at a byte offset: the loops of \<open>fat32_vfs_read\<close>,
  \<open>fat32_vfs_write\<close> and \<open>fat32_vfs_expand\<close> in kernel/fs/fat32/fat32_vfs.c, on the fields of a node.
  A file whose clusters form a chain is the concatenation of its sectors; reads return and writes
  replace the addressed bytes of it.
\<close>

section \<open>Reading\<close>

fun fat_skip :: "nat \<Rightarrow> u32 \<Rightarrow> fat32_mount \<Rightarrow> u32 \<Rightarrow> blk \<Rightarrow> u32 option" where
  "fat_skip 0 dev m cluster s = Some cluster"
| "fat_skip (Suc n) dev m cluster s =
     (let c = fat32_get_next_cluster dev m cluster s in
      if EOC \<le> c \<or> c < 2 then None else fat_skip n dev m c s)"

text \<open>
  The loops carry the bytes copied so far; \<open>n\<close> is the number wanted. The first component tells
  whether a sector could not be read.
\<close>

fun read_sectors :: "u32 \<Rightarrow> u32 \<Rightarrow> nat \<Rightarrow> nat list \<Rightarrow> nat \<Rightarrow> u8 list \<Rightarrow> blk \<Rightarrow> bool \<times> u8 list" where
  "read_sectors dev lba n [] byte_in_sector acc s = (False, acc)"
| "read_sectors dev lba n (k # ks) byte_in_sector acc s =
     (if length acc < n then
        (case kabi_block_read dev (ucast (lba + of_nat k)) s of
           Inl _ \<Rightarrow> (True, acc)
         | Inr b \<Rightarrow> let to_copy = min (512 - byte_in_sector) (n - length acc)
                    in read_sectors dev lba n ks 0 (acc @ take to_copy (drop byte_in_sector b)) s)
      else (False, acc))"

partial_function (option) read_clusters ::
    "u32 \<Rightarrow> fat32_mount \<Rightarrow> nat \<Rightarrow> u32 \<Rightarrow> nat \<Rightarrow> u8 list \<Rightarrow> blk \<Rightarrow> u8 list option" where
  "read_clusters dev m n cluster offset acc s =
     (if length acc < n \<and> cluster < EOC then
        let ks = [offset div 512..<unat (m_sectors_per_cluster m)];
            (failed, acc') = read_sectors dev (fat32_cluster_to_lba m cluster) n ks (offset mod 512) acc s
        in if failed then Some acc'
           else read_clusters dev m n (fat32_get_next_cluster dev m cluster s) (if ks = [] then offset else 0) acc' s
      else Some acc)"

definition fat_read :: "u32 \<Rightarrow> fat32_mount \<Rightarrow> u32 \<Rightarrow> u64 \<Rightarrow> u32 \<Rightarrow> u32 \<Rightarrow> blk \<Rightarrow> (blk, u8 list) outcome" where
  "fat_read dev m cluster len offset size0 s =
     (if len \<le> ucast offset then Ret []
      else
        let sz = (if len < ucast (offset + size0) then ucast (len - ucast offset) else size0);
            bytes_per_cluster = m_sectors_per_cluster m * 512
        in if bytes_per_cluster = 0 then Panic ''divide error''
           else case fat_skip (unat (offset div bytes_per_cluster)) dev m cluster s of
               None \<Rightarrow> Ret []
             | Some c \<Rightarrow> ends (read_clusters dev m (unat sz) c (unat (offset mod bytes_per_cluster)) [] s))"

section \<open>Writing\<close>

text \<open>
  A sector that is overwritten completely is not read first; the local buffer then holds whatever
  it held before, all of which is replaced.
\<close>

definition write_part :: "u32 \<Rightarrow> u64 \<Rightarrow> u8 list \<Rightarrow> nat \<Rightarrow> nat \<Rightarrow> blk \<Rightarrow> bool \<times> nat \<times> blk" where
  "write_part dev l data byte_in_sector written s =
     (case (if byte_in_sector \<noteq> 0 \<or> length data - written < 512 then kabi_block_read dev l s
            else Inr (replicate 512 0)) of
        Inl _ \<Rightarrow> (True, written, s)
      | Inr b \<Rightarrow>
          let to_copy = min (512 - byte_in_sector) (length data - written);
              b' = take byte_in_sector b @ take to_copy (drop written data) @ drop (byte_in_sector + to_copy) b;
              (w, s') = kabi_block_write dev l b' s
          in if w \<noteq> KABI_SUCCESS then (True, written, s') else (False, written + to_copy, s'))"

fun write_sectors :: "u32 \<Rightarrow> u32 \<Rightarrow> u8 list \<Rightarrow> nat list \<Rightarrow> nat \<Rightarrow> nat \<Rightarrow> blk \<Rightarrow> bool \<times> nat \<times> blk" where
  "write_sectors dev lba data [] byte_in_sector written s = (False, written, s)"
| "write_sectors dev lba data (k # ks) byte_in_sector written s =
     (if written < length data then
        (case write_part dev (ucast (lba + of_nat k)) data byte_in_sector written s of
           (failed, written', s') \<Rightarrow>
             if failed then (True, written', s') else write_sectors dev lba data ks 0 written' s')
      else (False, written, s))"

partial_function (option) write_clusters ::
    "u32 \<Rightarrow> fat32_mount \<Rightarrow> u8 list \<Rightarrow> u32 \<Rightarrow> nat \<Rightarrow> nat \<Rightarrow> blk \<Rightarrow> (nat \<times> blk) option" where
  "write_clusters dev m data cluster offset written s =
     (if written < length data \<and> cluster < EOC then
        let ks = [offset div 512..<unat (m_sectors_per_cluster m)];
            (failed, written', s') =
              write_sectors dev (fat32_cluster_to_lba m cluster) data ks (offset mod 512) written s
        in if failed then Some (written', s')
           else write_clusters dev m data (fat32_get_next_cluster dev m cluster s') (if ks = [] then offset else 0)
                  written' s'
      else Some (written, s))"

definition fat_write :: "u32 \<Rightarrow> fat32_mount \<Rightarrow> u32 \<Rightarrow> u32 \<Rightarrow> u8 list \<Rightarrow> blk \<Rightarrow> (blk, nat \<times> blk) outcome" where
  "fat_write dev m cluster offset data s =
     (let bytes_per_cluster = m_sectors_per_cluster m * 512 in
      if bytes_per_cluster = 0 then Panic ''divide error''
      else case fat_skip (unat (offset div bytes_per_cluster)) dev m cluster s of
          None \<Rightarrow> Ret (0, s)
        | Some c \<Rightarrow> ends (write_clusters dev m data c (unat (offset mod bytes_per_cluster)) 0 s))"

section \<open>Growing\<close>

text \<open>The walk to the last of the clusters the length accounts for.\<close>

fun last_cluster :: "nat \<Rightarrow> u32 \<Rightarrow> fat32_mount \<Rightarrow> u32 \<Rightarrow> blk \<Rightarrow> u32" where
  "last_cluster 0 dev m cluster s = cluster"
| "last_cluster (Suc n) dev m cluster s =
     (let next = fat32_get_next_cluster dev m cluster s in
      if EOC \<le> next then cluster else last_cluster n dev m next s)"

fun append_clusters :: "nat \<Rightarrow> u32 \<Rightarrow> fat32_mount \<Rightarrow> u32 \<Rightarrow> blk \<Rightarrow> bool \<times> blk" where
  "append_clusters 0 dev m lst s = (True, s)"
| "append_clusters (Suc n) dev m lst s =
     (let next = fat32_find_free_cluster dev m s in
      if next = 0 then (False, s)
      else append_clusters n dev m next
             (zero_cluster dev m next
               (fat32_set_cluster dev m lst next (fat32_set_cluster dev m next 0x0FFFFFFF s))))"

text \<open>
  \<open>fat_expand\<close> yields the code with the new first cluster, length and disk; \<open>dir\<close> is the cluster of
  the parent directory and \<open>name\<close> the name of the node.
\<close>

definition clusters_for :: "fat32_mount \<Rightarrow> u64 \<Rightarrow> nat" where
  "clusters_for m len =
     (let bpc = m_sectors_per_cluster m * 512 in
      if len = 0 then 0 else unat (ucast ((len + ucast bpc - 1) div ucast bpc) :: u32))"

definition clusters_needed :: "fat32_mount \<Rightarrow> u32 \<Rightarrow> nat" where
  "clusters_needed m sz =
     (let bpc = m_sectors_per_cluster m * 512 in
      if sz = 0 then 0 else unat ((sz + bpc - 1) div bpc))"

definition expand_finish ::
    "u32 \<Rightarrow> fat32_mount \<Rightarrow> u32 \<Rightarrow> u8 list \<Rightarrow> u32 \<Rightarrow> u32 \<Rightarrow> blk \<Rightarrow> (blk, int \<times> u32 \<times> u64 \<times> blk) outcome" where
  "expand_finish dev m dir name inode new_size s =
     obind (ends (fat32_update_dirent dev m dir name new_size 0xFFFFFFFF s))
       (\<lambda>(r, s'). Ret (r, inode, ucast new_size, s'))"

definition fat_expand ::
    "u32 \<Rightarrow> fat32_mount \<Rightarrow> u32 \<Rightarrow> u8 list \<Rightarrow> u32 \<Rightarrow> u64 \<Rightarrow> u32 \<Rightarrow> blk \<Rightarrow> (blk, int \<times> u32 \<times> u64 \<times> blk) outcome" where
  "fat_expand dev m dir name inode len new_size s =
     (if m_sectors_per_cluster m * 512 = 0 \<and> (len \<noteq> 0 \<or> new_size \<noteq> 0) then Panic ''divide error''
      else
        let current = clusters_for m len; needed = clusters_needed m new_size in
        if needed \<le> current then expand_finish dev m dir name inode new_size s
        else if inode = 0 then
          let start = fat32_find_free_cluster dev m s in
          if start = 0 then Ret (KABI_ENOMEM, inode, len, s)
          else obind (ends (fat32_update_dirent dev m dir name 0xFFFFFFFF start
                       (fat32_set_cluster dev m start 0x0FFFFFFF s)))
            (\<lambda>(_, s1).
               let (done, s2) = append_clusters (needed - 1) dev m start (zero_cluster dev m start s1)
               in if done then expand_finish dev m dir name start new_size s2
                  else Ret (KABI_ENOMEM, start, len, s2))
        else
          let (done, s1) = append_clusters (needed - current) dev m (last_cluster (current - 1) dev m inode s) s
          in if done then expand_finish dev m dir name inode new_size s1
             else Ret (KABI_ENOMEM, inode, len, s1))"

declare read_clusters.simps [code] write_clusters.simps [code]

end
