(* ===== verification/FatData.thy ===== *)
theory FatData
  imports FatIo
begin

text \<open>
  Correctness of reading and writing FAT32 files. The nested loops over clusters and sectors are
  shown equal to one loop over the list of the file's sectors.
\<close>

section \<open>The sectors of a file\<close>

definition spc :: "fat32_mount \<Rightarrow> nat" where
  "spc m = unat (m_sectors_per_cluster m)"

definition data_sector :: "fat32_mount \<Rightarrow> u32 \<Rightarrow> nat \<Rightarrow> u64" where
  "data_sector m c k = ucast (fat32_cluster_to_lba m c + of_nat k)"

definition cluster_secs :: "fat32_mount \<Rightarrow> u32 \<Rightarrow> u64 list" where
  "cluster_secs m c = map (data_sector m c) [0..<spc m]"

definition file_secs :: "fat32_mount \<Rightarrow> u32 list \<Rightarrow> u64 list" where
  "file_secs m cs = concat (map (cluster_secs m) cs)"

definition secs_data :: "u32 \<Rightarrow> blk \<Rightarrow> u64 list \<Rightarrow> u8 list" where
  "secs_data dev s ls = concat (map (\<lambda>l. the (dev_read dev l s)) ls)"

definition file_data :: "u32 \<Rightarrow> fat32_mount \<Rightarrow> blk \<Rightarrow> u32 list \<Rightarrow> u8 list" where
  "file_data dev m s cs = secs_data dev s (file_secs m cs)"

definition readable :: "u32 \<Rightarrow> blk \<Rightarrow> u64 list \<Rightarrow> bool" where
  "readable dev s ls \<longleftrightarrow> list_all (\<lambda>l. dev_read dev l s \<noteq> None) ls"

lemma secs_data_simps [simp]:
  "secs_data dev s [] = []" "secs_data dev s (l # ls) = the (dev_read dev l s) @ secs_data dev s ls"
  "secs_data dev s (ls @ ls') = secs_data dev s ls @ secs_data dev s ls'"
  by (simp_all add: secs_data_def)

lemma file_secs_simps [simp]:
  "file_secs m [] = []" "file_secs m (c # cs) = cluster_secs m c @ file_secs m cs"
  by (simp_all add: file_secs_def)

lemma readable_simps [simp]:
  "readable dev s []" "readable dev s (l # ls) \<longleftrightarrow> dev_read dev l s \<noteq> None \<and> readable dev s ls"
  "readable dev s (ls @ ls') \<longleftrightarrow> readable dev s ls \<and> readable dev s ls'"
  by (auto simp: readable_def)

lemma length_secs_data: "blk_wf s \<Longrightarrow> readable dev s ls \<Longrightarrow> length (secs_data dev s ls) = 512 * length ls"
  by (induction ls) (auto dest: dev.rd_length)

lemma length_cluster_secs [simp]: "length (cluster_secs m c) = spc m"
  by (simp add: cluster_secs_def)

section \<open>Reading\<close>

fun read_flat :: "u32 \<Rightarrow> nat \<Rightarrow> u64 list \<Rightarrow> nat \<Rightarrow> u8 list \<Rightarrow> blk \<Rightarrow> u8 list" where
  "read_flat dev n [] bis acc s = acc"
| "read_flat dev n (l # ls) bis acc s =
     (if length acc < n
      then read_flat dev n ls 0 (acc @ take (min (512 - bis) (n - length acc)) (drop bis (the (dev_read dev l s)))) s
      else acc)"

lemma read_flat_full: "\<not> length acc < n \<Longrightarrow> read_flat dev n ls bis acc s = acc"
  by (cases ls) auto

lemma read_flat_append:
  "read_flat dev n (ls @ ls') bis acc s =
     read_flat dev n ls' (if ls = [] then bis else 0) (read_flat dev n ls bis acc s) s"
proof (induction ls arbitrary: bis acc)
  case (Cons l ls)
  show ?case by (cases "length acc < n") (simp_all add: Cons.IH read_flat_full)
qed simp

lemma read_flat_data:
  assumes "blk_wf s" "readable dev s ls" "bis < 512" "length acc \<le> n"
  shows "read_flat dev n ls bis acc s = acc @ take (n - length acc) (drop bis (secs_data dev s ls))"
  using assms(2-4)
proof (induction ls arbitrary: bis acc)
  case (Cons l ls)
  obtain b where b: "dev_read dev l s = Some b" "length b = 512"
    using Cons.prems(1) assms(1) dev.rd_length by fastforce
  let ?t = "take (min (512 - bis) (n - length acc)) (drop bis b)"
  show ?case
  proof (cases "length acc < n")
    case True
    have "read_flat dev n ls 0 (acc @ ?t) s = (acc @ ?t) @ take (n - length (acc @ ?t)) (secs_data dev s ls)"
      using Cons.IH [of 0 "acc @ ?t"] Cons.prems b by simp
    moreover have "?t @ take (n - length (acc @ ?t)) (secs_data dev s ls) =
        take (n - length acc) (drop bis (b @ secs_data dev s ls))"
      using b(2) Cons.prems(2) by (simp add: min_def)
    ultimately show ?thesis using True b(1) by simp
  qed (use Cons.prems in simp)
qed (use assms in simp)

lemma read_sectors_flat:
  assumes "readable dev s (map (data_sector m c) ks)"
  shows "read_sectors dev (fat32_cluster_to_lba m c) n ks bis acc s =
    (False, read_flat dev n (map (data_sector m c) ks) bis acc s)"
  using assms
proof (induction ks arbitrary: bis acc)
  case (Cons k ks)
  then obtain b where b: "dev_read dev (data_sector m c k) s = Some b" by auto
  then have "kabi_block_read dev (ucast (fat32_cluster_to_lba m c + of_nat k)) s = Inr b"
    by (simp add: block_read_dev data_sector_def)
  then show ?case using Cons b by simp
qed simp

lemma cluster_secs_drop: "map (data_sector m c) [k..<spc m] = drop k (cluster_secs m c)"
  by (simp add: cluster_secs_def drop_map)

lemma readable_drop: "readable dev s ls \<Longrightarrow> readable dev s (drop k ls)"
  by (auto simp: readable_def list_all_iff dest: in_set_dropD)

lemma read_clusters_flat:
  assumes "runs (\<lambda>c. fat32_get_next_cluster dev m c s) c cs" "readable dev s (file_secs m cs)" "off < 512 * spc m"
  shows "read_clusters dev m n c off acc s =
    Some (read_flat dev n (drop (off div 512) (file_secs m cs)) (off mod 512) acc s)"
  using assms
proof (induction cs arbitrary: c off acc)
  case Nil
  then show ?case by (simp add: read_clusters.simps [of dev m n c] leD)
next
  case (Cons x cs)
  let ?nx = "fat32_get_next_cluster dev m c s"
  have c: "c = x" "c < EOC" "runs (\<lambda>c. fat32_get_next_cluster dev m c s) ?nx cs" using Cons.prems by auto
  have k: "off div 512 < spc m" using Cons.prems(3) by (simp add: less_mult_imp_div_less mult.commute)
  let ?ls = "drop (off div 512) (cluster_secs m c)"
  have "?ls \<noteq> []" using k by simp
  have rs: "read_sectors dev (fat32_cluster_to_lba m c) n [off div 512..<spc m] (off mod 512) acc s =
      (False, read_flat dev n ?ls (off mod 512) acc s)"
    using read_sectors_flat [of dev s m c "[off div 512..<spc m]"] Cons.prems(2) c(1)
    by (simp add: cluster_secs_drop readable_drop)
  have "0 < 512 * spc m" using k by simp
  then have "read_clusters dev m n ?nx 0 a s = Some (read_flat dev n (file_secs m cs) 0 a s)" for a
    using Cons.IH [OF c(3)] Cons.prems(2) by simp
  moreover have "drop (off div 512) (file_secs m (x # cs)) = ?ls @ file_secs m cs" using k c(1) by simp
  ultimately show ?case
    using rs c(2) \<open>?ls \<noteq> []\<close> k
    by (cases "length acc < n")
      (simp_all add: read_clusters.simps [of dev m n c] spc_def read_flat_append read_flat_full)
qed

lemma fat_skip_runs:
  assumes "runs (\<lambda>c. fat32_get_next_cluster dev m c s) c cs" "list_all (\<lambda>c. 2 \<le> c) cs" "n < length cs"
  shows "fat_skip n dev m c s = Some (cs ! n) \<and> runs (\<lambda>c. fat32_get_next_cluster dev m c s) (cs ! n) (drop n cs)"
  using assms
proof (induction n arbitrary: c cs)
  case 0
  then show ?case by (cases cs) auto
next
  case (Suc n)
  then obtain x y ys where cs: "cs = x # y # ys" by (cases cs; cases "tl cs") auto
  have "fat32_get_next_cluster dev m x s = y" "y < EOC" "2 \<le> y" using Suc.prems cs by auto
  then show ?case using Suc.IH [of y "y # ys"] Suc.prems cs by (auto simp: Let_def not_le not_less)
qed

text \<open>A file: its clusters form a chain, all its sectors can be read, and clusters have a sane size.\<close>

definition fat_file :: "u32 \<Rightarrow> fat32_mount \<Rightarrow> blk \<Rightarrow> u32 \<Rightarrow> u32 list \<Rightarrow> bool" where
  "fat_file dev m s c cs \<longleftrightarrow> blk_wf s \<and> runs (\<lambda>c. fat32_get_next_cluster dev m c s) c cs \<and>
     list_all (\<lambda>c. 2 \<le> c) cs \<and> readable dev s (file_secs m cs) \<and> 0 < spc m \<and> spc m < 256"

lemma length_file_secs: "length (file_secs m cs) = length cs * spc m"
  by (induction cs) auto

lemma file_secs_drop: "file_secs m (drop n cs) = drop (n * spc m) (file_secs m cs)"
proof (induction n arbitrary: cs)
  case (Suc n)
  then show ?case by (cases cs) (simp_all add: add.commute)
qed simp

lemma secs_data_drop:
  assumes "blk_wf s" "readable dev s ls"
  shows "secs_data dev s (drop k ls) = drop (512 * k) (secs_data dev s ls)"
  using assms(2)
proof (induction k arbitrary: ls)
  case (Suc k)
  show ?case
  proof (cases ls)
    case (Cons l ls')
    then obtain b where "dev_read dev l s = Some b" "length b = 512"
      using Suc.prems assms(1) dev.rd_length by fastforce
    then show ?thesis using Suc Cons by simp
  qed simp
qed simp

text \<open>The cluster and the sector an offset falls into.\<close>

lemma offset_split:
  assumes "fat_file dev m s c cs"
  defines "bpc \<equiv> m_sectors_per_cluster m * 512"
  shows "unat bpc = 512 * spc m" "bpc \<noteq> 0"
    "unat (offset div bpc) = unat offset div (512 * spc m)" "unat (offset mod bpc) = unat offset mod (512 * spc m)"
    "unat offset div (512 * spc m) * spc m + unat offset mod (512 * spc m) div 512 = unat offset div 512"
    "unat offset mod (512 * spc m) mod 512 = unat offset mod 512"
proof -
  have h: "0 < spc m" "spc m < 256" using assms(1) by (auto simp: fat_file_def)
  then show b: "unat bpc = 512 * spc m" by (simp add: bpc_def spc_def unat_word_ariths)
  then show "bpc \<noteq> 0" using h by auto
  show "unat (offset div bpc) = unat offset div (512 * spc m)" "unat (offset mod bpc) = unat offset mod (512 * spc m)"
    by (simp_all add: unat_div unat_mod b)
  have "unat offset = unat offset div (512 * spc m) * (512 * spc m) + unat offset mod (512 * spc m)"
    by (rule div_mult_mod_eq [symmetric])
  then have "unat offset = 512 * (unat offset div (512 * spc m) * spc m) + unat offset mod (512 * spc m)"
    by (simp add: mult.assoc mult.left_commute)
  then show "unat offset div (512 * spc m) * spc m + unat offset mod (512 * spc m) div 512 = unat offset div 512"
    by (metis add.commute div_mult_self4 zero_neq_numeral)
  show "unat offset mod (512 * spc m) mod 512 = unat offset mod 512" by (simp add: mod_mod_cancel)
qed

lemma skip_to_offset:
  assumes "fat_file dev m s c cs" "unat offset < length (file_data dev m s cs)"
  obtains d where "fat_skip (unat (offset div (m_sectors_per_cluster m * 512))) dev m c s = Some d"
    "runs (\<lambda>c. fat32_get_next_cluster dev m c s) d (drop (unat offset div (512 * spc m)) cs)"
proof -
  have f: "blk_wf s" "readable dev s (file_secs m cs)" "runs (\<lambda>c. fat32_get_next_cluster dev m c s) c cs"
    "list_all (\<lambda>c. 2 \<le> c) cs" using assms(1) by (auto simp: fat_file_def)
  have "unat offset < 512 * spc m * length cs"
    using assms(2) length_secs_data [OF f(1,2)] by (simp add: file_data_def length_file_secs mult_ac)
  then have "unat offset div (512 * spc m) < length cs" by (simp add: less_mult_imp_div_less mult.commute)
  then show ?thesis using that fat_skip_runs [OF f(3,4)] offset_split(3) [OF assms(1)] by metis
qed

text \<open>
  C10. Reading from a file returns exactly the bytes of its contents from the offset on, as many as
  were asked for or remain up to the recorded length, whatever clusters and sectors they lie in.
\<close>

theorem fat_read_contents:
  assumes "fat_file dev m s c cs" "unat len \<le> length (file_data dev m s cs)" "unat offset + unat sz < 2 ^ 32"
  shows "fat_read dev m c len offset sz s =
    Ret (take (min (unat sz) (unat len - unat offset)) (drop (unat offset) (file_data dev m s cs)))"
proof (cases "len \<le> ucast offset")
  case True
  then have "unat len \<le> unat offset" by (simp add: word_le_nat_alt unat_ucast_up)
  then show ?thesis using True by (simp add: fat_read_def)
next
  case False
  then have lt: "unat offset < unat len" by (simp add: word_le_nat_alt unat_ucast_up)
  let ?n = "if len < ucast (offset + sz) then ucast (len - ucast offset) else sz"
  have sum: "unat (offset + sz) = unat offset + unat sz" using assms(3) by (simp add: unat_word_ariths)
  have "unat (len - ucast offset) = unat len - unat offset"
    using lt by (simp add: unat_sub word_le_nat_alt unat_ucast_up)
  then have n: "unat ?n = min (unat sz) (unat len - unat offset)"
    using sum lt assms(3)
    by (auto simp: word_less_nat_alt unat_ucast_up unsigned_ucast_eq take_bit_nat_eq_self min_def)
  have f: "blk_wf s" "readable dev s (file_secs m cs)" using assms(1) by (auto simp: fat_file_def)
  obtain d where d: "fat_skip (unat (offset div (m_sectors_per_cluster m * 512))) dev m c s = Some d"
    "runs (\<lambda>c. fat32_get_next_cluster dev m c s) d (drop (unat offset div (512 * spc m)) cs)"
    using skip_to_offset [OF assms(1), of offset] lt assms(2) by auto
  note o = offset_split(2) [OF assms(1)] offset_split(4-6) [OF assms(1), of offset]
  let ?off = "unat offset mod (512 * spc m)" and ?cs = "drop (unat offset div (512 * spc m)) cs"
  have "0 < spc m" using assms(1) by (simp add: fat_file_def)
  then have "read_clusters dev m (unat ?n) d ?off [] s =
      Some (read_flat dev (unat ?n) (drop (?off div 512) (file_secs m ?cs)) (?off mod 512) [] s)"
    using f(2) by (intro read_clusters_flat [OF d(2)]) (simp_all add: file_secs_drop readable_drop)
  also have "drop (?off div 512) (file_secs m ?cs) = drop (unat offset div 512) (file_secs m cs)"
    using o(3) by (simp add: file_secs_drop add.commute)
  also have "read_flat dev (unat ?n) \<dots> (?off mod 512) [] s = take (unat ?n) (drop (unat offset) (file_data dev m s cs))"
    using read_flat_data [OF f(1) readable_drop [OF f(2)], of "?off mod 512" "[]" "unat ?n" "unat offset div 512"] o(4)
    by (simp add: secs_data_drop [OF f] file_data_def)
  finally show ?thesis using False d(1) o(1,2) n by (simp add: fat_read_def Let_def ends_def)
qed

lemma small_file:
  "fat_file 0 small_mount small_volume 3 [3, 4]"
  "file_data 0 small_mount small_volume [3, 4] = replicate 512 65 @ replicate 512 66"
proof -
  have s: "dev_read 0 3 small_volume = Some (replicate 512 65)" "dev_read 0 4 small_volume = Some (replicate 512 66)"
    by (simp_all add: dev_read_def kabi_block_read_def block_dev_get_by_index_def small_volume_def plain_device_def
        read_sector_def target_lba_def)
  have l: "file_secs small_mount [3, 4] = [3, 4]"
    by (simp add: file_secs_def cluster_secs_def spc_def small_mount_def data_sector_def fat32_cluster_to_lba_def)
  show "fat_file 0 small_mount small_volume 3 [3, 4]"
    using small_fat_ok small_chain s l by (simp add: fat_file_def fat_ok_def) (simp add: spc_def small_mount_def)
  show "file_data 0 small_mount small_volume [3, 4] = replicate 512 65 @ replicate 512 66"
    unfolding file_data_def l by (simp add: s)
qed

theorem fat_read_contents_witness:
  "fat_read 0 small_mount 3 700 510 1000 small_volume = Ret (replicate 2 65 @ replicate 188 66)"
  using fat_read_contents [OF small_file(1), of 700 510 1000] by (simp add: small_file(2))

section \<open>Writing\<close>

definition patch :: "nat \<Rightarrow> 'a list \<Rightarrow> 'a list \<Rightarrow> 'a list" where
  "patch k xs ys = take k ys @ xs @ drop (k + length xs) ys"

lemma patch_Nil [simp]: "patch k [] ys = ys"
  by (simp add: patch_def)

lemma length_patch: "k + length xs \<le> length ys \<Longrightarrow> length (patch k xs ys) = length ys"
  by (simp add: patch_def)

lemma patch_split:
  assumes "length b = 512" "k < 512" "k + length xs \<le> 512 + length ys"
  defines "t \<equiv> min (512 - k) (length xs)"
  shows "patch k xs (b @ ys) = patch k (take t xs) b @ patch 0 (drop t xs) ys"
proof (cases "length xs \<le> 512 - k")
  case True
  then show ?thesis using assms by (simp add: patch_def min_def)
next
  case False
  then have "t = 512 - k" "k + length xs - 512 = length xs - t" using assms(2) by (simp_all add: t_def)
  then have "patch k xs (b @ ys) = take k b @ (take t xs @ drop t xs) @ drop (length xs - t) ys"
    using assms False by (simp add: patch_def)
  then show ?thesis using assms(1,2) False \<open>t = 512 - k\<close> by (simp add: patch_def)
qed

fun write_flat :: "u32 \<Rightarrow> u8 list \<Rightarrow> u64 list \<Rightarrow> nat \<Rightarrow> nat \<Rightarrow> blk \<Rightarrow> nat \<times> blk" where
  "write_flat dev data [] bis w s = (w, s)"
| "write_flat dev data (l # ls) bis w s =
     (if w < length data then
        let t = min (512 - bis) (length data - w)
        in write_flat dev data ls 0 (w + t)
             (dev.write_one dev l (patch bis (take t (drop w data)) (the (dev_read dev l s))) s)
      else (w, s))"

lemma write_flat_done: "\<not> w < length data \<Longrightarrow> write_flat dev data ls bis w s = (w, s)"
  by (cases ls) auto

lemma write_flat_append:
  "write_flat dev data (ls @ ls') bis w s =
     (let (w', s') = write_flat dev data ls bis w s in write_flat dev data ls' (if ls = [] then bis else 0) w' s')"
proof (induction ls arbitrary: bis w s)
  case (Cons l ls)
  show ?case by (cases "w < length data") (simp_all add: Cons.IH write_flat_done Let_def)
qed simp

text \<open>One step: the sector is replaced, everything else stays.\<close>

lemma write_part_step:
  fixes data :: "u8 list" and w :: nat
  assumes "blk_wf s" "dev_read dev l s = Some b" "bis < 512"
  defines "t \<equiv> min (512 - bis) (length data - w)"
  defines "b' \<equiv> patch bis (take t (drop w data)) b"
  shows "length b' = 512" "blk_wf (dev.write_one dev l b' s)"
    "dev_read dev k (dev.write_one dev l b' s) = (if k = l then Some b' else dev_read dev k s)"
    "kabi_block_write dev l b' s = (KABI_SUCCESS, dev.write_one dev l b' s)"
proof -
  have b: "length b = 512" using assms(1,2) by (rule dev.rd_length)
  then show l: "length b' = 512" using assms(3) by (simp add: b'_def t_def length_patch)
  then show "blk_wf (dev.write_one dev l b' s)"
    "dev_read dev k (dev.write_one dev l b' s) = (if k = l then Some b' else dev_read dev k s)"
    "kabi_block_write dev l b' s = (KABI_SUCCESS, dev.write_one dev l b' s)"
    using assms(1,2) by (simp_all add: dev.write_one_ok dev.rd_write_one block_write_code)
qed

lemma write_flat_data:
  assumes "blk_wf s" "readable dev s ls" "distinct ls" "bis < 512" "w \<le> length data"
    and "bis + (length data - w) \<le> 512 * length ls"
  shows "\<exists>s'. write_flat dev data ls bis w s = (length data, s') \<and> blk_wf s' \<and>
    (\<forall>l. l \<notin> set ls \<longrightarrow> dev_read dev l s' = dev_read dev l s) \<and> readable dev s' ls \<and>
    secs_data dev s' ls = patch bis (drop w data) (secs_data dev s ls)"
  using assms
proof (induction ls arbitrary: bis w s)
  case (Cons l ls)
  show ?case
  proof (cases "w < length data")
    case True
    obtain b where b: "dev_read dev l s = Some b" using Cons.prems(2) by auto
    let ?t = "min (512 - bis) (length data - w)"
    let ?b = "patch bis (take ?t (drop w data)) b"
    let ?s = "dev.write_one dev l ?b s"
    note st = write_part_step [OF Cons.prems(1) b Cons.prems(4), where data = data and w = w]
    have rd: "dev_read dev k ?s = (if k = l then Some ?b else dev_read dev k s)" for k using st(3) by simp
    have r: "readable dev ?s ls" using Cons.prems(2) by (auto simp: readable_def list_all_iff rd)
    have same: "secs_data dev ?s ls = secs_data dev s ls"
      using Cons.prems(3) by (auto simp: secs_data_def rd intro: arg_cong [where f = concat])
    have h: "w + ?t \<le> length data" "0 + (length data - (w + ?t)) \<le> 512 * length ls"
      using Cons.prems(4-6) by (auto simp: min_def)
    obtain s' where s': "write_flat dev data ls 0 (w + ?t) ?s = (length data, s')" "blk_wf s'"
      "\<forall>k. k \<notin> set ls \<longrightarrow> dev_read dev k s' = dev_read dev k ?s" "readable dev s' ls"
      "secs_data dev s' ls = patch 0 (drop (w + ?t) data) (secs_data dev ?s ls)"
      using Cons.IH [OF st(2) r _ _ h] Cons.prems(3) by auto
    have "dev_read dev l s' = Some ?b" using s'(3) Cons.prems(3) rd by simp
    moreover have "patch bis (drop w data) (b @ secs_data dev s ls) =
        ?b @ patch 0 (drop (w + ?t) data) (secs_data dev s ls)"
      using patch_split [of b bis "drop w data" "secs_data dev s ls"] Cons.prems(1,2,4,6) b
        dev.rd_length [OF Cons.prems(1) b] length_secs_data [OF Cons.prems(1), of dev ls]
      by (simp add: add.commute)
    ultimately show ?thesis
      using True b s' rd same Cons.prems(3) by (intro exI [of _ s']) (auto simp: Let_def)
  qed (use Cons.prems in \<open>auto simp: readable_def\<close>)
qed simp

lemma write_sectors_flat:
  assumes "blk_wf s" "readable dev s (map (data_sector m c) ks)" "distinct (map (data_sector m c) ks)" "bis < 512"
  shows "write_sectors dev (fat32_cluster_to_lba m c) data ks bis w s =
    (False, write_flat dev data (map (data_sector m c) ks) bis w s)"
  using assms
proof (induction ks arbitrary: bis w s)
  case (Cons k ks)
  let ?l = "data_sector m c k"
  obtain b where b: "dev_read dev ?l s = Some b" using Cons.prems(2) by auto
  let ?t = "min (512 - bis) (length data - w)"
  let ?b = "patch bis (take ?t (drop w data)) b"
  let ?s = "dev.write_one dev ?l ?b s"
  note st = write_part_step [OF Cons.prems(1) b Cons.prems(4), where data = data and w = w]
  have lb: "length b = 512" using Cons.prems(1) b by (rule dev.rd_length)
  let ?rd = "if bis \<noteq> 0 \<or> length data - w < 512 then kabi_block_read dev ?l s else Inr (replicate 512 0)"
  have rd: "\<exists>b0. ?rd = Inr b0 \<and> take bis b0 @ take ?t (drop w data) @ drop (bis + ?t) b0 = ?b"
    using b lb by (auto simp: block_read_dev patch_def min_def)
  have "readable dev ?s (map (data_sector m c) ks)"
    using Cons.prems(2) st(3) by (auto simp: readable_def list_all_iff)
  then have "write_sectors dev (fat32_cluster_to_lba m c) data ks 0 (w + ?t) ?s =
      (False, write_flat dev data (map (data_sector m c) ks) 0 (w + ?t) ?s)"
    using Cons.IH [OF st(2)] Cons.prems(3) by simp
  moreover have "write_part dev ?l data bis w s = (False, w + ?t, ?s)"
    using rd st(4) by (auto simp: write_part_def Let_def)
  ultimately show ?case using b by (simp add: Let_def data_sector_def [symmetric])
qed simp

text \<open>Where the sectors of a cluster lie; different clusters do not overlap, nor the table.\<close>

definition layout :: "fat32_mount \<Rightarrow> u32 list \<Rightarrow> bool" where
  "layout m cs \<longleftrightarrow> unat (m_fat_lba_start m) + unat (m_sectors_per_fat m) \<le> unat (m_data_lba_start m) \<and>
     list_all (\<lambda>c. 2 \<le> c \<and> in_table m c \<and> unat (m_data_lba_start m) + (unat c - 1) * spc m \<le> 2 ^ 32) cs"

lemma data_sector_nat:
  assumes "layout m cs" "c \<in> set cs" "k < spc m"
  shows "unat (data_sector m c k) = unat (m_data_lba_start m) + (unat c - 2) * spc m + k"
proof -
  have c: "2 \<le> unat c" "unat (m_data_lba_start m) + (unat c - 1) * spc m \<le> 2 ^ 32"
    using assms(1,2) by (auto simp: layout_def list_all_iff word_le_nat_alt)
  have "(unat c - 1) * spc m = (unat c - 2) * spc m + spc m"
    using c(1) by (metis add.commute mult_Suc Suc_diff_le numeral_2_eq_2 diff_Suc_Suc diff_Suc_1 One_nat_def)
  then have lt: "unat (m_data_lba_start m) + (unat c - 2) * spc m + k < 2 ^ 32" using c(2) assms(3) by linarith
  have "unat (c - 2) = unat c - 2" using c(1) by (simp add: unat_sub word_le_nat_alt)
  then have "unat ((c - 2) * m_sectors_per_cluster m) = (unat c - 2) * spc m"
    using lt by (simp add: unat_word_ariths spc_def)
  then have "unat (fat32_cluster_to_lba m c) = unat (m_data_lba_start m) + (unat c - 2) * spc m"
    using lt by (simp add: fat32_cluster_to_lba_def unat_word_ariths)
  then show ?thesis using lt by (simp add: data_sector_def unat_ucast_up unat_u32_add)
qed

lemma data_sector_inj:
  assumes "layout m cs" "c \<in> set cs" "d \<in> set cs" "k < spc m" "j < spc m" "data_sector m c k = data_sector m d j"
  shows "c = d \<and> k = j"
proof -
  have cd: "2 \<le> unat c" "2 \<le> unat d" using assms(1-3) by (auto simp: layout_def list_all_iff word_le_nat_alt)
  have e: "(unat c - 2) * spc m + k = (unat d - 2) * spc m + j"
    using data_sector_nat [OF assms(1,2,4)] data_sector_nat [OF assms(1,3,5)] assms(6) by simp
  have "((unat c - 2) * spc m + k) div spc m = unat c - 2" "((unat d - 2) * spc m + j) div spc m = unat d - 2"
    using assms(4,5) by simp_all
  then have "unat c - 2 = unat d - 2" using e by simp
  then show ?thesis using e cd by (auto intro: u32_eqI)
qed

lemma distinct_file_secs:
  assumes "layout m cs" "distinct cs"
  shows "distinct (file_secs m cs)"
proof -
  have inj: "inj_on (data_sector m c) {0..<spc m}" if "c \<in> set cs" for c
    using data_sector_inj [OF assms(1) that that] by (auto simp: inj_on_def)
  have "distinct (concat (map (cluster_secs m) xs))" if "set xs \<subseteq> set cs" "distinct xs" for xs
    using that
  proof (induction xs)
    case (Cons x xs)
    then have "distinct (cluster_secs m x)" using inj by (simp add: cluster_secs_def distinct_map)
    moreover have False if in1: "l \<in> set (cluster_secs m x)" and in2: "l \<in> set (concat (map (cluster_secs m) xs))" for l
    proof -
      obtain k where k: "k < spc m" "l = data_sector m x k" using in1 unfolding cluster_secs_def by auto
      obtain y j where y: "y \<in> set xs" "j < spc m" "l = data_sector m y j"
        using in2 unfolding cluster_secs_def by auto
      have "x \<in> set cs" "y \<in> set cs" "x \<noteq> y" using Cons.prems y(1) by auto
      then show False using data_sector_inj [OF assms(1) _ _ k(1) y(2)] k(2) y(3) by metis
    qed
    ultimately show ?case using Cons by auto
  qed simp
  then show ?thesis using assms(2) by (simp add: file_secs_def)
qed

lemma file_secs_not_fat:
  assumes "layout m cs" "l \<in> set (file_secs m cs)"
  shows "l \<notin> fat_sectors m"
proof
  assume "l \<in> fat_sectors m"
  then obtain k where k: "k < unat (m_sectors_per_fat m)" "l = ucast (m_fat_lba_start m + of_nat k)"
    by (auto simp: fat_sectors_def)
  have d: "unat (m_fat_lba_start m) + unat (m_sectors_per_fat m) \<le> unat (m_data_lba_start m)"
    using assms(1) by (simp add: layout_def)
  then have "unat l = unat (m_fat_lba_start m) + k"
    using k less_trans [OF _ unat_bounds(3) [of "m_data_lba_start m"], of "unat (m_fat_lba_start m) + k"]
    by (simp add: unat_ucast_up unat_u32_add)
  moreover have "unat (m_data_lba_start m) \<le> unat l"
    using assms data_sector_nat [OF assms(1)] by (auto simp: file_secs_def cluster_secs_def)
  ultimately show False using k(1) d by linarith
qed

section \<open>Writing a file\<close>

lemma write_flat_frame:
  assumes "blk_wf s" "readable dev s ls" "bis < 512" "write_flat dev data ls bis w s = (w', s')"
  shows "blk_wf s' \<and> (\<forall>l. l \<notin> set ls \<longrightarrow> dev_read dev l s' = dev_read dev l s) \<and>
    (\<forall>l. dev_read dev l s \<noteq> None \<longrightarrow> dev_read dev l s' \<noteq> None)"
  using assms
proof (induction ls arbitrary: bis w s)
  case (Cons l ls)
  show ?case
  proof (cases "w < length data")
    case True
    obtain b where b: "dev_read dev l s = Some b" using Cons.prems(2) by auto
    let ?t = "min (512 - bis) (length data - w)"
    let ?s = "dev.write_one dev l (patch bis (take ?t (drop w data)) b) s"
    note st = write_part_step [OF Cons.prems(1) b Cons.prems(3), where data = data and w = w]
    have r: "readable dev ?s ls" using Cons.prems(2) st(3) by (auto simp: readable_def list_all_iff)
    have "write_flat dev data ls 0 (w + ?t) ?s = (w', s')" using Cons.prems(4) True b by (simp add: Let_def)
    from Cons.IH [OF st(2) r _ this] show ?thesis using st(3) by auto
  qed (use Cons.prems in auto)
qed auto

lemma readable_frame: "readable dev s ls \<Longrightarrow> (\<And>l. dev_read dev l s \<noteq> None \<Longrightarrow> dev_read dev l s' \<noteq> None) \<Longrightarrow>
  readable dev s' ls"
  by (simp add: readable_def list_all_iff)

lemma runs_frame:
  assumes "fat_ok dev m s" "blk_wf s'" "\<And>l. l \<in> fat_sectors m \<Longrightarrow> dev_read dev l s' = dev_read dev l s"
    and "list_all (in_table m) cs"
  shows "runs (\<lambda>c. fat32_get_next_cluster dev m c s') c cs \<longleftrightarrow> runs (\<lambda>c. fat32_get_next_cluster dev m c s) c cs"
  using fat_frame(2) [OF assms(1-3)] assms(4) by (intro runs_cong) (auto simp: list_all_iff)

lemma write_clusters_flat:
  assumes "fat_ok dev m s" "layout m cs" "distinct cs" "runs (\<lambda>c. fat32_get_next_cluster dev m c s) c cs"
    and "readable dev s (file_secs m cs)" "off < 512 * spc m"
  shows "write_clusters dev m data c off w s =
    Some (write_flat dev data (drop (off div 512) (file_secs m cs)) (off mod 512) w s)"
  using assms
proof (induction cs arbitrary: c off w s)
  case Nil
  then show ?case by (simp add: write_clusters.simps [of dev m data c] leD)
next
  case (Cons x cs)
  have c: "c = x" "c < EOC" using Cons.prems by auto
  have k: "off div 512 < spc m" using Cons.prems(6) by (simp add: less_mult_imp_div_less mult.commute)
  let ?ls = "drop (off div 512) (cluster_secs m c)"
  have d: "distinct ?ls" "?ls \<noteq> []"
    using distinct_file_secs [OF Cons.prems(2,3)] k by (simp_all add: c(1))
  have wf: "blk_wf s" using Cons.prems(1) by (simp add: fat_ok_def)
  have r: "readable dev s ?ls" using Cons.prems(5) by (simp add: c(1) readable_drop)
  obtain w' s' where ws: "write_flat dev data ?ls (off mod 512) w s = (w', s')" by (cases "write_flat dev data ?ls (off mod 512) w s")
  have fr: "blk_wf s'" "\<And>l. l \<notin> set ?ls \<Longrightarrow> dev_read dev l s' = dev_read dev l s"
    "\<And>l. dev_read dev l s \<noteq> None \<Longrightarrow> dev_read dev l s' \<noteq> None"
    using write_flat_frame [OF wf r _ ws] by auto
  have sec: "set ?ls \<subseteq> set (file_secs m (x # cs))" by (auto simp: c(1) dest: in_set_dropD)
  have fat: "dev_read dev l s' = dev_read dev l s" if "l \<in> fat_sectors m" for l
    using file_secs_not_fat [OF Cons.prems(2)] sec that fr(2) by blast
  have tab: "list_all (in_table m) (x # cs)" using Cons.prems(2) by (auto simp: layout_def list_all_iff)
  have "fat_ok dev m s'" "fat32_get_next_cluster dev m c s' = fat32_get_next_cluster dev m c s"
    using fat_frame [OF Cons.prems(1) fr(1) fat] tab c(1) by auto
  moreover have "runs (\<lambda>c. fat32_get_next_cluster dev m c s') (fat32_get_next_cluster dev m c s) cs"
    using runs_frame [OF Cons.prems(1) fr(1) fat] tab Cons.prems(4) by auto
  moreover have "layout m cs" "distinct cs" "0 < 512 * spc m" using Cons.prems(2,3) k by (auto simp: layout_def)
  moreover have "readable dev s' (file_secs m cs)" using Cons.prems(5) fr(3) by (auto intro: readable_frame)
  ultimately have tail: "write_clusters dev m data (fat32_get_next_cluster dev m c s') 0 w' s' =
      Some (write_flat dev data (file_secs m cs) 0 w' s')"
    using Cons.IH [of s' "fat32_get_next_cluster dev m c s'" 0 w'] by simp
  have "write_sectors dev (fat32_cluster_to_lba m c) data [off div 512..<spc m] (off mod 512) w s = (False, w', s')"
    using write_sectors_flat [OF wf, of dev m c "[off div 512..<spc m]" "off mod 512" data w] d r ws
    by (simp add: cluster_secs_drop)
  moreover have "drop (off div 512) (file_secs m (x # cs)) = ?ls @ file_secs m cs" using k c(1) by simp
  ultimately show ?case
    using tail c(2) d(2) k ws
    by (cases "w < length data")
      (simp_all add: write_clusters.simps [of dev m data c] spc_def write_flat_append write_flat_done)
qed

lemma patch_drop:
  assumes "k + j + length xs \<le> length ys"
  shows "take k ys @ patch j xs (drop k ys) = patch (k + j) xs ys"
proof -
  have "drop (j + length xs) (drop k ys) = drop (k + j + length xs) ys" by (simp add: add_ac)
  then show ?thesis by (simp add: patch_def take_add)
qed

lemma secs_data_cong: "(\<And>l. l \<in> set ls \<Longrightarrow> dev_read dev l s' = dev_read dev l s) \<Longrightarrow> secs_data dev s' ls = secs_data dev s ls"
  by (simp add: secs_data_def cong: map_cong)

text \<open>Only the sectors from the \<open>k\<close>-th on were rewritten; the file is still one, with the new contents.\<close>

lemma rewritten_file:
  assumes "fat_file dev m s c cs" "fat_ok dev m s" "layout m cs" "blk_wf s'"
    and "\<forall>l. l \<notin> set (drop k (file_secs m cs)) \<longrightarrow> dev_read dev l s' = dev_read dev l s"
    and "readable dev s' (drop k (file_secs m cs))"
    and "secs_data dev s' (drop k (file_secs m cs)) = patch j data (secs_data dev s (drop k (file_secs m cs)))"
    and "512 * k + j + length data \<le> length (file_data dev m s cs)"
  shows "file_data dev m s' cs = patch (512 * k + j) data (file_data dev m s cs)" "fat_file dev m s' c cs"
proof -
  let ?secs = "file_secs m cs"
  have f: "blk_wf s" "readable dev s ?secs" "runs (\<lambda>c. fat32_get_next_cluster dev m c s) c cs"
    using assms(1) by (auto simp: fat_file_def)
  have split: "?secs = take k ?secs @ drop k ?secs" by simp
  have "set (take k ?secs) \<inter> set (drop k ?secs) = {}"
    using distinct_file_secs [OF assms(3) runs_distinct [OF f(3)]] by (rule set_take_disj_set_drop_if_distinct) simp
  then have out: "dev_read dev l s' = dev_read dev l s" if "l \<in> set (take k ?secs)" for l
    using that assms(5) by auto
  have rt: "readable dev s (take k ?secs)" using f(2) split by (metis readable_simps(3))
  have kl: "k \<le> length ?secs" using assms(8) length_secs_data [OF f(1,2)] by (simp add: file_data_def)
  have "secs_data dev s (take k ?secs) = take (512 * k) (file_data dev m s cs)"
    using length_secs_data [OF f(1) rt] kl split secs_data_simps(3) [of dev s "take k ?secs" "drop k ?secs"]
    by (simp add: file_data_def)
  then have "file_data dev m s' cs = take (512 * k) (file_data dev m s cs) @
      patch j data (drop (512 * k) (file_data dev m s cs))"
    using secs_data_cong [OF out] assms(7) secs_data_drop [OF f(1,2)]
      secs_data_simps(3) [of dev s' "take k ?secs" "drop k ?secs"] by (simp add: file_data_def)
  then show "file_data dev m s' cs = patch (512 * k + j) data (file_data dev m s cs)"
    using patch_drop [OF assms(8)] by simp
  have fat: "dev_read dev l s' = dev_read dev l s" if "l \<in> fat_sectors m" for l
    using file_secs_not_fat [OF assms(3)] that assms(5) by (meson in_set_dropD)
  have "list_all (in_table m) cs" using assms(3) by (auto simp: layout_def list_all_iff)
  then have "runs (\<lambda>c. fat32_get_next_cluster dev m c s') c cs" using runs_frame [OF assms(2,4) fat] f(3) by simp
  moreover have "readable dev s' (take k ?secs)" using rt out by (simp add: readable_def list_all_iff)
  then have "readable dev s' ?secs" using assms(6) split by (metis readable_simps(3))
  ultimately show "fat_file dev m s' c cs" using assms(1,4) by (simp add: fat_file_def)
qed

text \<open>
  C9. Writing inside a file replaces exactly the addressed bytes of its contents and changes no sector
  outside the file, in particular not the allocation table; the file keeps its clusters, so a later
  read returns what was written.
\<close>

theorem fat_write_contents:
  assumes "fat_file dev m s c cs" "fat_ok dev m s" "layout m cs" "data \<noteq> []"
    and "unat offset + length data \<le> length (file_data dev m s cs)"
  shows "\<exists>s'. fat_write dev m c offset data s = Ret (length data, s') \<and>
    file_data dev m s' cs = patch (unat offset) data (file_data dev m s cs) \<and>
    (\<forall>l. l \<notin> set (file_secs m cs) \<longrightarrow> dev_read dev l s' = dev_read dev l s) \<and> fat_file dev m s' c cs"
proof -
  have f: "blk_wf s" "readable dev s (file_secs m cs)" "runs (\<lambda>c. fat32_get_next_cluster dev m c s) c cs" "0 < spc m"
    using assms(1) by (auto simp: fat_file_def)
  note ds = runs_distinct [OF f(3)]
  have "unat offset < length (file_data dev m s cs)" using assms(4,5) by (cases data) auto
  then obtain d where d: "fat_skip (unat (offset div (m_sectors_per_cluster m * 512))) dev m c s = Some d"
    "runs (\<lambda>c. fat32_get_next_cluster dev m c s) d (drop (unat offset div (512 * spc m)) cs)"
    by (rule skip_to_offset [OF assms(1)])
  note o = offset_split(2) [OF assms(1)] offset_split(4-6) [OF assms(1), of offset]
  let ?off = "unat offset mod (512 * spc m)" and ?cs = "drop (unat offset div (512 * spc m)) cs"
  let ?k = "unat offset div 512" and ?secs = "file_secs m cs"
  have lay: "layout m ?cs" using assms(3) by (auto simp: layout_def list_all_iff dest: in_set_dropD)
  have "write_clusters dev m data d ?off 0 s =
      Some (write_flat dev data (drop (?off div 512) (file_secs m ?cs)) (?off mod 512) 0 s)"
    using f by (intro write_clusters_flat [OF assms(2) lay _ d(2)]) (simp_all add: ds file_secs_drop readable_drop)
  moreover have "drop (?off div 512) (file_secs m ?cs) = drop ?k ?secs" using o(3) by (simp add: file_secs_drop add.commute)
  moreover have len: "length (file_data dev m s cs) = 512 * length ?secs" using length_secs_data [OF f(1,2)] by (simp add: file_data_def)
  moreover have q: "unat offset = 512 * ?k + unat offset mod 512" by simp
  have "unat offset mod 512 + (length data - 0) \<le> 512 * length (drop ?k ?secs)"
    unfolding length_drop diff_mult_distrib2 using assms(5) len q by linarith
  moreover note write_flat_data [OF f(1) readable_drop [OF f(2)] distinct_drop [OF distinct_file_secs [OF assms(3) ds]],
    of "unat offset mod 512" 0 data ?k]
  ultimately obtain s' where s': "write_clusters dev m data d ?off 0 s = Some (length data, s')" "blk_wf s'"
    "\<forall>l. l \<notin> set (drop ?k ?secs) \<longrightarrow> dev_read dev l s' = dev_read dev l s" "readable dev s' (drop ?k ?secs)"
    "secs_data dev s' (drop ?k ?secs) = patch (unat offset mod 512) data (secs_data dev s (drop ?k ?secs))"
    using o(4) by auto
  have "fat_write dev m c offset data s = Ret (length data, s')"
    using d(1) o(1,2) s'(1) by (simp add: fat_write_def Let_def ends_def)
  moreover have "512 * ?k + unat offset mod 512 + length data \<le> length (file_data dev m s cs)"
    using assms(5) by simp
  note rewritten_file [OF assms(1-3) s'(2-5) this]
  ultimately show ?thesis using s'(3) q by (auto dest: in_set_dropD)
qed

theorem fat_write_contents_witness:
  "\<exists>s'. fat_write 0 small_mount 3 511 [1, 2] small_volume = Ret (2, s') \<and>
     file_data 0 small_mount s' [3, 4] = replicate 511 65 @ [1, 2] @ replicate 511 66"
proof -
  have "layout small_mount [3, 4]" by (simp add: layout_def in_table_def small_mount_def spc_def)
  from fat_write_contents [OF small_file(1) small_fat_ok this, of "[1, 2]" 511]
  show ?thesis by (auto simp: small_file(2) patch_def)
qed

end
