(* ===== verification/FatNode.thy ===== *)
theory FatNode
  imports Kstate FatIo
begin

text \<open>
  The FAT32 operations the virtual file system calls through the function pointers of a node:
  kernel/fs/fat32/fat32_vfs.c on the shared kernel state. The mount a node belongs to is the one
  its mask names.
\<close>

definition ctx_of :: "ptr \<Rightarrow> kst \<Rightarrow> fat32_ctx" where
  "ctx_of node s =
     (let idx = sint (n_mask (k_nodes s node));
          i = (if idx < 0 \<or> int (length (k_fat_mounts s)) \<le> idx then 0 else nat idx)
      in k_fat_mounts s ! i)"

section \<open>Listing\<close>

datatype listing = ListEnd | ListHit "u8 list" | ListMore nat

text \<open>The entries of a sector: the one with the index sought, the end, or the index still to go.\<close>

fun list_entries :: "nat list \<Rightarrow> u8 list \<Rightarrow> nat \<Rightarrow> listing" where
  "list_entries [] b n = ListMore n"
| "list_entries (i # is) b n =
     (let e = entry b i in
      if e ! 0 = 0 then ListEnd
      else if e ! 0 = 0xE5 then list_entries is b n
      else if de_attr e = 0x0F then list_entries is b n
      else if n = 0 then ListHit e
      else list_entries is b (n - 1))"

fun list_sectors :: "u32 \<Rightarrow> u32 \<Rightarrow> nat list \<Rightarrow> nat \<Rightarrow> blk \<Rightarrow> listing" where
  "list_sectors dev lba [] n s = ListMore n"
| "list_sectors dev lba (k # ks) n s =
     (case kabi_block_read dev (ucast (lba + of_nat k)) s of
        Inl _ \<Rightarrow> ListEnd
      | Inr b \<Rightarrow> (case list_entries [0..<16] b n of ListMore n' \<Rightarrow> list_sectors dev lba ks n' s | r \<Rightarrow> r))"

partial_function (option) list_walk :: "u32 \<Rightarrow> fat32_mount \<Rightarrow> u32 \<Rightarrow> nat \<Rightarrow> blk \<Rightarrow> u8 list option option" where
  "list_walk dev m cluster n s =
     (if cluster < EOC then
        (case list_sectors dev (fat32_cluster_to_lba m cluster) (cluster_sectors m) n s of
           ListEnd \<Rightarrow> Some None
         | ListHit e \<Rightarrow> Some (Some e)
         | ListMore n' \<Rightarrow> list_walk dev m (fat32_get_next_cluster dev m cluster s) n' s)
      else Some None)"

definition format_fat_name :: "u8 list \<Rightarrow> u8 list" where
  "format_fat_name name =
     takeWhile (\<lambda>c. c \<noteq> 32) (take 8 name) @
     (if name ! 8 \<noteq> 32 then 46 # takeWhile (\<lambda>c. c \<noteq> 32) (take 3 (drop 8 name)) else [])"

definition fat32_vfs_readdir :: "ptr \<Rightarrow> u32 \<Rightarrow> kst \<Rightarrow> (kst, dirent option) outcome" where
  "fat32_vfs_readdir node index s =
     (let ctx = ctx_of node s; m = ctx_info ctx in
      obind (ends (list_walk (ctx_dev ctx) m (dir_start m (n_inode (k_nodes s node))) (unat index) (k_blk s)))
        (\<lambda>r. Ret (map_option (\<lambda>e.
           \<lparr>d_name = format_fat_name (de_name e), d_ino = ucast (de_cluster e), d_size = ucast (de_size e),
            d_type = (if de_attr e AND 0x10 \<noteq> 0 then 2 else 1), d_attr = de_attr e\<rparr>) r)))"

section \<open>Lookup\<close>

text \<open>The node allocated for a directory entry; its name is copied into 128 bytes.\<close>

definition fat_child :: "ptr \<Rightarrow> u8 list \<Rightarrow> u8 list \<Rightarrow> kst \<Rightarrow> fs_node" where
  "fat_child node name e s =
     \<lparr>n_name = name, n_mask = n_mask (k_nodes s node),
      n_flags = (if de_attr e AND 0x10 \<noteq> 0 then FS_DIRECTORY else FS_FILE) OR FS_TRANSIENT,
      n_inode = de_cluster e, n_length = ucast (de_size e), n_impl = ImplNum (ucast (n_inode (k_nodes s node))),
      n_driver = n_driver (k_nodes s node)\<rparr>"

definition fat32_vfs_finddir :: "ptr \<Rightarrow> u8 list \<Rightarrow> kst \<Rightarrow> (kst, ptr option \<times> kst) outcome" where
  "fat32_vfs_finddir node name s =
     (let ctx = ctx_of node s; m = ctx_info ctx; target = canonicalize_83 name in
      obind (ends (dir_walk (\<lambda>e. de_name e = target) (ctx_dev ctx) m
                (dir_start m (n_inode (k_nodes s node))) (k_blk s)))
        (\<lambda>r. case r of
             DirHit _ i b \<Rightarrow>
               if 128 \<le> length name then Fault ''name of a node''
               else let (p, s1) = kalloc s
                    in Ret (Some p, set_node p (\<lambda>_. fat_child node name (entry b i) s) s1)
           | _ \<Rightarrow> Ret (None, s)))"

section \<open>Data\<close>

definition fat32_vfs_read :: "ptr \<Rightarrow> u32 \<Rightarrow> u32 \<Rightarrow> kst \<Rightarrow> (kst, u8 list) outcome" where
  "fat32_vfs_read node offset sz s =
     (let ctx = ctx_of node s; nd = k_nodes s node
      in on_part (\<lambda>b. s\<lparr>k_blk := b\<rparr>)
           (fat_read (ctx_dev ctx) (ctx_info ctx) (n_inode nd) (n_length nd) offset sz (k_blk s)))"

definition parent_cluster_of :: "fs_node \<Rightarrow> u32" where
  "parent_cluster_of nd = (case n_impl nd of ImplNum v \<Rightarrow> ucast v | _ \<Rightarrow> 0)"

definition fat32_vfs_expand :: "ptr \<Rightarrow> u32 \<Rightarrow> kst \<Rightarrow> (kst, int \<times> kst) outcome" where
  "fat32_vfs_expand node new_size s =
     (let ctx = ctx_of node s; nd = k_nodes s node
      in obind (on_part (\<lambda>b. s\<lparr>k_blk := b\<rparr>)
            (fat_expand (ctx_dev ctx) (ctx_info ctx) (parent_cluster_of nd) (n_name nd) (n_inode nd) (n_length nd)
               new_size (k_blk s)))
          (\<lambda>(r, inode, len, b). Ret (r, set_node node (\<lambda>nd. nd\<lparr>n_inode := inode, n_length := len\<rparr>) (s\<lparr>k_blk := b\<rparr>))))"

text \<open>The number of bytes written is the result; \<open>data\<close> holds \<open>size\<close> bytes.\<close>

definition fat32_vfs_write :: "ptr \<Rightarrow> u32 \<Rightarrow> u8 list \<Rightarrow> kst \<Rightarrow> (kst, u64 \<times> kst) outcome" where
  "fat32_vfs_write node offset data s0 =
     (let sum = offset + of_nat (length data) in
      obind (if n_length (k_nodes s0 node) < ucast sum then fat32_vfs_expand node sum s0 else Ret (KABI_SUCCESS, s0))
        (\<lambda>(r, s). if r \<noteq> KABI_SUCCESS then Ret (0, s)
           else let ctx = ctx_of node s in
             obind (on_part (\<lambda>b. s\<lparr>k_blk := b\<rparr>)
                (fat_write (ctx_dev ctx) (ctx_info ctx) (n_inode (k_nodes s node)) offset data (k_blk s)))
               (\<lambda>(n, b). Ret (of_nat n, s\<lparr>k_blk := b\<rparr>))))"

section \<open>Changing directories\<close>

definition fat32_vfs_create :: "ptr \<Rightarrow> u8 list \<Rightarrow> kst \<Rightarrow> (kst, kst) outcome" where
  "fat32_vfs_create node name s =
     (let ctx = ctx_of node s; inode = n_inode (k_nodes s node) in
      obind (ends (fat32_find_file (ctx_dev ctx) (ctx_info ctx) name inode (k_blk s)))
        (\<lambda>r. case r of
             Inr _ \<Rightarrow> Ret s
           | Inl _ \<Rightarrow>
               obind (ends (fat32_add_dirent (ctx_dev ctx) (ctx_info ctx) inode name 0 0 0x20 (k_blk s)))
                 (\<lambda>(_, b). Ret (s\<lparr>k_blk := b\<rparr>))))"

definition fat32_vfs_mkdir :: "ptr \<Rightarrow> u8 list \<Rightarrow> kst \<Rightarrow> (kst, kst) outcome" where
  "fat32_vfs_mkdir node name s =
     (let ctx = ctx_of node s in
      obind (ends (fat32_mkdir (ctx_dev ctx) (ctx_info ctx) (n_inode (k_nodes s node)) name (k_blk s)))
        (\<lambda>(_, b). Ret (s\<lparr>k_blk := b\<rparr>)))"

definition fat32_vfs_unlink :: "ptr \<Rightarrow> u8 list \<Rightarrow> kst \<Rightarrow> (kst, int \<times> kst) outcome" where
  "fat32_vfs_unlink node name s =
     (let ctx = ctx_of node s in
      obind (ends (fat32_unlink (ctx_dev ctx) (ctx_info ctx) (n_inode (k_nodes s node)) name (k_blk s)))
        (\<lambda>(r, b). Ret (r, s\<lparr>k_blk := b\<rparr>)))"

declare list_walk.simps [code]

end
