(* ===== verification/Initrd.thy ===== *)
theory Initrd
  imports Kstate
begin

text \<open>
  The initial RAM disk, kernel/modules/fs_initrd/initrd.c. The image is linked into the kernel; its
  layout is a 4-byte count, headers of 73 bytes (magic, 64-byte name, offset, length), then the data.
\<close>

definition initrd_nfiles :: "u8 list \<Rightarrow> u32" where
  "initrd_nfiles img = get32 img 0"

definition header_at :: "nat \<Rightarrow> nat" where "header_at i = 4 + 73 * i"

definition header_name :: "u8 list \<Rightarrow> nat \<Rightarrow> u8 list" where
  "header_name img i = cstr (drop (header_at i + 1) img)"

definition header_offset :: "u8 list \<Rightarrow> nat \<Rightarrow> u32" where
  "header_offset img i = get32 img (header_at i + 65)"

definition header_length :: "u8 list \<Rightarrow> nat \<Rightarrow> u32" where
  "header_length img i = get32 img (header_at i + 69)"

text \<open>Reading: the result is the copied bytes; a copy that leaves the image is a fault.\<close>

definition initrd_read :: "ptr \<Rightarrow> u64 \<Rightarrow> u64 \<Rightarrow> kst \<Rightarrow> (kst, u8 list) outcome" where
  "initrd_read node offset size0 s =
     (let img = k_initrd_bin s; inode = n_inode (k_nodes s node) in
      if of_nat (length (k_initrd s)) \<le> inode then Ret []
      else
        let len = ucast (header_length img (unat inode)) :: u64 in
        if len < offset then Ret []
        else
          let sz = (if len < offset + size0 then len - offset else size0);
              start = unat (header_offset img (unat inode)) + unat offset
          in if start + unat sz \<le> length img then Ret (take (unat sz) (drop start img))
             else Fault ''initrd image'')"

definition initrd_readdir :: "ptr \<Rightarrow> u64 \<Rightarrow> kst \<Rightarrow> dirent option" where
  "initrd_readdir node index s =
     (if n_flags (k_nodes s node) AND FS_DIRECTORY \<noteq> 0 \<and> unat index < length (k_initrd s) then
        let nd = k_nodes s (k_initrd s ! unat index)
        in Some \<lparr>d_name = n_name nd, d_ino = ucast (n_inode nd), d_size = n_length nd,
                 d_type = ucast (n_flags nd AND 7), d_attr = 0\<rparr>
      else None)"

definition initrd_finddir :: "ptr \<Rightarrow> u8 list \<Rightarrow> kst \<Rightarrow> ptr option" where
  "initrd_finddir node name s =
     (if n_flags (k_nodes s node) AND FS_DIRECTORY \<noteq> 0
      then find (\<lambda>p. n_name (k_nodes s p) = name) (k_initrd s) else None)"

text \<open>The loop of \<open>fs_initrd_init\<close> that fills the node array.\<close>

fun initrd_nodes :: "nat list \<Rightarrow> kst \<Rightarrow> kst" where
  "initrd_nodes [] s = s"
| "initrd_nodes (i # is) s =
     (let img = k_initrd_bin s; (p, s1) = kalloc s
      in initrd_nodes is (set_node p (\<lambda>_. \<lparr>n_name = header_name img i, n_mask = 0, n_flags = FS_FILE OR FS_PERSISTENT,
           n_inode = of_nat i, n_length = ucast (header_length img i), n_impl = NoImpl, n_driver = DriverInitrdFile\<rparr>)
           (s1\<lparr>k_initrd := k_initrd s @ [p]\<rparr>)))"

definition initrd_fill :: "kst \<Rightarrow> kst" where
  "initrd_fill s = initrd_nodes [0..<unat (initrd_nfiles (k_initrd_bin s))] (s\<lparr>k_initrd := []\<rparr>)"

end
