(* ===== verification/Path.thy ===== *)
theory Path
  imports Cstring
begin

text \<open>
  Path names, kernel/core/vfs_core.c: \<open>vfs_canonicalize_path\<close> and the two routines that split off
  the last component. Source strings are given by the bytes before their terminator, destinations
  as buffers; \<open>None\<close> is an access outside a buffer. The canonical form is shown to be what resolving
  the components one after the other gives, and to be stable.
\<close>

section \<open>Canonicalization\<close>

text \<open>The contents of \<open>buf\<close> before the source is appended.\<close>

definition canon_start :: "u8 list \<Rightarrow> u8 list \<Rightarrow> u8 list option" where
  "canon_start cwd src =
     (if hd src \<noteq> 47 then
        let b = take (min (length cwd) 511) cwd in
        if b = [] then None
        else if last b \<noteq> 47 then Some (b @ [47]) else Some b
      else Some [])"

fun canon_append :: "u8 list \<Rightarrow> u8 list \<Rightarrow> u8 list" where
  "canon_append buf [] = buf"
| "canon_append buf (c # src) = (if length buf < 511 then canon_append (buf @ [c]) src else buf)"

text \<open>What the splitting loop does with one token; at most 32 components are kept.\<close>

definition canon_token :: "u8 list list \<Rightarrow> u8 list \<Rightarrow> u8 list list" where
  "canon_token comps token =
     (if token = [46, 46] then butlast comps
      else if token = [46] \<or> token = [] then comps
      else if length comps < 32 then comps @ [token]
      else comps)"

fun canon_split :: "u8 list \<Rightarrow> u8 list \<Rightarrow> u8 list list \<Rightarrow> u8 list list" where
  "canon_split [] token comps = canon_token comps token"
| "canon_split (c # cs) token comps =
     (if c = 47 then canon_split cs [] (canon_token comps token)
      else canon_split cs (token @ [c]) comps)"

text \<open>Copying a component into the destination.\<close>

fun copy_in :: "nat \<Rightarrow> u8 list \<Rightarrow> u8 list \<Rightarrow> u8 list option" where
  "copy_in i [] dest = Some dest"
| "copy_in i (c # cs) dest = do { d \<leftarrow> poke i c dest; copy_in (Suc i) cs d }"

fun canon_rebuild :: "u8 list list \<Rightarrow> u8 list \<Rightarrow> nat \<Rightarrow> u8 list option" where
  "canon_rebuild [] dest dest_p = Some dest"
| "canon_rebuild (c # cs) dest dest_p =
     (if 512 \<le> dest_p + length c + 1 then Some dest
      else do {
        d1 \<leftarrow> copy_in dest_p c dest;
        let p1 = dest_p + length c;
        (d2, p2) \<leftarrow> (if cs \<noteq> [] then do { d \<leftarrow> poke p1 47 d1; Some (d, p1 + 1) } else Some (d1, p1));
        d3 \<leftarrow> poke p2 0 d2;
        canon_rebuild cs d3 p2 })"

definition vfs_canonicalize_path :: "u8 list \<Rightarrow> u8 list \<Rightarrow> u8 list \<Rightarrow> u8 list option" where
  "vfs_canonicalize_path cwd src dest =
     (if src = [] then strcpy dest [47, 0]
      else do {
        b \<leftarrow> canon_start cwd src;
        let buf = canon_append b src;
        if length buf < 512 then do {
          let p = (if buf \<noteq> [] \<and> hd buf = 47 then tl buf else buf);
          let comps = canon_split p [] [];
          d0 \<leftarrow> poke 0 47 dest;
          d1 \<leftarrow> poke 1 0 d0;
          canon_rebuild comps d1 1 }
        else None })"

section \<open>Parent and last component\<close>

text \<open>The index of the last slash, as the loops over the cleaned path find it.\<close>

fun last_slash :: "u8 list \<Rightarrow> nat \<Rightarrow> nat option \<Rightarrow> nat option" where
  "last_slash [] i found = found"
| "last_slash (c # cs) i found = last_slash cs (Suc i) (if c = 47 then Some i else found)"

text \<open>\<open>junk\<close> is the old contents of the local 512-byte buffer.\<close>

definition vfs_get_parent_path :: "u8 list \<Rightarrow> u8 list \<Rightarrow> u8 list \<Rightarrow> u8 list \<Rightarrow> u8 list option" where
  "vfs_get_parent_path cwd junk dest path = do {
     buf \<leftarrow> vfs_canonicalize_path cwd path junk;
     len \<leftarrow> strlen (Some buf);
     if len \<le> 1 then strcpy dest [47, 0]
     else case last_slash (take len buf) 0 None of
         None \<Rightarrow> None
       | Some 0 \<Rightarrow> strcpy dest [47, 0]
       | Some dlen \<Rightarrow> do { d \<leftarrow> copy_in 0 (take dlen buf) dest; poke dlen 0 d } }"

definition vfs_get_basename :: "u8 list \<Rightarrow> u8 list \<Rightarrow> u8 list \<Rightarrow> u8 list \<Rightarrow> u8 list option" where
  "vfs_get_basename cwd junk dest path = do {
     buf \<leftarrow> vfs_canonicalize_path cwd path junk;
     len \<leftarrow> strlen (Some buf);
     case last_slash (take len buf) 0 None of
       None \<Rightarrow> strcpy dest buf
     | Some i \<Rightarrow> strcpy dest (drop (Suc i) buf) }"

section \<open>Specification\<close>

text \<open>The parts of a path between slashes, the result of walking along them, and its spelling.\<close>

fun parts :: "u8 list \<Rightarrow> u8 list list" where
  "parts [] = [[]]"
| "parts (c # cs) = (if c = 47 then [] # parts cs else (c # hd (parts cs)) # tl (parts cs))"

definition step_part :: "u8 list list \<Rightarrow> u8 list \<Rightarrow> u8 list list" where
  "step_part dir p = (if p = [46, 46] then butlast dir else if p = [46] \<or> p = [] then dir else dir @ [p])"

definition walk_parts :: "u8 list \<Rightarrow> u8 list list" where
  "walk_parts path = foldl step_part [] (parts path)"

fun join :: "u8 list list \<Rightarrow> u8 list" where
  "join [] = []"
| "join [c] = c"
| "join (c # cs) = c @ 47 # join cs"

definition spell :: "u8 list list \<Rightarrow> u8 list" where
  "spell cs = 47 # join cs"

definition absolute :: "u8 list \<Rightarrow> u8 list \<Rightarrow> u8 list" where
  "absolute cwd src = (if src \<noteq> [] \<and> hd src = 47 then src
     else if cwd \<noteq> [] \<and> last cwd = 47 then cwd @ src else cwd @ 47 # src)"

text \<open>A component that names something: nonempty, neither dot nor dot-dot, without slash or zero byte.\<close>

definition name_part :: "u8 list \<Rightarrow> bool" where
  "name_part p \<longleftrightarrow> p \<noteq> [] \<and> p \<noteq> [46] \<and> p \<noteq> [46, 46] \<and> 47 \<notin> set p \<and> 0 \<notin> set p"

lemma parts_not_Nil [simp]: "parts cs \<noteq> []"
  by (induction cs) auto

lemma parts_no_slash: "p \<in> set (parts cs) \<Longrightarrow> 47 \<notin> set p"
proof (induction cs arbitrary: p)
  case (Cons c cs)
  from Cons.prems show ?case
  proof (cases "c = 47")
    case False
    with Cons.prems have "p = c # hd (parts cs) \<or> p \<in> set (tl (parts cs))" by simp
    then show ?thesis using Cons.IH False by (cases "parts cs") auto
  qed (use Cons in auto)
qed simp

lemma parts_bytes: "p \<in> set (parts cs) \<Longrightarrow> set p \<subseteq> set cs"
proof (induction cs arbitrary: p)
  case (Cons c cs)
  from Cons.prems Cons.IH show ?case by (cases "parts cs") (force split: if_splits)+
qed simp

lemma walk_names: "(\<And>p. p \<in> set ps \<Longrightarrow> 47 \<notin> set p \<and> 0 \<notin> set p) \<Longrightarrow> list_all name_part dir \<Longrightarrow>
  list_all name_part (foldl step_part dir ps)"
proof (induction ps arbitrary: dir)
  case (Cons p ps)
  then have "p = [46, 46] \<or> p = [46] \<or> p = [] \<or> name_part p" by (simp add: name_part_def) blast
  then have "list_all name_part (step_part dir p)"
    using Cons.prems(2) by (auto simp: step_part_def list_all_iff dest: in_set_butlastD)
  then show ?case using Cons by simp
qed simp

lemma walk_parts_names: "0 \<notin> set path \<Longrightarrow> list_all name_part (walk_parts path)"
  unfolding walk_parts_def by (rule walk_names) (use parts_no_slash parts_bytes in \<open>fastforce+\<close>)

section \<open>The loops\<close>

lemma canon_append_take: "length buf \<le> 511 \<Longrightarrow> canon_append buf src = buf @ take (511 - length buf) src"
proof (induction src arbitrary: buf)
  case (Cons c src)
  then show ?case by (cases "length buf < 511") (simp_all add: take_Cons')
qed simp

lemma canon_split_foldl:
  "canon_split cs token comps = foldl canon_token comps ((token @ hd (parts cs)) # tl (parts cs))"
proof (induction cs arbitrary: token comps)
  case (Cons c cs)
  show ?case
    using parts_not_Nil [of cs] Cons [of "[]" "canon_token comps token"] Cons [of "token @ [c]" comps]
    by (cases "parts cs") auto
qed simp

lemma step_part_length: "length (step_part dir p) \<le> Suc (length dir)"
  by (auto simp: step_part_def)

text \<open>The limit of 32 components does not matter for paths with at most 32 parts.\<close>

lemma canon_token_step:
  "length dir + length ps \<le> 32 \<Longrightarrow> foldl canon_token dir ps = foldl step_part dir ps"
proof (induction ps arbitrary: dir)
  case (Cons p ps)
  then have "canon_token dir p = step_part dir p" by (simp add: canon_token_def step_part_def)
  then show ?case using Cons.IH [of "step_part dir p"] Cons.prems step_part_length [of dir p] by simp
qed simp

lemma copy_in_fits:
  "length cs \<le> length d \<Longrightarrow> copy_in (length a) cs (a @ d) = Some (a @ cs @ drop (length cs) d)"
proof (induction cs arbitrary: a d)
  case (Cons c cs)
  then obtain y d' where d: "d = y # d'" by (cases d) auto
  from Cons.IH [of d' "a @ [c]"] Cons.prems show ?case by (simp add: d)
qed simp

lemma join_Cons: "cs \<noteq> [] \<Longrightarrow> join (c # cs) = c @ 47 # join cs"
  by (cases cs) auto

lemma canon_rebuild_join:
  "length a + length (join cs) < 511 \<Longrightarrow> length a + length (join cs) < length a + Suc (length d) \<Longrightarrow>
   \<exists>r. canon_rebuild cs (a @ 0 # d) (length a) = Some (a @ join cs @ 0 # r) \<and>
     length (join cs) + length r = length d"
proof (induction cs arbitrary: a d)
  case (Cons c cs)
  let ?n = "length c"
  have n: "?n \<le> length (join (c # cs))" by (cases cs) auto
  then have "?n \<le> length (0 # d)" "length a + ?n + 1 < 512" using Cons.prems by simp_all
  then have c: "copy_in (length a) c (a @ 0 # d) = Some (a @ c @ drop ?n (0 # d))" by (intro copy_in_fits)
  show ?case
  proof (cases "cs = []")
    case True
    then have "?n \<le> length d" using Cons.prems by simp
    then have "0 < length (drop ?n (0 # d))" by simp
    then obtain y d' where y: "drop ?n (0 # d) = y # d'" by (cases "drop ?n (0 # d)") simp_all
    have "length d = ?n + length d'" using arg_cong [OF y, of length] \<open>?n \<le> length d\<close> by simp
    then show ?thesis using c y True \<open>length a + ?n + 1 < 512\<close>
      by (simp add: list_update_append nth_append)
  next
    case False
    have j: "join (c # cs) = c @ 47 # join cs" using False by (rule join_Cons)
    have "2 \<le> length (drop ?n (0 # d))" using Cons.prems j by simp
    then obtain y z d' where y: "drop ?n (0 # d) = y # z # d'"
      by (metis One_nat_def Suc_1 Suc_le_length_iff)
    have l: "length d = ?n + 1 + length d'" using arg_cong [OF y, of length] by simp
    from Cons.IH [of "a @ c @ [47]" d'] Cons.prems obtain r where
      "canon_rebuild cs ((a @ c @ [47]) @ 0 # d') (length (a @ c @ [47])) = Some ((a @ c @ [47]) @ join cs @ 0 # r)"
      "length (join cs) + length r = length d'" by (auto simp: j l)
    then show ?thesis using c y False \<open>length a + ?n + 1 < 512\<close> l
      by (simp add: j list_update_append nth_append)
  qed
qed simp

section \<open>The canonical form\<close>

definition extent :: "u8 list list \<Rightarrow> nat" where
  "extent cs = sum_list (map (\<lambda>c. Suc (length c)) cs)"

lemma extent_simps [simp]:
  "extent [] = 0" "extent (c # cs) = Suc (length c) + extent cs" "extent (cs @ ds) = extent cs + extent ds"
  by (simp_all add: extent_def)

lemma extent_parts: "extent (parts path) = Suc (length path)"
proof (induction path)
  case (Cons c path)
  then show ?case by (cases "parts path") auto
qed simp

lemma extent_step: "extent (step_part dir p) \<le> extent dir + extent [p]"
proof -
  have "extent (butlast dir) \<le> extent dir"
    by (cases dir rule: rev_cases) simp_all
  then show ?thesis by (auto simp: step_part_def)
qed

lemma extent_walk: "extent (foldl step_part dir ps) \<le> extent dir + extent ps"
proof (induction ps arbitrary: dir)
  case (Cons p ps)
  show ?case using Cons [of "step_part dir p"] extent_step [of dir p] by simp
qed simp

lemma length_join: "cs \<noteq> [] \<Longrightarrow> Suc (length (join cs)) = extent cs"
  by (induction cs rule: join.induct) auto

lemma length_spell_walk:
  assumes "path = 47 # xs"
  shows "length (spell (walk_parts path)) \<le> length path"
proof (cases "walk_parts path = []")
  case True
  then show ?thesis using assms by (simp add: spell_def)
next
  case False
  have "extent (walk_parts path) \<le> extent (parts xs)"
    using extent_walk [of "[]" "parts xs"] assms by (simp add: walk_parts_def step_part_def)
  then show ?thesis using length_join [OF False] assms by (simp add: spell_def extent_parts)
qed

lemma hd_absolute:
  assumes "hd cwd = 47" "cwd \<noteq> []" "src \<noteq> []"
  obtains xs where "absolute cwd src = 47 # xs"
proof -
  have "absolute cwd src \<noteq> []" "hd (absolute cwd src) = 47"
    using assms by (cases cwd; simp add: absolute_def)+
  then show ?thesis using that by (cases "absolute cwd src") simp_all
qed

lemma canon_buffer:
  assumes "hd cwd = 47" "cwd \<noteq> []" "src \<noteq> []" "length (absolute cwd src) < 511"
  shows "\<exists>b. canon_start cwd src = Some b \<and> canon_append b src = absolute cwd src"
proof (cases "hd src = 47")
  case True
  then show ?thesis using assms by (simp add: canon_start_def absolute_def canon_append_take)
next
  case False
  then show ?thesis using assms
    by (auto simp: canon_start_def absolute_def canon_append_take Let_def min_def split: if_splits)
qed

text \<open>The conditions under which neither the buffers nor the component table are exhausted.\<close>

definition path_fits :: "u8 list \<Rightarrow> u8 list \<Rightarrow> bool" where
  "path_fits cwd src \<longleftrightarrow> cwd \<noteq> [] \<and> hd cwd = 47 \<and> 0 \<notin> set cwd \<and> src \<noteq> [] \<and> 0 \<notin> set src \<and>
     length (absolute cwd src) < 511 \<and> length (parts (absolute cwd src)) \<le> 33"

lemma canonicalize_spell:
  assumes "path_fits cwd src" "512 \<le> length dest"
  shows "\<exists>r. vfs_canonicalize_path cwd src dest = Some (spell (walk_parts (absolute cwd src)) @ 0 # r) \<and>
    length (spell (walk_parts (absolute cwd src))) + Suc (length r) = length dest"
proof -
  let ?path = "absolute cwd src"
  obtain xs where xs: "?path = 47 # xs" using assms(1) by (auto simp: path_fits_def elim: hd_absolute)
  obtain b where b: "canon_start cwd src = Some b" "canon_append b src = ?path"
    using canon_buffer assms(1) by (auto simp: path_fits_def)
  have "canon_split xs [] [] = foldl step_part [] (parts xs)"
    using canon_token_step [of "[]" "parts xs"] assms(1) xs
    by (cases "parts xs") (simp_all add: canon_split_foldl path_fits_def)
  also have "\<dots> = walk_parts ?path" by (simp add: xs walk_parts_def step_part_def)
  finally have w: "canon_split xs [] [] = walk_parts ?path" .
  obtain y z d where d: "dest = y # z # d"
    using assms(2) by (cases dest; cases "tl dest") auto
  have "length (spell (walk_parts ?path)) < 511"
    using length_spell_walk [OF xs] assms(1) by (simp add: path_fits_def)
  then have "length (join (walk_parts ?path)) < 510" by (simp add: spell_def)
  then show ?thesis
    using canon_rebuild_join [of "[47]" "walk_parts ?path" d] assms b w
    by (auto simp: vfs_canonicalize_path_def xs d spell_def path_fits_def)
qed

lemma cstr_spell: "list_all name_part cs \<Longrightarrow> 0 \<notin> set (spell cs)"
  by (induction cs rule: join.induct) (auto simp: spell_def name_part_def)

lemma absolute_bytes: "path_fits cwd src \<Longrightarrow> 0 \<notin> set (absolute cwd src)"
  by (auto simp: path_fits_def absolute_def)

text \<open>
  C25. Canonicalization computes the directory reached by walking the path from the root or, if it is
  relative, from the working directory: dot-dot leaves a directory (and stays at the root), dot and
  empty parts stay. The result is a terminated string inside the destination, spelled with single
  slashes and without dot parts, provided the joined path is shorter than 511 bytes and has at most
  32 parts.
\<close>

theorem canonicalize_walks:
  assumes "path_fits cwd src" "512 \<le> length dest"
  shows "\<exists>dest'. vfs_canonicalize_path cwd src dest = Some dest' \<and> length dest' = length dest \<and>
    terminated dest' \<and> cstr dest' = spell (walk_parts (absolute cwd src)) \<and>
    list_all name_part (walk_parts (absolute cwd src))"
proof -
  have names: "list_all name_part (walk_parts (absolute cwd src))"
    using assms(1) by (intro walk_parts_names absolute_bytes)
  show ?thesis
    using canonicalize_spell [OF assms] names cstr_spell [OF names] by (auto simp: terminated_def)
qed

theorem canonicalize_walks_witness:
  "\<exists>dest'. vfs_canonicalize_path [47, 97, 47, 98] [46, 46, 47, 46, 47, 99] (replicate 512 7) = Some dest' \<and>
     cstr dest' = [47, 97, 47, 99]"
proof -
  have "path_fits [47, 97, 47, 98] [46, 46, 47, 46, 47, 99]" by (simp add: path_fits_def absolute_def)
  moreover have "spell (walk_parts (absolute [47, 97, 47, 98] [46, 46, 47, 46, 47, 99])) = [47, 97, 47, 99]"
    by (simp add: spell_def walk_parts_def absolute_def step_part_def)
  ultimately show ?thesis using canonicalize_walks [of _ _ "replicate 512 7"] by fastforce
qed

lemma parts_append_slash: "47 \<notin> set c \<Longrightarrow> parts (c @ 47 # xs) = c # parts xs"
  by (induction c) auto

lemma parts_single: "47 \<notin> set c \<Longrightarrow> parts c = [c]"
  by (induction c) auto

lemma parts_join: "cs \<noteq> [] \<Longrightarrow> list_all name_part cs \<Longrightarrow> parts (join cs) = cs"
proof (induction cs rule: join.induct)
  case (3 c d cs)
  then have "47 \<notin> set c" "parts (join (d # cs)) = d # cs" by (simp_all add: name_part_def)
  then show ?case by (simp add: parts_append_slash)
qed (auto simp: name_part_def parts_single)

lemma foldl_names: "list_all name_part cs \<Longrightarrow> foldl step_part dir cs = dir @ cs"
  by (induction cs arbitrary: dir) (auto simp: step_part_def name_part_def)

lemma walk_spell: "list_all name_part cs \<Longrightarrow> walk_parts (spell cs) = cs"
proof (cases "cs = []")
  case False
  assume "list_all name_part cs"
  then show ?thesis using False foldl_names [of cs "[]"]
    by (simp add: walk_parts_def spell_def parts_join step_part_def)
qed (simp add: walk_parts_def spell_def step_part_def)

lemma length_walk: "length (foldl step_part dir ps) \<le> length dir + length ps"
proof (induction ps arbitrary: dir)
  case (Cons p ps)
  show ?case using Cons [of "step_part dir p"] step_part_length [of dir p] by simp
qed simp

lemma parts_spell: "list_all name_part cs \<Longrightarrow> length (parts (spell cs)) = Suc (max 1 (length cs))"
  by (cases "cs = []") (simp_all add: spell_def parts_join Suc_leI)

text \<open>
  C27. The canonical form is stable: canonicalizing the result again, from any working directory,
  gives the same path.
\<close>

theorem canonicalize_stable:
  assumes "path_fits cwd src" "512 \<le> length dest" "512 \<le> length dest2" "cwd2 \<noteq> []" "hd cwd2 = 47" "0 \<notin> set cwd2"
  shows "\<exists>d d2. vfs_canonicalize_path cwd src dest = Some d \<and>
    vfs_canonicalize_path cwd2 (cstr d) dest2 = Some d2 \<and> cstr d2 = cstr d"
proof -
  let ?w = "walk_parts (absolute cwd src)"
  obtain xs where xs: "absolute cwd src = 47 # xs" using assms(1) by (auto simp: path_fits_def elim: hd_absolute)
  have names: "list_all name_part ?w" using assms(1) by (intro walk_parts_names absolute_bytes)
  have abs: "absolute cwd2 (spell ?w) = spell ?w" by (simp add: absolute_def spell_def)
  have "length ?w \<le> length (parts xs)"
    using length_walk [of "[]" "parts xs"] by (simp add: xs walk_parts_def step_part_def)
  then have "length (parts (spell ?w)) \<le> 33"
    using parts_spell [OF names] assms(1) by (simp add: xs path_fits_def)
  moreover have "length (spell ?w) < 511"
    using length_spell_walk [OF xs] assms(1) by (simp add: path_fits_def)
  ultimately have fits: "path_fits cwd2 (spell ?w)"
    using assms(4-6) cstr_spell [OF names] by (simp add: path_fits_def abs) (simp add: spell_def)
  obtain r where r: "vfs_canonicalize_path cwd src dest = Some (spell ?w @ 0 # r)"
    using canonicalize_spell [OF assms(1,2)] by blast
  obtain r2 where "vfs_canonicalize_path cwd2 (spell ?w) dest2 = Some (spell ?w @ 0 # r2)"
    using canonicalize_spell [OF fits assms(3)] walk_spell [OF names] by (auto simp: abs)
  then show ?thesis using r cstr_spell [OF names] by auto
qed

theorem canonicalize_stable_witness:
  "\<exists>d d2. vfs_canonicalize_path [47] [97, 47, 46] (replicate 512 7) = Some d \<and>
    vfs_canonicalize_path [47, 98] (cstr d) (replicate 512 9) = Some d2 \<and> cstr d2 = cstr d"
proof -
  have "path_fits [47] [97, 47, 46]" by (simp add: path_fits_def absolute_def)
  then show ?thesis
    using canonicalize_stable [of "[47]" "[97, 47, 46]" "replicate 512 7" "replicate 512 9" "[47, 98]"] by simp
qed

section \<open>Parent and last component of a path\<close>

lemma last_slash_none: "47 \<notin> set b \<Longrightarrow> last_slash b i f = f"
  by (induction b arbitrary: i) auto

lemma last_slash_append: "47 \<notin> set b \<Longrightarrow> last_slash (a @ 47 # b) i f = Some (i + length a)"
  by (induction a arbitrary: i f) (auto simp: last_slash_none)

lemma join_snoc: "cs \<noteq> [] \<Longrightarrow> join (cs @ [b]) = join cs @ 47 # b"
  by (induction cs rule: join.induct) auto

lemma spell_snoc: "spell (cs @ [b]) = (if cs = [] then [] else spell cs) @ 47 # b"
  by (simp add: spell_def join_snoc)

lemma strcpy_fits: "0 \<notin> set cs \<Longrightarrow> length cs < length dest \<Longrightarrow>
  strcpy dest (cs @ 0 # r) = Some (cs @ 0 # drop (Suc (length cs)) dest)"
  using strcpy_loop_fits [of cs "[]" dest r] by (simp add: strcpy_def)

lemma strcpy_overflow: "0 \<notin> set cs \<Longrightarrow> length dest \<le> length cs \<Longrightarrow> strcpy dest (cs @ 0 # r) = None"
  using strcpy_loop_overflow [of cs dest 0 r] by (simp add: strcpy_def)

text \<open>
  C29. For a path whose last component is \<open>b\<close> the two splitting routines yield the canonical parent
  directory and \<open>b\<close>. The component is copied without a length check: into a buffer that is not
  longer than \<open>b\<close>, such as the 128-byte buffers of \<open>open\<close>, \<open>sys_mkdir\<close> and \<open>sys_unlink\<close>, the copy
  writes past the end.
\<close>

theorem split_path:
  assumes "path_fits cwd path" "512 \<le> length junk" "512 \<le> length dest" "walk_parts (absolute cwd path) = cs @ [b]"
  shows "(\<exists>d. vfs_get_parent_path cwd junk dest path = Some d \<and> cstr d = spell cs) \<and>
    vfs_get_basename cwd junk small path =
      (if length b < length small then Some (b @ 0 # drop (Suc (length b)) small) else None)"
proof -
  obtain r where r: "vfs_canonicalize_path cwd path junk = Some (spell (cs @ [b]) @ 0 # r)"
    and l: "length (spell (cs @ [b])) + Suc (length r) = length junk"
    using canonicalize_spell [OF assms(1,2)] assms(4) by auto
  have names: "list_all name_part (cs @ [b])"
    using walk_parts_names [OF absolute_bytes [OF assms(1)]] assms(4) by simp
  then have nz: "0 \<notin> set (spell (cs @ [b]))" "0 \<notin> set (spell cs)" "0 \<notin> set b" "47 \<notin> set b" "b \<noteq> []"
    using cstr_spell [of "cs @ [b]"] cstr_spell [of cs] by (simp_all add: name_part_def)
  obtain xs where xs: "absolute cwd path = 47 # xs" using assms(1) by (auto simp: path_fits_def elim: hd_absolute)
  have len: "length (spell (cs @ [b])) < 511"
    using length_spell_walk [OF xs] assms(1,4) by (simp add: path_fits_def)
  let ?a = "if cs = [] then [] else spell cs"
  have sl: "last_slash (spell (cs @ [b])) 0 None = Some (length ?a)"
    using last_slash_append [OF nz(4), of ?a 0 None] by (simp add: spell_snoc)
  have two: "\<not> length (spell (cs @ [b])) \<le> 1" using nz(5) by (cases b) (simp_all add: spell_snoc)
  have n0: "strlen (Some (spell (cs @ [b]) @ 0 # r)) = Some (length (spell (cs @ [b])))" using nz(1) by simp
  have "\<exists>d. vfs_get_parent_path cwd junk dest path = Some d \<and> cstr d = spell cs"
  proof (cases "cs = []")
    case True
    have "strcpy dest [47, 0] = Some (spell cs @ 0 # drop (Suc (Suc 0)) dest)"
      using strcpy_fits [of "[47]" dest "[]"] assms(3) True by (simp add: spell_def)
    then show ?thesis using r n0 sl two nz(2) True by (simp add: vfs_get_parent_path_def)
  next
    case False
    then obtain n where n: "length (spell cs) = Suc n" "Suc n < length dest"
      using len assms(3) by (simp add: spell_snoc) (simp add: spell_def)
    then have "copy_in 0 (spell cs) dest = Some (spell cs @ drop (Suc n) dest)"
      using copy_in_fits [of "spell cs" dest "[]"] by simp
    moreover obtain y ys where "drop (Suc n) dest = y # ys" using n(2) by (cases "drop (Suc n) dest") auto
    ultimately show ?thesis using r n0 sl two nz(2) n False
      by (simp add: vfs_get_parent_path_def spell_snoc list_update_append)
  qed
  moreover have "vfs_get_basename cwd junk small path =
      (if length b < length small then Some (b @ 0 # drop (Suc (length b)) small) else None)"
  proof -
    obtain a where a: "spell (cs @ [b]) = a @ 47 # b" "length ?a = length a" using spell_snoc by metis
    show ?thesis using r n0 sl strcpy_fits [OF nz(3), of small r] strcpy_overflow [OF nz(3), of small r]
      unfolding a by (simp add: vfs_get_basename_def)
  qed
  ultimately show ?thesis ..
qed

lemma long_name: "list_all name_part [replicate 128 98]"
proof -
  have "length (replicate 128 (98 :: u8)) = 128" by simp
  then have "replicate 128 (98 :: u8) \<noteq> [46]" "replicate 128 (98 :: u8) \<noteq> [46, 46]" by fastforce+
  then show ?thesis by (simp add: name_part_def)
qed

theorem split_path_witness:
  "vfs_get_basename [47] (replicate 512 7) (replicate 128 7) [97, 47, 98] = Some (98 # 0 # replicate 126 7) \<and>
   vfs_get_basename [47] (replicate 512 7) (replicate 128 7) (47 # replicate 128 98) = None"
proof -
  have f: "path_fits [47] [97, 47, 98]" "walk_parts (absolute [47] [97, 47, 98]) = [[97]] @ [[98]]"
    by (simp_all add: path_fits_def absolute_def walk_parts_def step_part_def)
  have ab: "absolute [47] (47 # replicate 128 98) = spell [replicate 128 98]"
    by (simp add: absolute_def spell_def)
  have "path_fits [47] (47 # replicate 128 98)"
    using parts_spell [OF long_name] by (simp add: path_fits_def ab) (simp add: spell_def)
  moreover have "walk_parts (absolute [47] (47 # replicate 128 98)) = [] @ [replicate 128 98]"
    using walk_spell [OF long_name] by (simp add: ab)
  ultimately show ?thesis
    using split_path [OF f(1) _ _ f(2), of "replicate 512 7" "replicate 512 7" "replicate 128 7"]
      split_path [of "[47]" "47 # replicate 128 98" "replicate 512 7" "replicate 512 7" "[]" "replicate 128 98" "replicate 128 7"]
    by simp
qed

end
