(* ===== verification/Vfs.thy ===== *)
theory Vfs
  imports FatNode Initrd Path
begin

text \<open>
  The virtual file system, kernel/core/vfs_core.c, with the pipe system call of kernel/core/pipe.c:
  mount table, path resolution, and the file descriptor operations of the current task. The function
  pointers of a node are those of its driver; no driver in the kernel sets \<open>open\<close> or \<open>close\<close>.
  \<open>Fault\<close> marks an access outside a buffer or object.
\<close>

definition MAX_FD :: nat where "MAX_FD = 32"
definition FIRST_USER_FD :: nat where "FIRST_USER_FD = 3"
definition O_RDONLY :: u32 where "O_RDONLY = 0"
definition O_WRONLY :: u32 where "O_WRONLY = 1"
definition O_RDWR :: u32 where "O_RDWR = 2"
definition O_CREAT :: u32 where "O_CREAT = 0x40"
definition O_TRUNC :: u32 where "O_TRUNC = 0x200"
definition MAX_MOUNTS :: nat where "MAX_MOUNTS = 8"

lemmas o_flags = O_RDONLY_def O_WRONLY_def O_RDWR_def O_CREAT_def O_TRUNC_def

section \<open>Files\<close>

definition file_create :: "ptr \<Rightarrow> u32 \<Rightarrow> kst \<Rightarrow> ptr \<times> kst" where
  "file_create node flags s =
     (let (f, s1) = kalloc s
      in (f, set_file f (\<lambda>_. \<lparr>f_node = node, f_offset = 0, f_flags = flags, f_refcount = 1\<rparr>) s1))"

definition set_fd :: "ptr \<Rightarrow> nat \<Rightarrow> ptr option \<Rightarrow> kst \<Rightarrow> kst" where
  "set_fd t i v s = set_task t (\<lambda>k. k\<lparr>t_fd_table := (t_fd_table k)[i := v]\<rparr>) s"

text \<open>The file at a descriptor of the current task; outside the table as at an empty slot.\<close>

definition fd_file :: "int \<Rightarrow> kst \<Rightarrow> ptr option" where
  "fd_file fd s = (if fd < 0 \<or> int MAX_FD \<le> fd then None else t_fd_table (k_tasks s (k_current s)) ! nat fd)"

text \<open>The lowest free descriptor from \<open>FIRST_USER_FD\<close> on.\<close>

definition free_fd :: "kst \<Rightarrow> nat option" where
  "free_fd s = find (\<lambda>i. t_fd_table (k_tasks s (k_current s)) ! i = None) [FIRST_USER_FD..<MAX_FD]"

definition new_node :: "fs_node \<Rightarrow> kst \<Rightarrow> ptr \<times> kst" where
  "new_node nd s = (let (p, s1) = kalloc s in (p, set_node p (\<lambda>_. nd) s1))"

definition init_fs :: "kst \<Rightarrow> kst" where
  "init_fs s =
     (let (p, s1) = new_node \<lparr>n_name = [115, 116, 100, 105, 111], n_mask = 0, n_flags = FS_CHARDEVICE OR FS_PERSISTENT,
            n_inode = 0, n_length = 0, n_impl = NoImpl, n_driver = DriverStd\<rparr> s
      in s1\<lparr>k_std_node := Some p\<rparr>)"

definition vfs_init_standard_fds :: "ptr \<Rightarrow> kst \<Rightarrow> kst" where
  "vfs_init_standard_fds t s =
     (case k_std_node s of
        None \<Rightarrow> s
      | Some std \<Rightarrow>
          let (f0, s1) = file_create std O_RDONLY s;
              (f1, s2) = file_create std O_WRONLY (set_fd t 0 (Some f0) s1);
              (f2, s3) = file_create std O_WRONLY (set_fd t 1 (Some f1) s2)
          in set_fd t 2 (Some f2) s3)"

section \<open>Mount table\<close>

text \<open>The node of a mounted file system; \<open>drv\<close> stands for the operations registered.\<close>

definition mount_node :: "u8 list \<Rightarrow> driver \<Rightarrow> fs_node" where
  "mount_node path drv = \<lparr>n_name = path, n_mask = 0, n_flags = FS_DIRECTORY OR FS_PERSISTENT OR FS_MOUNTPOINT,
     n_inode = 0, n_length = 0, n_impl = NoImpl, n_driver = drv\<rparr>"

fun replace_mount :: "u8 list \<Rightarrow> ptr \<Rightarrow> vfs_mount list \<Rightarrow> vfs_mount list option" where
  "replace_mount path node [] = None"
| "replace_mount path node (v # vs) =
     (if vm_active v \<and> vm_path v = path then Some (v\<lparr>vm_root := node\<rparr> # vs)
      else map_option ((#) v) (replace_mount path node vs))"

definition kabi_vfs_register :: "driver \<Rightarrow> u8 list \<Rightarrow> kst \<Rightarrow> (kst, kst) outcome" where
  "kabi_vfs_register drv mountpoint s =
     (if 128 \<le> length mountpoint then Fault ''name of a node''
      else
        let (node, s1) = new_node (mount_node mountpoint drv) s in
        if mountpoint = [47] \<or> k_fs_root s1 = None then Ret (s1\<lparr>k_fs_root := Some node\<rparr>)
        else case replace_mount mountpoint node (k_mounts s1) of
            Some ms \<Rightarrow> Ret (s1\<lparr>k_mounts := ms\<rparr>)
          | None \<Rightarrow>
              if length (k_mounts s1) < MAX_MOUNTS
              then Ret (s1\<lparr>k_mounts := k_mounts s1 @ [\<lparr>vm_path = mountpoint, vm_root = node, vm_active = True\<rparr>]\<rparr>)
              else Ret s1)"

text \<open>A path made canonical from the current directory, in a local buffer of \<open>n\<close> bytes.\<close>

definition clean_path :: "nat \<Rightarrow> u8 list \<Rightarrow> kst \<Rightarrow> (kst, u8 list) outcome" where
  "clean_path n path s =
     within ''path buffer'' (map_option cstr
       (vfs_canonicalize_path (t_cwd (k_tasks s (k_current s))) path (replicate n 0)))"

fun deactivate :: "u8 list \<Rightarrow> vfs_mount list \<Rightarrow> vfs_mount list option" where
  "deactivate path [] = None"
| "deactivate path (v # vs) =
     (if vm_active v \<and> vm_path v = path then Some (v\<lparr>vm_active := False\<rparr> # vs)
      else map_option ((#) v) (deactivate path vs))"

definition sys_umount :: "u8 list \<Rightarrow> kst \<Rightarrow> (kst, int \<times> kst) outcome" where
  "sys_umount path s =
     obind (clean_path 128 path s) (\<lambda>clean.
       case deactivate clean (k_mounts s) of
         Some ms \<Rightarrow> Ret (0, s\<lparr>k_mounts := ms\<rparr>)
       | None \<Rightarrow> Ret (- 1, s))"

definition vfs_get_mount_path :: "int \<Rightarrow> kst \<Rightarrow> u8 list option" where
  "vfs_get_mount_path idx s =
     (if idx < 0 \<or> int (length (k_mounts s)) \<le> idx \<or> \<not> vm_active (k_mounts s ! nat idx) then None
      else Some (vm_path (k_mounts s ! nat idx)))"

section \<open>Path resolution\<close>

definition is_directory :: "ptr \<Rightarrow> kst \<Rightarrow> bool" where
  "is_directory node s \<longleftrightarrow> n_flags (k_nodes s node) AND 7 = FS_DIRECTORY"

definition is_transient :: "ptr \<Rightarrow> kst \<Rightarrow> bool" where
  "is_transient node s \<longleftrightarrow> n_flags (k_nodes s node) AND FS_TRANSIENT \<noteq> 0"

definition finddir_fs :: "ptr \<Rightarrow> u8 list \<Rightarrow> kst \<Rightarrow> (kst, ptr option \<times> kst) outcome" where
  "finddir_fs node name s =
     (if \<not> is_directory node s then Ret (None, s)
      else case n_driver (k_nodes s node) of
          DriverInitrd \<Rightarrow> Ret (initrd_finddir node name s, s)
        | DriverFat \<Rightarrow> fat32_vfs_finddir node name s
        | _ \<Rightarrow> Ret (None, s))"

text \<open>The walk along the parts of a path; intermediate transient nodes are freed on the way.\<close>

fun walk_path :: "ptr \<Rightarrow> ptr \<Rightarrow> u8 list list \<Rightarrow> kst \<Rightarrow> (kst, ptr option \<times> kst) outcome" where
  "walk_path root cur [] s = Ret (Some cur, s)"
| "walk_path root cur (t # ts) s =
     (if t = [] then walk_path root cur ts s
      else obind (finddir_fs cur t s) (\<lambda>(next, s1).
        let s2 = (if cur \<noteq> root \<and> is_transient cur s1 then kfree cur s1 else s1) in
        case next of None \<Rightarrow> Ret (None, s2) | Some n \<Rightarrow> walk_path root n ts s2))"

text \<open>
  The first mount the path leads into, with the remainder; \<open>None\<close> is an exact match. The loop also
  looks past the end of the path, but a longer mount path differs at the terminator.
\<close>

fun find_mount :: "vfs_mount list \<Rightarrow> u8 list \<Rightarrow> (ptr \<times> u8 list option) option" where
  "find_mount [] clean = None"
| "find_mount (v # vs) clean =
     (if \<not> vm_active v then find_mount vs clean
      else if clean = vm_path v then Some (vm_root v, None)
      else let mlen = length (vm_path v) in
        if 0 < mlen \<and> mlen < length clean \<and> clean ! mlen = 47 \<and> take mlen clean = vm_path v
        then Some (vm_root v, Some (drop (mlen + 1) clean))
        else find_mount vs clean)"

definition vfs_resolve_path :: "u8 list \<Rightarrow> kst \<Rightarrow> (kst, ptr option \<times> kst) outcome" where
  "vfs_resolve_path path s =
     (case k_fs_root s of
        None \<Rightarrow> Ret (None, s)
      | Some root \<Rightarrow>
          obind (clean_path 512 path s) (\<lambda>clean.
            if clean = [47] then Ret (Some root, s)
            else case find_mount (k_mounts s) clean of
                Some (m, None) \<Rightarrow> Ret (Some m, s)
              | Some (m, Some rest) \<Rightarrow> walk_path m m (parts rest) s
              | None \<Rightarrow> walk_path root root (parts (if clean \<noteq> [] \<and> hd clean = 47 then tl clean else clean)) s))"

text \<open>\<open>fat32_vfs_mount\<close>: attach the FAT32 volume on a device.\<close>

definition fat32_vfs_mount :: "u32 \<Rightarrow> u8 list \<Rightarrow> kst \<Rightarrow> (kst, int \<times> kst) outcome" where
  "fat32_vfs_mount dev mountpoint s =
     (if 4 \<le> length (k_fat_mounts s) then Ret (KABI_ENOMEM, s)
      else
        case (case block_dev_get_by_index dev (k_blk s) of
                Some d \<Rightarrow> if bd_is_partition d then Some 0
                          else (case mbr_find_fat32 dev (k_blk s) of Inl _ \<Rightarrow> None | Inr p \<Rightarrow> Some (pt_start_lba p))
              | None \<Rightarrow> (case mbr_find_fat32 dev (k_blk s) of Inl _ \<Rightarrow> None | Inr p \<Rightarrow> Some (pt_start_lba p))) of
          None \<Rightarrow> Ret (KABI_ENOENT, s)
        | Some start \<Rightarrow>
            (case fat32_read_bpb dev start (k_blk s) of
               Inl _ \<Rightarrow> Ret (KABI_EIO, s)
             | Inr info \<Rightarrow>
                 let slot = of_nat (length (k_fat_mounts s)) :: u32;
                     s1 = s\<lparr>k_fat_mounts := k_fat_mounts s @ [\<lparr>ctx_dev = dev, ctx_info = info\<rparr>]\<rparr>
                 in obind (kabi_vfs_register DriverFat mountpoint s1) (\<lambda>s2.
                      if mountpoint = [47]
                      then Ret (KABI_SUCCESS, set_node (the (k_fs_root s2)) (\<lambda>nd. nd\<lparr>n_mask := slot\<rparr>) s2)
                      else obind (vfs_resolve_path mountpoint s2) (\<lambda>(mnode, s3).
                        Ret (KABI_SUCCESS, case mnode of
                            None \<Rightarrow> s3 | Some p \<Rightarrow> set_node p (\<lambda>nd. nd\<lparr>n_mask := slot\<rparr>) s3)))))"

definition fs_initrd_init :: "kst \<Rightarrow> (kst, kst) outcome" where
  "fs_initrd_init s =
     (let (_, s1) = new_node \<lparr>n_name = [105, 110, 105, 116, 114, 100], n_mask = 0, n_flags = FS_DIRECTORY OR FS_PERSISTENT,
            n_inode = 0, n_length = 0, n_impl = NoImpl, n_driver = DriverInitrd\<rparr> s
      in kabi_vfs_register DriverInitrd [47] (initrd_fill s1))"

end
