(* ===== verification/Fd.thy ===== *)
theory Fd
  imports Vfs
begin

text \<open>
  The file descriptor operations of kernel/core/vfs_core.c on the current task, the pipe system call
  of kernel/core/pipe.c, and the directory operations on paths.
\<close>

section \<open>Pipes in the kernel state\<close>

text \<open>What the operations of theory Pipe see of the kernel state, and putting it back.\<close>

definition pipe_view :: "ptr \<Rightarrow> kst \<Rightarrow> pipe_sys" where
  "pipe_view p s = \<lparr>ps_pipe = k_pipes s p, ps_state = (\<lambda>t. t_state (k_tasks s t)), ps_debug_pipe_count = k_pipe_count s\<rparr>"

definition pipe_store :: "ptr \<Rightarrow> pipe_sys \<Rightarrow> kst \<Rightarrow> kst" where
  "pipe_store p ps s = s\<lparr>k_pipes := (k_pipes s)(p := ps_pipe ps),
     k_tasks := (\<lambda>t. (k_tasks s t)\<lparr>t_state := ps_state ps t\<rparr>), k_pipe_count := ps_debug_pipe_count ps\<rparr>"

definition on_pipe :: "ptr \<Rightarrow> (pipe_sys \<Rightarrow> pipe_sys) \<Rightarrow> kst \<Rightarrow> kst" where
  "on_pipe p f s = pipe_store p (f (pipe_view p s)) s"

text \<open>The pipe of a node, if it is one.\<close>

definition node_pipe :: "ptr \<Rightarrow> kst \<Rightarrow> ptr option" where
  "node_pipe n s = (if n_flags (k_nodes s n) AND FS_PIPE \<noteq> 0
     then (case n_impl (k_nodes s n) of ImplPipe p \<Rightarrow> Some p | _ \<Rightarrow> None) else None)"

text \<open>The list gives what the rest of the system does each time the reader halts.\<close>

fun pipe_read_at :: "ptr \<Rightarrow> nat \<Rightarrow> (kst \<Rightarrow> kst) list \<Rightarrow> kst \<Rightarrow> (kst, u8 list \<times> kst) outcome" where
  "pipe_read_at p sz [] s =
     (case pipe_read_pass (k_current s) sz (pipe_view p s) of
        Finished bs ps \<Rightarrow> Ret (bs, pipe_store p ps s)
      | Blocked ps \<Rightarrow> Hang (pipe_store p ps s))"
| "pipe_read_at p sz (e # es) s =
     (case pipe_read_pass (k_current s) sz (pipe_view p s) of
        Finished bs ps \<Rightarrow> Ret (bs, pipe_store p ps s)
      | Blocked ps \<Rightarrow> pipe_read_at p sz es (on_pipe p pipe_clear_waiting (e (pipe_store p ps s))))"

definition pipe_write_at :: "ptr \<Rightarrow> u8 list \<Rightarrow> kst \<Rightarrow> (kst, u64 \<times> kst) outcome" where
  "pipe_write_at p data s =
     obind (on_part (\<lambda>ps. pipe_store p ps s) (pipe_write data (pipe_view p s)))
       (\<lambda>(r, ps). Ret (r, pipe_store p ps s))"

section \<open>Drivers without a file system\<close>

text \<open>Standard input gives a line, typed into a 256-byte buffer, cut to the size asked for.\<close>

definition std_read :: "u8 list \<Rightarrow> u64 \<Rightarrow> (kst, u8 list) outcome" where
  "std_read temp sz =
     within ''line buffer'' (do { len \<leftarrow> strlen (Some temp); Some (take (min len (unat sz)) temp) })"

definition std_write :: "u8 list \<Rightarrow> kst \<Rightarrow> u64 \<times> kst" where
  "std_write data s = (of_nat (length data), s\<lparr>k_out := k_out s @ cstr (data @ [0])\<rparr>)"

definition clip1024 :: "u64 \<Rightarrow> u64 \<Rightarrow> u64" where
  "clip1024 offset sz = (if 1024 < offset + sz then 1024 - offset else sz)"

definition mock_read :: "ptr \<Rightarrow> u64 \<Rightarrow> u64 \<Rightarrow> kst \<Rightarrow> (kst, u8 list) outcome" where
  "mock_read node offset sz s =
     (case n_impl (k_nodes s node) of
        ImplBuf b \<Rightarrow>
          if 1024 \<le> offset then Ret []
          else if unat offset + unat (clip1024 offset sz) \<le> 1024
            then Ret (take (unat (clip1024 offset sz)) (drop (unat offset) (k_bufs s b)))
            else Fault ''buffer of a node''
      | NoImpl \<Rightarrow> Ret []
      | _ \<Rightarrow> Fault ''data of a node'')"

text \<open>The buffer of a node, allocated and cleared at the first write.\<close>

definition mock_buffer :: "ptr \<Rightarrow> kst \<Rightarrow> (kst, ptr \<times> kst) outcome" where
  "mock_buffer node s =
     (case n_impl (k_nodes s node) of
        ImplBuf b \<Rightarrow> Ret (b, s)
      | NoImpl \<Rightarrow> let (b, s1) = kalloc s
             in Ret (b, set_node node (\<lambda>nd. nd\<lparr>n_impl := ImplBuf b\<rparr>) (s1\<lparr>k_bufs := (k_bufs s1)(b := replicate 1024 0)\<rparr>))
      | _ \<Rightarrow> Fault ''data of a node'')"

definition mock_write :: "ptr \<Rightarrow> u64 \<Rightarrow> u8 list \<Rightarrow> kst \<Rightarrow> (kst, u64 \<times> kst) outcome" where
  "mock_write node offset data s0 =
     obind (mock_buffer node s0) (\<lambda>(b, s).
      let n = clip1024 offset (of_nat (length data)) in
      if 1024 \<le> offset then Ret (0, s)
      else if unat offset + unat n \<le> 1024
        then let buf = k_bufs s b
             in Ret (n, s\<lparr>k_bufs := (k_bufs s)(b := take (unat offset) buf @ take (unat n) data @
                          drop (unat offset + unat n) buf)\<rparr>)
        else Fault ''buffer of a node'')"

section \<open>Reading and writing nodes\<close>

text \<open>What happens outside during a call: the line typed, and the steps of other tasks.\<close>

record vfs_env =
  env_line :: "u8 list"
  env_steps :: "(kst \<Rightarrow> kst) list"

definition keep :: "kst \<Rightarrow> (kst, u8 list) outcome \<Rightarrow> (kst, u8 list \<times> kst) outcome" where
  "keep s m = obind m (\<lambda>bs. Ret (bs, s))"

definition read_fs :: "vfs_env \<Rightarrow> ptr \<Rightarrow> u64 \<Rightarrow> u64 \<Rightarrow> kst \<Rightarrow> (kst, u8 list \<times> kst) outcome" where
  "read_fs env node offset sz s =
     (case n_driver (k_nodes s node) of
        DriverStd \<Rightarrow> keep s (std_read (env_line env) sz)
      | DriverPipe \<Rightarrow>
          (case n_impl (k_nodes s node) of
             ImplPipe p \<Rightarrow> pipe_read_at p (unat sz) (env_steps env) s
           | _ \<Rightarrow> Fault ''pipe of a node'')
      | DriverMock \<Rightarrow> keep s (mock_read node offset sz s)
      | DriverInitrd \<Rightarrow> keep s (initrd_read node offset sz s)
      | DriverInitrdFile \<Rightarrow> keep s (initrd_read node offset sz s)
      | DriverFat \<Rightarrow> keep s (fat32_vfs_read node (ucast offset) (ucast sz) s))"

definition write_fs :: "ptr \<Rightarrow> u64 \<Rightarrow> u8 list \<Rightarrow> kst \<Rightarrow> (kst, u64 \<times> kst) outcome" where
  "write_fs node offset data s =
     (case n_driver (k_nodes s node) of
        DriverStd \<Rightarrow> Ret (std_write data s)
      | DriverPipe \<Rightarrow>
          (case n_impl (k_nodes s node) of
             ImplPipe p \<Rightarrow> pipe_write_at p data s
           | _ \<Rightarrow> Fault ''pipe of a node'')
      | DriverMock \<Rightarrow> mock_write node offset data s
      | DriverInitrd \<Rightarrow> Ret (0, s)
      | DriverInitrdFile \<Rightarrow> Ret (0, s)
      | DriverFat \<Rightarrow> fat32_vfs_write node (ucast offset) data s)"

definition create_fs :: "ptr \<Rightarrow> u8 list \<Rightarrow> kst \<Rightarrow> (kst, kst) outcome" where
  "create_fs node name s =
     (if is_directory node s \<and> n_driver (k_nodes s node) = DriverFat then fat32_vfs_create node name s else Ret s)"

definition to_int :: "u64 \<Rightarrow> int" where
  "to_int r = sint (ucast r :: u32)"

definition read_fd :: "vfs_env \<Rightarrow> int \<Rightarrow> int \<Rightarrow> kst \<Rightarrow> (kst, int \<times> u8 list \<times> kst) outcome" where
  "read_fd env fd sz s =
     (case fd_file fd s of
        None \<Rightarrow> Ret (- 1, [], s)
      | Some f \<Rightarrow>
          if f_flags (k_files s f) = O_WRONLY then Ret (- 1, [], s)
          else obind (read_fs env (f_node (k_files s f)) (f_offset (k_files s f)) (word_of_int sz) s)
            (\<lambda>(bs, s1). let res = of_nat (length bs)
               in Ret (to_int res, bs, set_file f (\<lambda>x. x\<lparr>f_offset := f_offset x + res\<rparr>) s1)))"

text \<open>
  \<open>data\<close> holds the \<open>size\<close> bytes of the caller's buffer; a negative \<open>size\<close>, which the code converts to a huge
  count that no buffer has, is not covered.
\<close>

definition write_fd :: "int \<Rightarrow> u8 list \<Rightarrow> kst \<Rightarrow> (kst, int \<times> kst) outcome" where
  "write_fd fd data s =
     (case fd_file fd s of
        None \<Rightarrow> Ret (- 1, s)
      | Some f \<Rightarrow>
          if f_flags (k_files s f) = O_RDONLY then Ret (- 1, s)
          else obind (write_fs (f_node (k_files s f)) (f_offset (k_files s f)) data s)
            (\<lambda>(r, s1). let res = (if r = 0 \<and> data \<noteq> [] \<and> f_flags (k_files s1 f) AND O_CREAT \<noteq> 0
                                  then of_nat (length data) else r)
               in Ret (to_int res, set_file f (\<lambda>x. x\<lparr>f_offset := f_offset x + res\<rparr>) s1)))"

definition seek :: "int \<Rightarrow> int \<Rightarrow> int \<Rightarrow> kst \<Rightarrow> int \<times> kst" where
  "seek fd offset whence s =
     (case fd_file fd s of
        None \<Rightarrow> (- 1, s)
      | Some f \<Rightarrow>
          let o64 = word_of_int offset :: u64 in
          case (if whence = 0 then Some o64
                else if whence = 1 then Some (f_offset (k_files s f) + o64)
                else if whence = 2 then Some (n_length (k_nodes s (f_node (k_files s f))) + o64)
                else None) of
            None \<Rightarrow> (- 1, s)
          | Some new_offset \<Rightarrow>
              if sint new_offset < 0 then (- 1, s)
              else (to_int new_offset, set_file f (\<lambda>x. x\<lparr>f_offset := new_offset\<rparr>) s))"

section \<open>Opening\<close>

definition mint_mock :: "u8 list \<Rightarrow> kst \<Rightarrow> ptr \<times> kst" where
  "mint_mock basename s =
     new_node \<lparr>n_name = basename, n_mask = 0, n_flags = FS_FILE OR FS_TRANSIENT OR FS_IMPL_HEAP, n_inode = 0,
       n_length = 0, n_impl = NoImpl, n_driver = DriverMock\<rparr> s"

text \<open>The parent directory and the last component, in buffers of 512 and 128 bytes.\<close>

definition split_name :: "u8 list \<Rightarrow> kst \<Rightarrow> (kst, u8 list \<times> u8 list) outcome" where
  "split_name name s =
     (let cwd = t_cwd (k_tasks s (k_current s)) in
      obind (within ''path buffer'' (vfs_get_parent_path cwd (replicate 512 0) (replicate 512 0) name)) (\<lambda>parent.
      obind (within ''basename buffer'' (vfs_get_basename cwd (replicate 512 0) (replicate 128 0) name)) (\<lambda>base.
        Ret (cstr parent, cstr base))))"

definition drop_transient :: "ptr option \<Rightarrow> kst \<Rightarrow> kst" where
  "drop_transient node s = (case node of None \<Rightarrow> s | Some p \<Rightarrow> if is_transient p s then kfree p s else s)"

definition create_path :: "u8 list \<Rightarrow> kst \<Rightarrow> (kst, ptr \<times> kst) outcome" where
  "create_path name s =
     obind (split_name name s) (\<lambda>(parent_path, basename).
     obind (vfs_resolve_path parent_path s) (\<lambda>(parent, s1).
     obind (case parent of
              None \<Rightarrow> Ret (None, s1)
            | Some p \<Rightarrow>
                if n_driver (k_nodes s1 p) = DriverFat
                then obind (create_fs p basename s1) (\<lambda>s2. vfs_resolve_path name s2)
                else Ret (None, s1))
       (\<lambda>(node, s2).
          let s3 = drop_transient parent s2
          in case node of Some n \<Rightarrow> Ret (n, s3) | None \<Rightarrow> Ret (mint_mock basename s3))))"

definition truncate_node :: "u32 \<Rightarrow> ptr \<Rightarrow> kst \<Rightarrow> (kst, kst) outcome" where
  "truncate_node flags node s =
     (if flags AND O_TRUNC \<noteq> 0 \<and> (flags AND O_WRONLY \<noteq> 0 \<or> flags AND O_RDWR \<noteq> 0) then
        obind (case n_impl (k_nodes s node) of
            NoImpl \<Rightarrow> Ret s
          | ImplBuf b \<Rightarrow> Ret (s\<lparr>k_bufs := (k_bufs s)(b := replicate 1024 0)\<rparr>)
          | ImplPipe p \<Rightarrow> Fault ''pipe''
          | ImplNum v \<Rightarrow> if v = 0 then Ret s else Fault ''memory at a cluster number'')
          (\<lambda>s1. Ret (set_node node (\<lambda>nd. nd\<lparr>n_length := 0\<rparr>) s1))
      else Ret s)"

definition install :: "ptr \<Rightarrow> u32 \<Rightarrow> kst \<Rightarrow> int \<times> kst" where
  "install node flags s =
     (case free_fd s of
        None \<Rightarrow> (- 1, s)
      | Some i \<Rightarrow> let (f, s1) = file_create node flags s in (int i, set_fd (k_current s1) i (Some f) s1))"

definition open_fd :: "u8 list \<Rightarrow> u32 \<Rightarrow> kst \<Rightarrow> (kst, int \<times> kst) outcome" where
  "open_fd name flags s =
     obind (vfs_resolve_path name s) (\<lambda>(found, s1).
     obind (case found of
              Some n \<Rightarrow> Ret (Some n, s1)
            | None \<Rightarrow> if flags AND O_CREAT \<noteq> 0 then obind (create_path name s1) (\<lambda>(n, s2). Ret (Some n, s2))
                      else Ret (None, s1))
       (\<lambda>(node, s2). case node of
            None \<Rightarrow> Ret (- 1, s2)
          | Some n \<Rightarrow> obind (truncate_node flags n s2) (\<lambda>s3. Ret (install n flags s3))))"

section \<open>Closing\<close>

definition end_of_pipe :: "ptr \<Rightarrow> (pipe_sys \<Rightarrow> pipe_sys) \<Rightarrow> (pipe_sys \<Rightarrow> pipe_sys) \<Rightarrow> kst \<Rightarrow> kst" where
  "end_of_pipe f on_write on_read s =
     (case node_pipe (f_node (k_files s f)) s of
        None \<Rightarrow> s
      | Some p \<Rightarrow> on_pipe p (if f_flags (k_files s f) AND O_WRONLY \<noteq> 0 then on_write else on_read) s)"

text \<open>
  What becomes of the node when the last reference to a file is gone. A pipe and the ring buffer allocated with
  it are one object here, so the two calls that free them are one.
\<close>

definition release_node :: "ptr \<Rightarrow> kst \<Rightarrow> kst" where
  "release_node n s =
     (let nd = k_nodes s n in
      if n_flags nd AND FS_PERSISTENT \<noteq> 0 then s
      else if n_flags nd AND FS_PIPE \<noteq> 0 then
        (case n_impl nd of
           ImplPipe p \<Rightarrow> if p_readers (k_pipes s p) = 0 \<and> p_writers (k_pipes s p) = 0
                         then kfree n (kfree p s) else s
         | _ \<Rightarrow> s)
      else if n_flags nd AND FS_TRANSIENT \<noteq> 0 then
        kfree n (case n_impl nd of
            ImplBuf b \<Rightarrow> if n_flags nd AND FS_IMPL_HEAP \<noteq> 0 then kfree b s else s
          | _ \<Rightarrow> s)
      else s)"

definition drop_file :: "ptr \<Rightarrow> kst \<Rightarrow> kst" where
  "drop_file f s =
     (let s1 = set_file f (\<lambda>x. x\<lparr>f_refcount := f_refcount x - 1\<rparr>) s;
          s2 = end_of_pipe f pipe_remove_writer pipe_remove_reader s1
      in if f_refcount (k_files s2 f) = 0 then kfree f (release_node (f_node (k_files s2 f)) s2) else s2)"

definition close :: "int \<Rightarrow> kst \<Rightarrow> int \<times> kst" where
  "close fd s =
     (case fd_file fd s of
        None \<Rightarrow> (- 1, s)
      | Some f \<Rightarrow> (0, drop_file f (set_fd (k_current s) (nat fd) None s)))"

fun close_slots :: "ptr \<Rightarrow> nat list \<Rightarrow> kst \<Rightarrow> kst" where
  "close_slots t [] s = s"
| "close_slots t (i # is) s =
     close_slots t is (case t_fd_table (k_tasks s t) ! i of
        None \<Rightarrow> s | Some f \<Rightarrow> drop_file f (set_fd t i None s))"

definition vfs_close_all_fds :: "ptr \<Rightarrow> kst \<Rightarrow> kst" where
  "vfs_close_all_fds t s = close_slots t [0..<MAX_FD] s"

section \<open>Duplicating\<close>

text \<open>Entering one more reference to a file into a slot of the current task.\<close>

definition share_file :: "ptr \<Rightarrow> nat \<Rightarrow> ptr \<Rightarrow> kst \<Rightarrow> kst" where
  "share_file t i f s =
     end_of_pipe f pipe_add_writer pipe_add_reader
       (set_file f (\<lambda>x. x\<lparr>f_refcount := f_refcount x + 1\<rparr>) (set_fd t i (Some f) s))"

definition dup :: "int \<Rightarrow> kst \<Rightarrow> int \<times> kst" where
  "dup oldfd s =
     (case fd_file oldfd s of
        None \<Rightarrow> (- 1, s)
      | Some f \<Rightarrow>
          (case free_fd s of
             None \<Rightarrow> (- 1, s)
           | Some i \<Rightarrow> (int i, share_file (k_current s) i f s)))"

definition dup2 :: "int \<Rightarrow> int \<Rightarrow> kst \<Rightarrow> int \<times> kst" where
  "dup2 oldfd newfd s =
     (if newfd < 0 \<or> int MAX_FD \<le> newfd then (- 1, s)
      else case fd_file oldfd s of
          None \<Rightarrow> (- 1, s)
        | Some f \<Rightarrow>
            if oldfd = newfd then (newfd, s)
            else let s1 = (if fd_file newfd s = None then s else snd (close newfd s))
                 in (newfd, share_file (k_current s1) (nat newfd) f s1))"

section \<open>Pipes\<close>

definition pipe_node :: "ptr \<Rightarrow> fs_node" where
  "pipe_node p = \<lparr>n_name = [112, 105, 112, 101], n_mask = 0, n_flags = FS_PIPE OR FS_TRANSIENT, n_inode = 0,
     n_length = 0, n_impl = ImplPipe p, n_driver = DriverPipe\<rparr>"

definition new_pipe :: "kst \<Rightarrow> ptr \<times> kst" where
  "new_pipe s =
     (let (p, s1) = kalloc s
      in case pipe_create True (Some (replicate (unat PIPE_SIZE) 0)) PIPE_SIZE (k_pipe_count s1) of
           (Some pp, n) \<Rightarrow> (p, s1\<lparr>k_pipes := (k_pipes s1)(p := pp\<lparr>p_readers := 1, p_writers := 1\<rparr>), k_pipe_count := n\<rparr>)
         | (None, n) \<Rightarrow> (p, s1))"

text \<open>The two lowest free descriptors.\<close>

definition two_free :: "kst \<Rightarrow> (nat \<times> nat) option" where
  "two_free s =
     (case filter (\<lambda>i. t_fd_table (k_tasks s (k_current s)) ! i = None) [FIRST_USER_FD..<MAX_FD] of
        r # w # _ \<Rightarrow> Some (r, w) | _ \<Rightarrow> None)"

definition pipe :: "kst \<Rightarrow> (int \<times> int) option \<times> kst" where
  "pipe s =
     (let (p, s1) = new_pipe s;
          (n, s2) = new_node (pipe_node p) s1;
          (rf, s3) = file_create n O_RDONLY s2;
          (wf, s4) = file_create n O_WRONLY s3
      in case two_free s4 of
           None \<Rightarrow> (None, s4)
         | Some (r, w) \<Rightarrow> (Some (int r, int w), set_fd (k_current s4) w (Some wf) (set_fd (k_current s4) r (Some rf) s4)))"

section \<open>Directories\<close>

definition sys_mkdir :: "u8 list \<Rightarrow> kst \<Rightarrow> (kst, int \<times> kst) outcome" where
  "sys_mkdir path s =
     obind (split_name path s) (\<lambda>(parent_path, basename).
     obind (vfs_resolve_path parent_path s) (\<lambda>(parent, s1).
       case parent of
         None \<Rightarrow> Ret (- 1, s1)
       | Some p \<Rightarrow>
           if n_driver (k_nodes s1 p) \<noteq> DriverFat then Ret (- 1, drop_transient parent s1)
           else obind (fat32_vfs_mkdir p basename s1) (\<lambda>s2. Ret (0, drop_transient parent s2))))"

definition sys_unlink :: "u8 list \<Rightarrow> kst \<Rightarrow> (kst, int \<times> kst) outcome" where
  "sys_unlink path s =
     obind (split_name path s) (\<lambda>(parent_path, basename).
     obind (vfs_resolve_path parent_path s) (\<lambda>(parent, s1).
       case parent of
         None \<Rightarrow> Ret (- 1, s1)
       | Some p \<Rightarrow>
           if n_driver (k_nodes s1 p) \<noteq> DriverFat then Ret (- 1, drop_transient parent s1)
           else obind (fat32_vfs_unlink p basename s1) (\<lambda>(r, s2). Ret (r, drop_transient parent s2))))"

end
