(* ===== verification/FdInv.thy ===== *)
theory FdInv
  imports Fd "HOL-Library.Multiset"
begin

text \<open>
  Reference counting of open files. The descriptor tables of a set of tasks hold a multiset of
  files. The invariant says that the reference count of a file is its multiplicity there, that the
  reader and writer counts of a pipe are the numbers of descriptors for its two ends, that a node
  freed with its file belongs to no other file, and that everything a descriptor leads to is
  allocated. It is kept by every descriptor operation, hence no freed object is ever reached.
\<close>

section \<open>The invariant\<close>

definition open_files :: "ptr set \<Rightarrow> kst \<Rightarrow> ptr multiset" where
  "open_files T s = (\<Sum>t\<in>T. image_mset the (filter_mset (\<lambda>x. x \<noteq> None) (mset (t_fd_table (k_tasks s t)))))"

definition file_pipe :: "kst \<Rightarrow> ptr \<Rightarrow> ptr option" where
  "file_pipe s f = node_pipe (f_node (k_files s f)) s"

definition writes :: "kst \<Rightarrow> ptr \<Rightarrow> bool" where
  "writes s f \<longleftrightarrow> f_flags (k_files s f) AND O_WRONLY \<noteq> 0"

text \<open>A node that is freed together with the file opened on it.\<close>

definition owned :: "fs_node \<Rightarrow> bool" where
  "owned nd \<longleftrightarrow> n_flags nd AND FS_PERSISTENT = 0 \<and> n_flags nd AND FS_PIPE = 0 \<and> n_flags nd AND FS_TRANSIENT \<noteq> 0"

text \<open>What kind of object lies at an address.\<close>

datatype kind = KFile | KNode | KPipe | KBuf | KOther

definition obj :: "(ptr \<Rightarrow> kind) \<Rightarrow> kind \<Rightarrow> kst \<Rightarrow> ptr \<Rightarrow> bool" where
  "obj ty k s p \<longleftrightarrow> ty p = k \<and> p < k_brk s \<and> k_live s p"

definition good_node :: "(ptr \<Rightarrow> kind) \<Rightarrow> kst \<Rightarrow> ptr \<Rightarrow> bool" where
  "good_node ty s n \<longleftrightarrow> obj ty KNode s n \<and>
     (case n_impl (k_nodes s n) of
        ImplPipe p \<Rightarrow> obj ty KPipe s p \<and> n_flags (k_nodes s n) AND FS_PIPE \<noteq> 0 \<and>
          n_flags (k_nodes s n) AND FS_PERSISTENT = 0 \<and> pipe_inv (k_pipes s p)
      | ImplBuf b \<Rightarrow> obj ty KBuf s b \<and> n_flags (k_nodes s n) AND FS_PIPE = 0
      | _ \<Rightarrow> n_flags (k_nodes s n) AND FS_PIPE = 0)"

definition good_file :: "(ptr \<Rightarrow> kind) \<Rightarrow> kst \<Rightarrow> ptr \<Rightarrow> bool" where
  "good_file ty s f \<longleftrightarrow> obj ty KFile s f \<and> good_node ty s (f_node (k_files s f))"

definition ends_of :: "kst \<Rightarrow> ptr multiset \<Rightarrow> ptr \<Rightarrow> bool \<Rightarrow> nat" where
  "ends_of s M p w = size (filter_mset (\<lambda>g. file_pipe s g = Some p \<and> writes s g = w) M)"

definition counted :: "kst \<Rightarrow> ptr multiset \<Rightarrow> bool" where
  "counted s M \<longleftrightarrow> (\<forall>f\<in>#M. unat (f_refcount (k_files s f)) = count M f \<and>
     (\<forall>p. file_pipe s f = Some p \<longrightarrow>
        unat (p_readers (k_pipes s p)) = ends_of s M p False \<and> unat (p_writers (k_pipes s p)) = ends_of s M p True))"

definition unshared :: "kst \<Rightarrow> ptr multiset \<Rightarrow> bool" where
  "unshared s M \<longleftrightarrow> (\<forall>f\<in>#M. \<forall>g\<in>#M. let n = f_node (k_files s f); m = f_node (k_files s g) in
     (owned (k_nodes s n) \<and> n = m \<longrightarrow> f = g) \<and>
     (\<forall>b. n_impl (k_nodes s n) = ImplBuf b \<and> n_impl (k_nodes s m) = ImplBuf b \<longrightarrow> n = m))"

definition refs_ok :: "(ptr \<Rightarrow> kind) \<Rightarrow> kst \<Rightarrow> ptr multiset \<Rightarrow> bool" where
  "refs_ok ty s M \<longleftrightarrow> (\<forall>f\<in>#M. good_file ty s f) \<and> counted s M \<and> unshared s M \<and> \<not> k_bad_free s"

section \<open>Tables\<close>

lemma open_files_set_fd:
  assumes "finite T" "t \<in> T" "i < length (t_fd_table (k_tasks s t))"
  shows "t_fd_table (k_tasks s t) ! i = None \<Longrightarrow> open_files T (set_fd t i (Some f) s) = add_mset f (open_files T s)"
    and "t_fd_table (k_tasks s t) ! i = Some f \<Longrightarrow> open_files T (set_fd t i None s) = open_files T s - {#f#}"
    and "t_fd_table (k_tasks s t) ! i = Some f \<Longrightarrow> f \<in># open_files T s"
proof -
  let ?v = "\<lambda>tb. image_mset the (filter_mset (\<lambda>x. x \<noteq> None) (mset tb))"
  let ?R = "\<Sum>u\<in>T - {t}. ?v (t_fd_table (k_tasks s u))"
  have split: "open_files T (set_fd t i v s) = ?v ((t_fd_table (k_tasks s t))[i := v]) + ?R" for v
    using assms(1,2) by (simp add: open_files_def set_fd_def sum.remove)
  have now: "open_files T s = ?v (t_fd_table (k_tasks s t)) + ?R"
    using assms(1,2) by (simp add: open_files_def sum.remove)
  have mem: "t_fd_table (k_tasks s t) ! i \<in># mset (t_fd_table (k_tasks s t))" using assms(3) by simp
  then obtain A where A: "mset (t_fd_table (k_tasks s t)) = add_mset (t_fd_table (k_tasks s t) ! i) A"
    by (meson multi_member_split)
  show "open_files T (set_fd t i (Some f) s) = add_mset f (open_files T s)" if "t_fd_table (k_tasks s t) ! i = None"
    using that assms(3) A by (simp add: split now mset_update)
  show "open_files T (set_fd t i None s) = open_files T s - {#f#}" if "t_fd_table (k_tasks s t) ! i = Some f"
    using that assms(3) A by (simp add: split now mset_update)
  show "f \<in># open_files T s" if "t_fd_table (k_tasks s t) ! i = Some f"
    using that A by (simp add: now)
qed

lemma open_files_cong:
  "(\<And>t. t_fd_table (k_tasks s' t) = t_fd_table (k_tasks s t)) \<Longrightarrow> open_files T s' = open_files T s"
  by (simp add: open_files_def)

lemma size_open_files:
  assumes "finite T" "\<And>t. t \<in> T \<Longrightarrow> length (t_fd_table (k_tasks s t)) = MAX_FD"
  shows "size (open_files T s) \<le> MAX_FD * card T"
proof -
  have "size (open_files T s) = (\<Sum>t\<in>T. size (filter_mset (\<lambda>x. x \<noteq> None) (mset (t_fd_table (k_tasks s t)))))"
    by (simp add: open_files_def size_multiset_sum)
  also have "\<dots> \<le> (\<Sum>t\<in>T. MAX_FD)"
    by (rule sum_mono) (metis assms(2) size_filter_mset_lesseq size_mset)
  finally show ?thesis by (simp add: mult.commute)
qed

section \<open>Frames\<close>

lemma set_file_simps [simp]:
  "k_files (set_file p g s) = (k_files s)(p := g (k_files s p))" "k_tasks (set_file p g s) = k_tasks s"
  "k_nodes (set_file p g s) = k_nodes s" "k_pipes (set_file p g s) = k_pipes s" "k_live (set_file p g s) = k_live s"
  "k_bad_free (set_file p g s) = k_bad_free s" "k_brk (set_file p g s) = k_brk s" "k_current (set_file p g s) = k_current s"
  by (simp_all add: set_file_def)

lemma set_node_simps [simp]:
  "k_nodes (set_node p g s) = (k_nodes s)(p := g (k_nodes s p))" "k_tasks (set_node p g s) = k_tasks s"
  "k_files (set_node p g s) = k_files s" "k_pipes (set_node p g s) = k_pipes s" "k_live (set_node p g s) = k_live s"
  "k_bad_free (set_node p g s) = k_bad_free s" "k_brk (set_node p g s) = k_brk s" "k_current (set_node p g s) = k_current s"
  by (simp_all add: set_node_def)

lemma kfree_simps [simp]:
  "k_live (kfree p s) = (k_live s)(p := False)" "k_tasks (kfree p s) = k_tasks s" "k_files (kfree p s) = k_files s"
  "k_nodes (kfree p s) = k_nodes s" "k_pipes (kfree p s) = k_pipes s" "k_brk (kfree p s) = k_brk s"
  "k_current (kfree p s) = k_current s" "k_bad_free (kfree p s) \<longleftrightarrow> k_bad_free s \<or> \<not> k_live s p"
  by (simp_all add: kfree_def)

lemma set_fd_simps [simp]:
  "k_files (set_fd t i v s) = k_files s" "k_nodes (set_fd t i v s) = k_nodes s" "k_pipes (set_fd t i v s) = k_pipes s"
  "k_live (set_fd t i v s) = k_live s" "k_bad_free (set_fd t i v s) = k_bad_free s" "k_brk (set_fd t i v s) = k_brk s" "k_current (set_fd t i v s) = k_current s"
  by (simp_all add: set_fd_def)

lemma on_pipe_simps [simp]:
  "k_files (on_pipe p g s) = k_files s" "k_nodes (on_pipe p g s) = k_nodes s"
  "k_pipes (on_pipe p g s) = (k_pipes s)(p := ps_pipe (g (pipe_view p s)))"
  "k_live (on_pipe p g s) = k_live s" "k_bad_free (on_pipe p g s) = k_bad_free s" "k_brk (on_pipe p g s) = k_brk s" "k_current (on_pipe p g s) = k_current s"
  "t_fd_table (k_tasks (on_pipe p g s) t) = t_fd_table (k_tasks s t)"
  by (simp_all add: on_pipe_def pipe_store_def)

lemma pipe_view_pipe [simp]: "ps_pipe (pipe_view p s) = k_pipes s p"
  by (simp add: pipe_view_def)

text \<open>Which objects the two counting operations of a pipe end change, and how.\<close>

lemma end_counts [simp]:
  "p_readers (ps_pipe (pipe_add_reader v)) = p_readers (ps_pipe v) + 1"
  "p_writers (ps_pipe (pipe_add_reader v)) = p_writers (ps_pipe v)"
  "p_readers (ps_pipe (pipe_add_writer v)) = p_readers (ps_pipe v)"
  "p_writers (ps_pipe (pipe_add_writer v)) = p_writers (ps_pipe v) + 1"
  "p_readers (ps_pipe (pipe_remove_reader v)) = (if p_readers (ps_pipe v) = 0 then 0 else p_readers (ps_pipe v) - 1)"
  "p_writers (ps_pipe (pipe_remove_reader v)) = p_writers (ps_pipe v)"
  "p_readers (ps_pipe (pipe_remove_writer v)) = p_readers (ps_pipe v)"
  "p_writers (ps_pipe (pipe_remove_writer v)) = (if p_writers (ps_pipe v) = 0 then 0 else p_writers (ps_pipe v) - 1)"
  "pipe_inv (ps_pipe (pipe_add_reader v)) = pipe_inv (ps_pipe v)"
  "pipe_inv (ps_pipe (pipe_add_writer v)) = pipe_inv (ps_pipe v)"
  by (auto simp: pipe_add_reader_def pipe_add_writer_def pipe_remove_reader_def pipe_remove_writer_def
      pipe_count_dead_def Let_def word_neq_0_conv)

lemmas [simp] = pipe_remove_pipe(1,4)

lemma end_of_pipe_simps [simp]:
  "k_files (end_of_pipe f a b s) = k_files s" "k_nodes (end_of_pipe f a b s) = k_nodes s"
  "k_live (end_of_pipe f a b s) = k_live s" "k_bad_free (end_of_pipe f a b s) = k_bad_free s" "k_brk (end_of_pipe f a b s) = k_brk s"
  "k_current (end_of_pipe f a b s) = k_current s"
  "t_fd_table (k_tasks (end_of_pipe f a b s) t) = t_fd_table (k_tasks s t)"
  by (simp_all add: end_of_pipe_def split: option.split)

lemma end_of_pipe_pipes:
  "k_pipes (end_of_pipe f a b s) = (case file_pipe s f of None \<Rightarrow> k_pipes s
     | Some p \<Rightarrow> (k_pipes s)(p := ps_pipe ((if writes s f then a else b) (pipe_view p s))))"
  by (simp add: end_of_pipe_def file_pipe_def writes_def split: option.split)

lemma release_node_simps [simp]:
  "k_files (release_node n s) = k_files s" "k_nodes (release_node n s) = k_nodes s"
  "k_pipes (release_node n s) = k_pipes s" "k_brk (release_node n s) = k_brk s"
  "k_current (release_node n s) = k_current s" "k_tasks (release_node n s) = k_tasks s"
  by (simp_all add: release_node_def Let_def split: node_impl.split)

section \<open>One reference more, one less\<close>

text \<open>States that agree on what nodes and files are, up to counts, positions, lengths and contents.\<close>

definition same_shape :: "kst \<Rightarrow> kst \<Rightarrow> bool" where
  "same_shape s s' \<longleftrightarrow> k_brk s \<le> k_brk s' \<and>
     (\<forall>n. n_flags (k_nodes s' n) = n_flags (k_nodes s n) \<and> n_impl (k_nodes s' n) = n_impl (k_nodes s n) \<and>
        n_driver (k_nodes s' n) = n_driver (k_nodes s n)) \<and>
     (\<forall>g. f_node (k_files s' g) = f_node (k_files s g) \<and> f_flags (k_files s' g) = f_flags (k_files s g)) \<and>
     (\<forall>p. pipe_inv (k_pipes s p) \<longrightarrow> pipe_inv (k_pipes s' p))"

lemma same_shape_facts:
  assumes "same_shape s s'"
  shows "file_pipe s' = file_pipe s" "writes s' = writes s" "ends_of s' M p w = ends_of s M p w"
    "unshared s' M = unshared s M"
    "k_live s' = k_live s \<Longrightarrow> good_file ty s g \<Longrightarrow> good_file ty s' g"
proof -
  show *: "file_pipe s' = file_pipe s" "writes s' = writes s"
    using assms by (auto simp: same_shape_def file_pipe_def node_pipe_def writes_def fun_eq_iff split: node_impl.splits)
  show "ends_of s' M p w = ends_of s M p w" by (simp add: ends_of_def *)
  show "unshared s' M = unshared s M" using assms by (simp add: unshared_def same_shape_def owned_def)
  show "k_live s' = k_live s \<Longrightarrow> good_file ty s g \<Longrightarrow> good_file ty s' g"
    using assms by (auto simp: good_file_def good_node_def obj_def same_shape_def split: node_impl.splits)
qed

lemma ends_of_add: "ends_of s (add_mset f M) p w = ends_of s M p w + (if file_pipe s f = Some p \<and> writes s f = w then 1 else 0)"
  by (simp add: ends_of_def)

lemma ends_of_zero: "ends_of s M p w = 0 \<longleftrightarrow> (\<forall>g\<in>#M. \<not> (file_pipe s g = Some p \<and> writes s g = w))"
  by (auto simp: ends_of_def)

lemma unshared_subset: "unshared s M \<Longrightarrow> (\<And>g. g \<in># N \<Longrightarrow> g \<in># M) \<Longrightarrow> unshared s N"
  by (simp add: unshared_def)

lemma u32_succ: "Suc (unat (x :: u32)) < 2 ^ 32 \<Longrightarrow> unat (x + 1) = Suc (unat x)"
  by (simp add: unat_word_ariths)

lemma u32_pred: "0 < unat (x :: u32) \<Longrightarrow> unat (x - 1) = unat x - 1"
  by (simp add: unat_pred unat_pos_iff)

lemma share_ok [kinv]:
  assumes ok: "refs_ok ty s M" and f: "f \<in># M" and bound: "Suc (size M) < 2 ^ 32"
  shows "refs_ok ty (share_file t i f s) (add_mset f M)"
proof -
  let ?s' = "share_file t i f s"
  have pipes: "k_pipes ?s' = (case file_pipe s f of None \<Rightarrow> k_pipes s
     | Some p \<Rightarrow> (k_pipes s)(p := (if writes s f then (k_pipes s p)\<lparr>p_writers := p_writers (k_pipes s p) + 1\<rparr>
                                     else (k_pipes s p)\<lparr>p_readers := p_readers (k_pipes s p) + 1\<rparr>)))"
    by (simp add: share_file_def end_of_pipe_pipes file_pipe_def node_pipe_def writes_def pipe_add_writer_def
        pipe_add_reader_def split: option.split node_impl.split)
  have files: "k_files ?s' = (k_files s)(f := (k_files s f)\<lparr>f_refcount := f_refcount (k_files s f) + 1\<rparr>)"
    and live: "k_live ?s' = k_live s" and bad: "k_bad_free ?s' = k_bad_free s" by (simp_all add: share_file_def)
  have shape: "same_shape s ?s'"
    by (auto simp: same_shape_def files pipes split: option.split) (simp_all add: share_file_def)
  note same = same_shape_facts [OF shape]
  have le: "count M g \<le> size M" "ends_of s M p w \<le> size M" for g p w
    by (simp_all add: count_le_size ends_of_def size_filter_mset_lesseq)
  have c: "counted s M" and mem: "g \<in># M" if "g \<in># add_mset f M" for g
    using ok f that by (auto simp: refs_ok_def)
  have "counted ?s' (add_mset f M)"
    unfolding counted_def same
  proof (intro ballI conjI allI impI)
    fix g assume "g \<in># add_mset f M"
    from c [OF this] mem [OF this] have "unat (f_refcount (k_files s g)) = count M g" by (simp add: counted_def)
    with bound le(1) [of g] show "unat (f_refcount (k_files ?s' g)) = count (add_mset f M) g"
      by (auto simp: files u32_succ)
  next
    fix g p assume g: "g \<in># add_mset f M" and p: "file_pipe s g = Some p"
    from c [OF g] mem [OF g] p have
      "unat (p_readers (k_pipes s p)) = ends_of s M p False" "unat (p_writers (k_pipes s p)) = ends_of s M p True"
      by (auto simp: counted_def)
    with bound le(2) [of p False] le(2) [of p True]
    show "unat (p_readers (k_pipes ?s' p)) = ends_of s (add_mset f M) p False"
      "unat (p_writers (k_pipes ?s' p)) = ends_of s (add_mset f M) p True"
      by (auto simp: pipes ends_of_add u32_succ split: option.split)
  qed
  moreover have "unshared ?s' (add_mset f M)"
    using ok f unshared_subset [of s M "add_mset f M"] by (auto simp: refs_ok_def same)
  moreover have "good_file ty ?s' g" if "g \<in># add_mset f M" for g
    using ok mem [OF that] same(5) [OF live] by (simp add: refs_ok_def)
  ultimately show ?thesis using ok bad by (simp add: refs_ok_def)
qed

text \<open>The first half of \<open>drop_file\<close>: the counts.\<close>

definition uncount :: "ptr \<Rightarrow> kst \<Rightarrow> kst" where
  "uncount f s = end_of_pipe f pipe_remove_writer pipe_remove_reader (set_file f (\<lambda>x. x\<lparr>f_refcount := f_refcount x - 1\<rparr>) s)"

lemma uncount_fields:
  "k_files (uncount f s) = (k_files s)(f := (k_files s f)\<lparr>f_refcount := f_refcount (k_files s f) - 1\<rparr>)"
  "k_live (uncount f s) = k_live s" "k_nodes (uncount f s) = k_nodes s" "k_brk (uncount f s) = k_brk s"
  "k_pipes (uncount f s) = (case file_pipe s f of None \<Rightarrow> k_pipes s
     | Some p \<Rightarrow> (k_pipes s)(p := ps_pipe ((if writes s f then pipe_remove_writer else pipe_remove_reader)
         (pipe_view p (set_file f (\<lambda>x. x\<lparr>f_refcount := f_refcount x - 1\<rparr>) s)))))"
  "same_shape s (uncount f s)"
proof -
  show f: "k_files (uncount f s) = (k_files s)(f := (k_files s f)\<lparr>f_refcount := f_refcount (k_files s f) - 1\<rparr>)"
    and "k_live (uncount f s) = k_live s" and n: "k_nodes (uncount f s) = k_nodes s" and b: "k_brk (uncount f s) = k_brk s"
    by (simp_all add: uncount_def)
  show p: "k_pipes (uncount f s) = (case file_pipe s f of None \<Rightarrow> k_pipes s
     | Some p \<Rightarrow> (k_pipes s)(p := ps_pipe ((if writes s f then pipe_remove_writer else pipe_remove_reader)
         (pipe_view p (set_file f (\<lambda>x. x\<lparr>f_refcount := f_refcount x - 1\<rparr>) s)))))"
    by (simp add: uncount_def end_of_pipe_pipes file_pipe_def node_pipe_def writes_def split: option.split node_impl.split)
  show "same_shape s (uncount f s)"
    by (auto simp: same_shape_def f n b p split: option.split)
qed

lemma uncount_bad [simp]: "k_bad_free (uncount f s) = k_bad_free s"
  by (simp add: uncount_def)

lemma uncount_ok:
  assumes ok: "refs_ok ty s (add_mset f N)"
  shows "refs_ok ty (uncount f s) N" "unat (f_refcount (k_files (uncount f s) f)) = count N f"
    "\<And>p. file_pipe s f = Some p \<Longrightarrow>
       unat (p_readers (k_pipes (uncount f s) p)) = ends_of s N p False \<and>
       unat (p_writers (k_pipes (uncount f s) p)) = ends_of s N p True"
proof -
  let ?s' = "uncount f s"
  note fields = uncount_fields [where f = f and s = s]
  note same = same_shape_facts [OF fields(6)]
  have c: "counted s (add_mset f N)" using ok by (simp add: refs_ok_def)
  have ref: "unat (f_refcount (k_files ?s' g)) = count N g" if "g \<in># add_mset f N" for g
  proof -
    from c that have "unat (f_refcount (k_files s g)) = count (add_mset f N) g" unfolding counted_def by blast
    then show ?thesis by (auto simp: fields(1) u32_pred)
  qed
  have pipes: "unat (p_readers (k_pipes ?s' p)) = ends_of s N p False \<and> unat (p_writers (k_pipes ?s' p)) = ends_of s N p True"
    if "g \<in># add_mset f N" "file_pipe s g = Some p" for g p
  proof -
    from c that have "unat (p_readers (k_pipes s p)) = ends_of s (add_mset f N) p False"
      "unat (p_writers (k_pipes s p)) = ends_of s (add_mset f N) p True"
      unfolding counted_def by blast+
    then show ?thesis
      by (auto simp: fields(5) ends_of_add u32_pred split: option.split if_splits)
  qed
  show "refs_ok ty ?s' N"
    unfolding refs_ok_def
  proof (intro conjI ballI)
    show "\<not> k_bad_free ?s'" using ok by (simp add: refs_ok_def)
    show "counted ?s' N" unfolding counted_def same using ref pipes by (metis insert_iff set_mset_add_mset_insert)
    show "unshared ?s' N" using ok unshared_subset [of s "add_mset f N" N] by (simp add: refs_ok_def same)
    show "good_file ty ?s' g" if "g \<in># N" for g
      using ok that same(5) [OF fields(2)] by (simp add: refs_ok_def)
  qed
  show "unat (f_refcount (k_files ?s' f)) = count N f" by (rule ref) simp
  show "unat (p_readers (k_pipes ?s' p)) = ends_of s N p False \<and> unat (p_writers (k_pipes ?s' p)) = ends_of s N p True"
    if "file_pipe s f = Some p" for p
    by (rule pipes [of f]) (simp_all add: that)
qed

text \<open>The second half: what goes with the last reference.\<close>

definition dead_pipe :: "kst \<Rightarrow> ptr \<Rightarrow> bool" where
  "dead_pipe s n \<longleftrightarrow> n_flags (k_nodes s n) AND FS_PERSISTENT = 0 \<and>
     (case node_pipe n s of None \<Rightarrow> False | Some p \<Rightarrow> p_readers (k_pipes s p) = 0 \<and> p_writers (k_pipes s p) = 0)"

lemma release_live:
  "k_live (release_node n s) x \<longleftrightarrow> k_live s x \<and> \<not> (x = n \<and> (owned (k_nodes s n) \<or> dead_pipe s n)) \<and>
     \<not> (n_impl (k_nodes s n) = ImplPipe x \<and> dead_pipe s n) \<and>
     \<not> (n_impl (k_nodes s n) = ImplBuf x \<and> owned (k_nodes s n) \<and> n_flags (k_nodes s n) AND FS_IMPL_HEAP \<noteq> 0)"
  by (auto simp: release_node_def Let_def owned_def dead_pipe_def node_pipe_def split: node_impl.split)

lemma drop_file_uncount:
  "drop_file f s = (if f_refcount (k_files (uncount f s) f) = 0
     then kfree f (release_node (f_node (k_files s f)) (uncount f s)) else uncount f s)"
  by (simp add: drop_file_def Let_def uncount_fields(1) flip: uncount_def)

lemma file_pipe_good:
  "good_file ty s g \<Longrightarrow> file_pipe s g = Some p \<longleftrightarrow> n_impl (k_nodes s (f_node (k_files s g))) = ImplPipe p"
  by (auto simp: good_file_def good_node_def file_pipe_def node_pipe_def split: node_impl.splits)

lemma good_file_kinds:
  assumes "good_file ty s f"
  shows "ty f = KFile" "ty (f_node (k_files s f)) = KNode"
    "n_impl (k_nodes s (f_node (k_files s f))) = ImplPipe p \<Longrightarrow> ty p = KPipe"
    "n_impl (k_nodes s (f_node (k_files s f))) = ImplBuf p \<Longrightarrow> ty p = KBuf"
  using assms by (auto simp: good_file_def good_node_def obj_def split: node_impl.splits)

lemma good_fileI:
  assumes "good_file ty s g" "k_nodes s' = k_nodes s" "k_files s' = k_files s" "k_pipes s' = k_pipes s"
    and "obj ty KFile s' g" "obj ty KNode s' (f_node (k_files s g))"
    and "\<And>p. n_impl (k_nodes s (f_node (k_files s g))) = ImplPipe p \<Longrightarrow> obj ty KPipe s p \<Longrightarrow> obj ty KPipe s' p"
    and "\<And>b. n_impl (k_nodes s (f_node (k_files s g))) = ImplBuf b \<Longrightarrow> obj ty KBuf s b \<Longrightarrow> obj ty KBuf s' b"
  shows "good_file ty s' g"
  using assms by (auto simp: good_file_def good_node_def split: node_impl.splits)

text \<open>What is freed with a file is allocated, and no address is freed twice.\<close>

lemma release_bad:
  assumes "good_file ty s f"
  shows "k_bad_free (kfree f (release_node (f_node (k_files s f)) s)) = k_bad_free s"
proof -
  let ?n = "f_node (k_files s f)"
  have g: "obj ty KFile s f" "good_node ty s ?n" using assms by (simp_all add: good_file_def)
  then have n: "obj ty KNode s ?n" by (simp add: good_node_def)
  show ?thesis
  proof (cases "n_impl (k_nodes s ?n)")
    case (ImplPipe p)
    with g(2) have "obj ty KPipe s p" by (simp add: good_node_def)
    with g(1) n ImplPipe show ?thesis by (auto simp: release_node_def Let_def node_pipe_def obj_def)
  next
    case (ImplBuf b)
    with g(2) have "obj ty KBuf s b" by (simp add: good_node_def)
    with g(1) n ImplBuf show ?thesis by (auto simp: release_node_def Let_def node_pipe_def obj_def)
  qed (use g(1) n in \<open>auto simp: release_node_def Let_def node_pipe_def obj_def\<close>)
qed

text \<open>Freeing a file nobody refers to, with its node, leaves what the other files lead to.\<close>

lemma release_keeps:
  assumes ok: "refs_ok ty s N" and g: "g \<in># N" and f: "f \<notin># N" "good_file ty s f"
    and alone: "unshared s (add_mset f N)"
    and dead: "\<And>p. file_pipe s f = Some p \<Longrightarrow> dead_pipe s (f_node (k_files s f)) \<Longrightarrow> \<forall>h\<in>#N. file_pipe s h \<noteq> Some p"
  shows "good_file ty (kfree f (release_node (f_node (k_files s f)) s)) g"
proof -
  let ?n = "f_node (k_files s f)" and ?m = "f_node (k_files s g)"
  have gg: "good_file ty s g" using ok g by (simp add: refs_ok_def)
  have "f \<noteq> g" using f g by blast
  have own: "?m \<noteq> ?n \<or> \<not> owned (k_nodes s ?n)"
    using alone g \<open>f \<noteq> g\<close> by (auto simp: unshared_def Let_def)
  have buf: "\<not> owned (k_nodes s ?n)" if "n_impl (k_nodes s ?n) = ImplBuf b" "n_impl (k_nodes s ?m) = ImplBuf b" for b
    using alone g that own by (auto simp: unshared_def Let_def)
  have pip: "\<not> dead_pipe s ?n" if "file_pipe s g = Some p" "file_pipe s f = Some p" for p
    using dead [OF that(2)] that(1) g by blast
  have same: "?m \<noteq> ?n \<or> \<not> dead_pipe s ?n"
    using pip by (cases "file_pipe s f") (auto simp: file_pipe_def dead_pipe_def)
  let ?s = "kfree f (release_node ?n s)"
  note kinds = good_file_kinds [OF f(2)]
  have at_g: "obj ty KFile ?s g"
    using gg \<open>f \<noteq> g\<close> kinds by (auto simp: good_file_def obj_def release_live)
  have at_m: "obj ty KNode ?s ?m"
    using gg own same kinds by (auto simp: good_file_def good_node_def obj_def release_live)
  show ?thesis
  proof (rule good_fileI [OF gg _ _ _ at_g at_m])
    show "obj ty KPipe ?s p" if "n_impl (k_nodes s ?m) = ImplPipe p" "obj ty KPipe s p" for p
      using that kinds pip [of p] file_pipe_good [OF gg] file_pipe_good [OF f(2)] by (auto simp: obj_def release_live)
    show "obj ty KBuf ?s b" if "n_impl (k_nodes s ?m) = ImplBuf b" "obj ty KBuf s b" for b
      using that kinds buf [of b] by (auto simp: obj_def release_live)
  qed simp_all
qed

lemma drop_ok [kinv]:
  assumes ok: "refs_ok ty s (add_mset f N)"
  shows "refs_ok ty (drop_file f s) N"
proof (cases "f_refcount (k_files (uncount f s) f) = 0")
  case False
  with uncount_ok(1) [OF ok] show ?thesis by (simp add: drop_file_uncount)
next
  case True
  let ?s = "uncount f s"
  note same = same_shape_facts [OF uncount_fields(6) [where f = f and s = s]]
  have node: "f_node (k_files ?s f) = f_node (k_files s f)" by (simp add: uncount_fields(1))
  from uncount_ok(2) [OF ok] True have f: "f \<notin># N" by (simp add: not_in_iff)
  have good: "good_file ty ?s f" using ok same(5) [OF uncount_fields(2)] by (simp add: refs_ok_def)
  have "\<forall>h\<in>#N. file_pipe ?s h \<noteq> Some p" if "file_pipe ?s f = Some p" "dead_pipe ?s (f_node (k_files ?s f))" for p
  proof -
    from that have "p_readers (k_pipes ?s p) = 0" "p_writers (k_pipes ?s p) = 0"
      by (simp_all add: dead_pipe_def file_pipe_def)
    with uncount_ok(3) [OF ok, of p] that(1) have "ends_of s N p False = 0" "ends_of s N p True = 0"
      by (simp_all add: same)
    then show ?thesis unfolding ends_of_zero same by (metis (full_types))
  qed
  then have keep: "good_file ty (kfree f (release_node (f_node (k_files ?s f)) ?s)) g" if "g \<in># N" for g
    using uncount_ok(1) [OF ok] that f good ok by (intro release_keeps) (auto simp: refs_ok_def same)
  have "same_shape ?s (drop_file f s)"
    using True by (simp add: drop_file_uncount same_shape_def)
  note same' = same_shape_facts [OF this]
  have "k_files (drop_file f s) = k_files ?s" "k_pipes (drop_file f s) = k_pipes ?s"
    using True by (simp_all add: drop_file_uncount)
  then have "counted (drop_file f s) N = counted ?s N" unfolding counted_def same' by simp
  moreover have "good_file ty (drop_file f s) g" if "g \<in># N" for g
    using keep [OF that] True unfolding drop_file_uncount node by simp
  moreover have "\<not> k_bad_free (drop_file f s)"
    using release_bad [OF good] ok True unfolding drop_file_uncount node by (simp add: refs_ok_def)
  ultimately show ?thesis using uncount_ok(1) [OF ok] unfolding refs_ok_def same' by blast
qed

end
