(* ===== verification/FdSafe.thy ===== *)
theory FdSafe
  imports FdInv
begin

text \<open>
  The descriptor system calls keep the invariant of theory FdInv, whatever tasks issue them and in
  whatever order; so no call ever follows a descriptor to an object that was freed.
\<close>

section \<open>System invariant\<close>

text \<open>The nodes the kernel itself holds on to: mounted file systems, files of the RAM disk, the console.\<close>

definition roots :: "kst \<Rightarrow> ptr set" where
  "roots s = set_option (k_fs_root s) \<union> set_option (k_std_node s) \<union> vm_root ` set (k_mounts s) \<union> set (k_initrd s)"

definition root_node :: "(ptr \<Rightarrow> kind) \<Rightarrow> kst \<Rightarrow> ptr \<Rightarrow> bool" where
  "root_node ty s n \<longleftrightarrow> obj ty KNode s n \<and> n_impl (k_nodes s n) = NoImpl \<and> n_driver (k_nodes s n) \<noteq> DriverMock \<and>
     n_flags (k_nodes s n) AND FS_PERSISTENT \<noteq> 0 \<and> n_flags (k_nodes s n) AND FS_PIPE = 0 \<and>
     n_flags (k_nodes s n) AND FS_TRANSIENT = 0"

definition tables_ok :: "ptr set \<Rightarrow> kst \<Rightarrow> bool" where
  "tables_ok T s \<longleftrightarrow> finite T \<and> k_current s \<in> T \<and> (\<forall>t\<in>T. length (t_fd_table (k_tasks s t)) = MAX_FD) \<and>
     MAX_FD * card T + 2 < 2 ^ 32"

definition fd_inv :: "ptr set \<Rightarrow> kst \<Rightarrow> bool" where
  "fd_inv T s \<longleftrightarrow> tables_ok T s \<and> (\<exists>ty. refs_ok ty s (open_files T s) \<and> (\<forall>n\<in>roots s. root_node ty s n))"

text \<open>What the invariant depends on.\<close>

lemma refs_ok_cong:
  assumes "k_files s' = k_files s" "k_nodes s' = k_nodes s" "k_live s' = k_live s" "k_brk s' = k_brk s" "k_pipes s' = k_pipes s"
    "k_bad_free s' = k_bad_free s"
  shows "refs_ok ty s' M = refs_ok ty s M"
proof -
  have "same_shape s s'" using assms by (simp add: same_shape_def)
  note same = same_shape_facts [OF this]
  show ?thesis unfolding refs_ok_def same counted_def assms
    by (simp add: good_file_def good_node_def obj_def assms cong: node_impl.case_cong)
qed

lemma root_node_cong:
  assumes "k_nodes s' n = k_nodes s n" "k_live s' n = k_live s n" "k_brk s \<le> k_brk s'"
  shows "root_node ty s n \<Longrightarrow> root_node ty s' n"
  using assms by (auto simp: root_node_def obj_def)

lemma size_bound:
  assumes "tables_ok T s"
  shows "Suc (size (open_files T s)) < 2 ^ 32" "size (open_files T s) + 2 < 2 ^ 32"
  using size_open_files [of T s] assms by (auto simp: tables_ok_def)

lemma fd_invE:
  assumes "fd_inv T s"
  obtains ty where "tables_ok T s" "refs_ok ty s (open_files T s)" "\<forall>n\<in>roots s. root_node ty s n"
  using assms by (auto simp: fd_inv_def)

lemma fd_fileD:
  assumes "tables_ok T s" "fd_file fd s = Some f"
  shows "k_current s \<in> T" "nat fd < length (t_fd_table (k_tasks s (k_current s)))"
    "t_fd_table (k_tasks s (k_current s)) ! nat fd = Some f" "f \<in># open_files T s"
proof -
  show t: "k_current s \<in> T" "nat fd < length (t_fd_table (k_tasks s (k_current s)))"
    "t_fd_table (k_tasks s (k_current s)) ! nat fd = Some f"
    using assms by (auto simp: tables_ok_def fd_file_def split: if_splits)
  show "f \<in># open_files T s"
    using open_files_set_fd(3) [OF _ t] assms(1) by (simp add: tables_ok_def)
qed

section \<open>Removing and sharing\<close>

lemma drop_file_frame [simp]:
  "t_fd_table (k_tasks (drop_file f s) t) = t_fd_table (k_tasks s t)" "k_current (drop_file f s) = k_current s"
  "k_nodes (drop_file f s) = k_nodes s" "k_brk (drop_file f s) = k_brk s"
  by (simp_all add: drop_file_def Let_def)

lemma share_file_frame [simp]:
  "t_fd_table (k_tasks (share_file t i f s) u) = t_fd_table (k_tasks (set_fd t i (Some f) s) u)"
  "k_current (share_file t i f s) = k_current s" "k_nodes (share_file t i f s) = k_nodes s"
  "k_brk (share_file t i f s) = k_brk s" "k_live (share_file t i f s) = k_live s"
  by (simp_all add: share_file_def)

definition same_roots :: "kst \<Rightarrow> kst \<Rightarrow> bool" where
  "same_roots s s' \<longleftrightarrow> k_fs_root s' = k_fs_root s \<and> k_std_node s' = k_std_node s \<and> k_mounts s' = k_mounts s \<and>
     k_initrd s' = k_initrd s"

lemma same_roots_roots: "same_roots s s' \<Longrightarrow> roots s' = roots s"
  by (simp add: same_roots_def roots_def)

lemma same_roots_steps [simp]:
  "same_roots s (set_file p h s') = same_roots s s'" "same_roots s (set_node p k s') = same_roots s s'"
  "same_roots s (kfree p s') = same_roots s s'" "same_roots s (set_fd t i v s') = same_roots s s'"
  "same_roots s (on_pipe p g s') = same_roots s s'" "same_roots s s"
  by (simp_all add: same_roots_def set_file_def set_node_def kfree_def set_fd_def on_pipe_def pipe_store_def)

lemma same_roots_fd [simp]:
  "same_roots s (end_of_pipe f a b s') = same_roots s s'" "same_roots s (release_node n s') = same_roots s s'"
  "same_roots s (drop_file f s') = same_roots s s'" "same_roots s (share_file t i f s') = same_roots s s'"
  by (auto simp: end_of_pipe_def release_node_def drop_file_def share_file_def Let_def split: option.split node_impl.split)

text \<open>Nodes the kernel holds on to survive.\<close>

lemma drop_file_root:
  assumes "good_file ty s f" "root_node ty s n"
  shows "root_node ty (drop_file f s) n"
proof -
  let ?u = "uncount f s" and ?m = "f_node (k_files s f)"
  note kinds = good_file_kinds [OF assms(1)]
  have "k_live (kfree f (release_node ?m ?u)) n = k_live s n"
    using assms(2) kinds by (auto simp: release_live uncount_fields root_node_def obj_def owned_def dead_pipe_def)
  then show ?thesis
    using assms(2) by (auto intro: root_node_cong [of _ n s] simp: drop_file_uncount uncount_fields)
qed

lemma drop_slot:
  assumes inv: "fd_inv T s" and t: "t \<in> T" "i < MAX_FD" "t_fd_table (k_tasks s t) ! i = Some f"
  shows "fd_inv T (drop_file f (set_fd t i None s))"
proof -
  let ?s1 = "set_fd t i None s"
  from inv obtain ty where tab: "tables_ok T s" and ok: "refs_ok ty s (open_files T s)" and r: "\<forall>n\<in>roots s. root_node ty s n"
    by (rule fd_invE)
  from tab t have fin: "finite T" and len: "i < length (t_fd_table (k_tasks s t))" by (auto simp: tables_ok_def)
  have mem: "f \<in># open_files T s" by (rule open_files_set_fd(3) [OF fin t(1) len t(3)])
  then have eq: "open_files T s = add_mset f (open_files T ?s1)"
    using open_files_set_fd(2) [OF fin t(1) len t(3)] by simp
  have "refs_ok ty ?s1 (add_mset f (open_files T ?s1))"
    using ok refs_ok_cong [of ?s1 s ty] by (simp add: eq)
  from drop_ok [OF this] have "refs_ok ty (drop_file f ?s1) (open_files T (drop_file f ?s1))"
    using open_files_cong [of "drop_file f ?s1" ?s1 T] by simp
  moreover have "tables_ok T (drop_file f ?s1)"
    using tab by (auto simp: tables_ok_def set_fd_def)
  moreover have "good_file ty ?s1 f"
    using ok mem by (auto simp: refs_ok_def good_file_def good_node_def obj_def split: node_impl.splits)
  then have "\<forall>n\<in>roots (drop_file f ?s1). root_node ty (drop_file f ?s1) n"
    using r same_roots_roots [of s "drop_file f ?s1"] by (auto intro!: drop_file_root root_node_cong [of ?s1 _ s])
  ultimately show ?thesis by (auto simp: fd_inv_def)
qed

lemma share_slot:
  assumes inv: "fd_inv T s" and f: "f \<in># open_files T s"
    and t: "t \<in> T" "i < MAX_FD" "t_fd_table (k_tasks s t) ! i = None"
  shows "fd_inv T (share_file t i f s)"
proof -
  let ?s1 = "share_file t i f s"
  from inv obtain ty where tab: "tables_ok T s" and ok: "refs_ok ty s (open_files T s)" and r: "\<forall>n\<in>roots s. root_node ty s n"
    by (rule fd_invE)
  from tab t have fin: "finite T" and len: "i < length (t_fd_table (k_tasks s t))" by (auto simp: tables_ok_def)
  have "open_files T ?s1 = add_mset f (open_files T s)"
    using open_files_set_fd(1) [OF fin t(1) len t(3)] open_files_cong [of ?s1 "set_fd t i (Some f) s" T] by simp
  with share_ok [OF ok f size_bound(1) [OF tab]] have "refs_ok ty ?s1 (open_files T ?s1)" by simp
  moreover have "tables_ok T ?s1" using tab by (auto simp: tables_ok_def set_fd_def)
  moreover have "\<forall>n\<in>roots ?s1. root_node ty ?s1 n"
    using r same_roots_roots [of s ?s1] by (auto intro!: root_node_cong [of ?s1 _ s])
  ultimately show ?thesis by (auto simp: fd_inv_def)
qed

lemma refs_ok_shape:
  assumes "same_shape s s'" "k_live s' = k_live s" "k_bad_free s' = k_bad_free s"
    and "\<And>g. f_refcount (k_files s' g) = f_refcount (k_files s g)"
    and "\<And>p. p_readers (k_pipes s' p) = p_readers (k_pipes s p) \<and> p_writers (k_pipes s' p) = p_writers (k_pipes s p)"
    and "refs_ok ty s M"
  shows "refs_ok ty s' M"
proof -
  note same = same_shape_facts [OF assms(1)]
  show ?thesis using assms(6) same(5) [OF assms(2)] unfolding refs_ok_def same counted_def by (simp add: assms(3-5))
qed

lemma root_node_shape: "same_shape s s' \<Longrightarrow> k_live s' = k_live s \<Longrightarrow> root_node ty s n \<Longrightarrow> root_node ty s' n"
  by (auto simp: same_shape_def root_node_def obj_def)

text \<open>Steps that change only positions, lengths and contents.\<close>

lemma fd_inv_shape:
  assumes inv: "fd_inv T s" and shape: "same_shape s s'" "k_live s' = k_live s" "k_bad_free s' = k_bad_free s" and roots: "same_roots s s'"
    and cnt: "\<And>g. f_refcount (k_files s' g) = f_refcount (k_files s g)"
      "\<And>p. p_readers (k_pipes s' p) = p_readers (k_pipes s p) \<and> p_writers (k_pipes s' p) = p_writers (k_pipes s p)"
    and tab: "\<And>t. t_fd_table (k_tasks s' t) = t_fd_table (k_tasks s t)" "k_current s' = k_current s"
  shows "fd_inv T s'"
proof -
  from inv obtain ty where "tables_ok T s" and ok: "refs_ok ty s (open_files T s)" and r: "\<forall>n\<in>roots s. root_node ty s n"
    by (rule fd_invE)
  then have "tables_ok T s'" by (simp add: tables_ok_def tab)
  moreover have "refs_ok ty s' (open_files T s')"
    using refs_ok_shape [OF shape cnt ok] open_files_cong [of s' s T] tab by simp
  moreover have "\<forall>n\<in>roots s'. root_node ty s' n"
    using r root_node_shape [OF shape(1,2)] by (simp add: same_roots_roots [OF roots])
  ultimately show ?thesis by (auto simp: fd_inv_def)
qed

section \<open>Descriptor operations\<close>

lemma close_inv [kinv]:
  assumes "fd_inv T s"
  shows "fd_inv T (snd (close fd s))"
proof (cases "fd_file fd s")
  case None
  with assms show ?thesis by (simp add: close_def)
next
  case (Some f)
  from assms have tab: "tables_ok T s" by (simp add: fd_inv_def)
  from fd_fileD [OF tab Some] Some tab drop_slot [OF assms, of "k_current s" "nat fd" f] show ?thesis
    by (simp add: close_def tables_ok_def)
qed

lemma close_all_inv [kinv]:
  assumes "fd_inv T s" "t \<in> T"
  shows "fd_inv T (vfs_close_all_fds t s)"
proof -
  have "fd_inv T (close_slots t is s)" if "set is \<subseteq> {..<MAX_FD}" "fd_inv T s" for "is" s
    using that
  proof (induction "is" arbitrary: s)
    case (Cons i "is")
    then show ?case using drop_slot [OF Cons.prems(2) assms(2), of i] by (auto split: option.split)
  qed simp
  from this [of "[0..<MAX_FD]"] assms(1) show ?thesis by (simp add: vfs_close_all_fds_def atLeast0LessThan)
qed

lemma free_fdD: "free_fd s = Some i \<Longrightarrow> i < MAX_FD \<and> t_fd_table (k_tasks s (k_current s)) ! i = None"
  by (auto simp: free_fd_def find_Some_iff)

lemma dup_inv [kinv]:
  assumes "fd_inv T s"
  shows "fd_inv T (snd (dup fd s))"
proof -
  from assms have tab: "tables_ok T s" by (simp add: fd_inv_def)
  show ?thesis
    using fd_fileD [OF tab] share_slot [OF assms] free_fdD [of s] assms
    by (auto simp: dup_def split: option.split)
qed

lemma close_table:
  "fd_file fd s = Some f \<Longrightarrow> t_fd_table (k_tasks (snd (close fd s)) (k_current s)) =
     (t_fd_table (k_tasks s (k_current s)))[nat fd := None]"
  "k_current (snd (close fd s)) = k_current s"
  by (auto simp: close_def set_fd_def split: option.split)

lemma dup2_inv [kinv]:
  assumes inv: "fd_inv T s"
  shows "fd_inv T (snd (dup2 a b s))"
proof (cases "b < 0 \<or> int MAX_FD \<le> b \<or> fd_file a s = None \<or> a = b")
  case True
  with inv show ?thesis by (auto simp: dup2_def split: option.split)
next
  case False
  then obtain f where f: "fd_file a s = Some f" and b: "\<not> b < 0" "\<not> int MAX_FD \<le> b" "a \<noteq> b" by auto
  let ?s1 = "if fd_file b s = None then s else snd (close b s)"
  from inv have inv1: "fd_inv T ?s1" by (simp add: kinv)
  then have tab1: "tables_ok T ?s1" by (simp add: fd_inv_def)
  have cur: "k_current ?s1 = k_current s" by (simp add: close_table)
  have "fd_file a ?s1 = Some f" and empty: "fd_file b ?s1 = None"
    using f b inv by (auto simp: fd_file_def close_table fd_inv_def tables_ok_def nat_eq_iff split: if_splits)
  from fd_fileD [OF tab1 this(1)] empty b
  have "fd_inv T (share_file (k_current ?s1) (nat b) f ?s1)"
    by (intro share_slot [OF inv1]) (auto simp: fd_file_def)
  with f b show ?thesis by (simp add: dup2_def Let_def)
qed

lemma seek_inv [kinv]:
  assumes "fd_inv T s"
  shows "fd_inv T (snd (seek fd offset whence s))"
proof -
  have "fd_inv T (set_file f (\<lambda>x. x\<lparr>f_offset := v\<rparr>) s)" for f v
    by (rule fd_inv_shape [OF assms]) (auto simp: same_shape_def)
  with assms show ?thesis by (simp add: seek_def Let_def split: option.split)
qed

section \<open>New files\<close>

definition pipe_counted :: "kst \<Rightarrow> ptr multiset \<Rightarrow> ptr \<Rightarrow> bool" where
  "pipe_counted s M n \<longleftrightarrow> (\<forall>p. node_pipe n s = Some p \<longrightarrow>
     unat (p_readers (k_pipes s p)) = ends_of s M p False \<and> unat (p_writers (k_pipes s p)) = ends_of s M p True)"

lemma counted_pipes:
  "counted s M \<longleftrightarrow> (\<forall>f\<in>#M. unat (f_refcount (k_files s f)) = count M f \<and> pipe_counted s M (f_node (k_files s f)))"
  by (simp add: counted_def pipe_counted_def file_pipe_def)

text \<open>State \<open>s'\<close> is \<open>s\<close> with a file \<open>F\<close> allocated on node \<open>n\<close> and counted at its pipe, if any.\<close>

definition adds_file :: "kst \<Rightarrow> ptr \<Rightarrow> file_t \<Rightarrow> kst \<Rightarrow> bool" where
  "adds_file s f F s' \<longleftrightarrow> f = k_brk s \<and> k_files s' = (k_files s)(f := F) \<and> f_refcount F = 1 \<and> k_nodes s' = k_nodes s \<and>
     k_live s' = (k_live s)(f := True) \<and> k_bad_free s' = k_bad_free s \<and> k_brk s' = Suc f \<and>
     k_pipes s' = (case node_pipe (f_node F) s of None \<Rightarrow> k_pipes s
       | Some p \<Rightarrow> (k_pipes s)(p := if f_flags F AND O_WRONLY \<noteq> 0
           then (k_pipes s p)\<lparr>p_writers := p_writers (k_pipes s p) + 1\<rparr>
           else (k_pipes s p)\<lparr>p_readers := p_readers (k_pipes s p) + 1\<rparr>))"

lemma adds_file_pipes:
  assumes "adds_file s f F s'" "\<forall>g\<in>#M. g < k_brk s"
  shows "node_pipe n s' = node_pipe n s"
    "ends_of s' (add_mset f M) p w = ends_of s M p w + (if node_pipe (f_node F) s = Some p \<and> (f_flags F AND O_WRONLY \<noteq> 0) = w then 1 else 0)"
proof -
  show n: "node_pipe n s' = node_pipe n s" for n using assms(1) by (simp add: adds_file_def node_pipe_def split: node_impl.split)
  have "filter_mset (\<lambda>g. file_pipe s' g = Some p \<and> writes s' g = w) M = filter_mset (\<lambda>g. file_pipe s g = Some p \<and> writes s g = w) M"
    using assms by (intro filter_mset_cong) (auto simp: file_pipe_def n writes_def adds_file_def)
  then show "ends_of s' (add_mset f M) p w = ends_of s M p w + (if node_pipe (f_node F) s = Some p \<and> (f_flags F AND O_WRONLY \<noteq> 0) = w then 1 else 0)"
    using assms(1) by (auto simp: ends_of_def file_pipe_def n writes_def adds_file_def)
qed

lemma adds_file_counted:
  assumes add: "adds_file s f F s'" and M: "\<forall>g\<in>#M. g < k_brk s" "Suc (size M) < 2 ^ 32"
    and n: "pipe_counted s M n"
  shows "pipe_counted s' (add_mset f M) n"
  unfolding pipe_counted_def adds_file_pipes [OF add M(1)]
proof (intro allI impI)
  fix p assume p: "node_pipe n s = Some p"
  have le: "ends_of s M p w \<le> size M" for w by (simp add: ends_of_def size_filter_mset_lesseq)
  show "unat (p_readers (k_pipes s' p)) = ends_of s M p False + (if node_pipe (f_node F) s = Some p \<and> (f_flags F AND O_WRONLY \<noteq> 0) = False then 1 else 0) \<and>
    unat (p_writers (k_pipes s' p)) = ends_of s M p True + (if node_pipe (f_node F) s = Some p \<and> (f_flags F AND O_WRONLY \<noteq> 0) = True then 1 else 0)"
    using add n p M(2) le [of False] le [of True] by (auto simp: adds_file_def pipe_counted_def u32_succ split: option.split)
qed

lemma good_node_keep:
  assumes "good_node ty s n" "k_nodes s' n = k_nodes s n" "k_brk s \<le> k_brk s'"
    "\<And>x. x < k_brk s \<Longrightarrow> k_live s' x = k_live s x \<and> ty' x = ty x"
    "\<And>p. pipe_inv (k_pipes s p) \<Longrightarrow> pipe_inv (k_pipes s' p)"
  shows "good_node ty' s' n"
  using assms by (auto simp: good_node_def obj_def split: node_impl.splits)

lemma new_file_ok:
  assumes ok: "refs_ok ty s M" and add: "adds_file s f F s'" and n: "good_node ty s (f_node F)"
    and bound: "Suc (size M) < 2 ^ 32" and cnt: "pipe_counted s M (f_node F)"
    and alone: "\<And>g b. g \<in># M \<Longrightarrow> f_node (k_files s g) = f_node F \<Longrightarrow> \<not> owned (k_nodes s (f_node F))"
      "\<And>g b. g \<in># M \<Longrightarrow> n_impl (k_nodes s (f_node F)) = ImplBuf b \<Longrightarrow>
         n_impl (k_nodes s (f_node (k_files s g))) = ImplBuf b \<Longrightarrow> f_node (k_files s g) = f_node F"
  shows "refs_ok (ty(f := KFile)) s' (add_mset f M)"
proof -
  have M: "\<forall>g\<in>#M. g < k_brk s" using ok by (auto simp: refs_ok_def good_file_def obj_def)
  then have f: "f \<notin># M" using add by (auto simp: adds_file_def)
  have pinv: "pipe_inv (k_pipes s p) \<Longrightarrow> pipe_inv (k_pipes s' p)" for p
    using add by (auto simp: adds_file_def split: option.split)
  have keep: "good_node (ty(f := KFile)) s' m" if "good_node ty s m" for m
    using add pinv by (intro good_node_keep [OF that]) (auto simp: adds_file_def)
  have "good_file (ty(f := KFile)) s' g" if "g \<in># add_mset f M" for g
    using that ok keep n M f add by (auto simp: refs_ok_def good_file_def obj_def adds_file_def)
  moreover have "counted s' (add_mset f M)"
    unfolding counted_pipes
  proof (intro ballI conjI)
    fix g assume g: "g \<in># add_mset f M"
    show "unat (f_refcount (k_files s' g)) = count (add_mset f M) g"
      using g ok f add by (auto simp: refs_ok_def counted_def adds_file_def not_in_iff)
    have "pipe_counted s M (f_node (k_files s' g))"
      using g ok cnt f add by (auto simp: refs_ok_def counted_pipes adds_file_def)
    then show "pipe_counted s' (add_mset f M) (f_node (k_files s' g))" by (rule adds_file_counted [OF add M bound])
  qed
  moreover have "unshared s' (add_mset f M)"
    using ok alone f add by (auto simp: refs_ok_def unshared_def adds_file_def Let_def)
  moreover have "\<not> k_bad_free s'" using ok add by (simp add: refs_ok_def adds_file_def)
  ultimately show ?thesis by (simp add: refs_ok_def)
qed

text \<open>New objects beside the old ones.\<close>

definition extends :: "kst \<Rightarrow> kst \<Rightarrow> bool" where
  "extends s s' \<longleftrightarrow> k_brk s \<le> k_brk s' \<and> k_bad_free s' = k_bad_free s \<and>
     (\<forall>x<k_brk s. k_files s' x = k_files s x \<and> k_nodes s' x = k_nodes s x \<and> k_live s' x = k_live s x \<and> k_pipes s' x = k_pipes s x)"

lemma extends_refl [simp]: "extends s s"
  by (simp add: extends_def)

lemma extends_trans: "extends s s1 \<Longrightarrow> extends s1 s2 \<Longrightarrow> extends s s2"
  by (auto simp: extends_def)

lemma good_fileD:
  assumes "good_file ty s g"
  shows "g < k_brk s" "f_node (k_files s g) < k_brk s" "file_pipe s g = Some p \<Longrightarrow> p < k_brk s"
    "n_impl (k_nodes s (f_node (k_files s g))) = ImplBuf b \<Longrightarrow> b < k_brk s"
  using assms by (auto simp: good_file_def good_node_def obj_def file_pipe_def node_pipe_def split: node_impl.splits if_splits)

lemma good_file_extends:
  assumes "good_file ty s g" "extends s s'" "\<And>x. x < k_brk s \<Longrightarrow> ty' x = ty x"
  shows "good_file ty' s' g" "file_pipe s' g = file_pipe s g" "writes s' g = writes s g"
  using good_fileD [OF assms(1)] assms
  by (auto simp: good_file_def good_node_def obj_def extends_def file_pipe_def node_pipe_def writes_def split: node_impl.splits)

lemma refs_ok_extends:
  assumes ok: "refs_ok ty s M" and ext: "extends s s'" "\<And>x. x < k_brk s \<Longrightarrow> ty' x = ty x"
  shows "refs_ok ty' s' M"
proof -
  have good: "good_file ty s g" if "g \<in># M" for g using ok that by (simp add: refs_ok_def)
  note same = good_file_extends [OF good ext]
  have ends: "ends_of s' M p w = ends_of s M p w" for p w
    unfolding ends_of_def by (intro arg_cong [of _ _ size] filter_mset_cong) (auto simp: same)
  have files: "k_files s' g = k_files s g" if "g \<in># M" for g
    using ext(1) good_fileD(1) [OF good [OF that]] by (simp add: extends_def)
  have "counted s' M"
    unfolding counted_def ends
  proof (intro ballI conjI allI impI)
    fix f assume f: "f \<in># M"
    then show "unat (f_refcount (k_files s' f)) = count M f" using ok files by (simp add: refs_ok_def counted_def)
    fix p assume "file_pipe s' f = Some p"
    with same(2) [OF f] have p: "file_pipe s f = Some p" by simp
    with good_fileD(3) [OF good [OF f]] ext(1) have "k_pipes s' p = k_pipes s p" by (simp add: extends_def)
    with p f ok show "unat (p_readers (k_pipes s' p)) = ends_of s M p False" "unat (p_writers (k_pipes s' p)) = ends_of s M p True"
      by (auto simp: refs_ok_def counted_def)
  qed
  moreover have "unshared s' M"
    using ok ext(1) good_fileD(2) [OF good] files by (auto simp: refs_ok_def unshared_def Let_def extends_def)
  moreover have "\<not> k_bad_free s'" using ok ext(1) by (simp add: refs_ok_def extends_def)
  ultimately show ?thesis using same by (simp add: refs_ok_def)
qed

lemma root_extends:
  "root_node ty s n \<Longrightarrow> extends s s' \<Longrightarrow> (\<And>x. x < k_brk s \<Longrightarrow> ty' x = ty x) \<Longrightarrow> root_node ty' s' n"
  by (auto simp: root_node_def obj_def extends_def)

lemma two_freeD:
  assumes "two_free s = Some (r, w)"
  shows "r < MAX_FD" "w < MAX_FD" "r \<noteq> w"
    "t_fd_table (k_tasks s (k_current s)) ! r = None" "t_fd_table (k_tasks s (k_current s)) ! w = None"
proof -
  obtain xs where xs: "filter (\<lambda>i. t_fd_table (k_tasks s (k_current s)) ! i = None) [FIRST_USER_FD..<MAX_FD] = r # w # xs"
    using assms by (auto simp: two_free_def split: list.splits)
  have "distinct (r # w # xs)" unfolding xs [symmetric] by simp
  moreover have "set (r # w # xs) \<subseteq> {i. i < MAX_FD \<and> t_fd_table (k_tasks s (k_current s)) ! i = None}"
    unfolding xs [symmetric] by auto
  ultimately show "r < MAX_FD" "w < MAX_FD" "r \<noteq> w"
    "t_fd_table (k_tasks s (k_current s)) ! r = None" "t_fd_table (k_tasks s (k_current s)) ! w = None" by auto
qed

text \<open>The objects \<open>pipe\<close> allocates, from the first free address \<open>q\<close> on.\<close>

definition end_file :: "ptr \<Rightarrow> u32 \<Rightarrow> file_t" where
  "end_file q flags = \<lparr>f_node = Suc q, f_offset = 0, f_flags = flags, f_refcount = 1\<rparr>"

definition empty_pipe :: "u32 \<Rightarrow> u32 \<Rightarrow> pipe_t" where
  "empty_pipe r w = \<lparr>p_buffer = replicate (unat PIPE_SIZE) 0, p_head = 0, p_tail = 0, p_len = 0, p_size = PIPE_SIZE,
     p_readers = r, p_writers = w, p_waiting_task = None\<rparr>"

lemma pipe_objects:
  obtains s4 where
    "pipe s = (case two_free s4 of None \<Rightarrow> (None, s4)
       | Some (r, w) \<Rightarrow> (Some (int r, int w), set_fd (k_current s) w (Some (k_brk s + 3)) (set_fd (k_current s) r (Some (k_brk s + 2)) s4)))"
    "k_tasks s4 = k_tasks s" "k_current s4 = k_current s" "same_roots s s4" "k_brk s4 = k_brk s + 4" "k_bad_free s4 = k_bad_free s"
    "k_files s4 = (k_files s)(k_brk s + 2 := end_file (k_brk s) O_RDONLY, k_brk s + 3 := end_file (k_brk s) O_WRONLY)"
    "k_nodes s4 = (k_nodes s)(Suc (k_brk s) := pipe_node (k_brk s))"
    "k_live s4 = (k_live s)(k_brk s := True, Suc (k_brk s) := True, k_brk s + 2 := True, k_brk s + 3 := True)"
    "k_pipes s4 = (k_pipes s)(k_brk s := empty_pipe 1 1)"
proof -
  define s4 where "s4 = snd (file_create (Suc (k_brk s)) O_WRONLY (snd (file_create (Suc (k_brk s)) O_RDONLY
    (snd (new_node (pipe_node (k_brk s)) (snd (new_pipe s)))))))"
  note defs = s4_def file_create_def new_node_def new_pipe_def kalloc_def pipe_create_def set_file_def set_node_def
  have "k_tasks s4 = k_tasks s" "k_current s4 = k_current s" "k_brk s4 = k_brk s + 4" "k_bad_free s4 = k_bad_free s"
    "k_files s4 = (k_files s)(k_brk s + 2 := end_file (k_brk s) O_RDONLY, k_brk s + 3 := end_file (k_brk s) O_WRONLY)"
    "k_nodes s4 = (k_nodes s)(Suc (k_brk s) := pipe_node (k_brk s))"
    "k_live s4 = (k_live s)(k_brk s := True, Suc (k_brk s) := True, k_brk s + 2 := True, k_brk s + 3 := True)"
    "k_pipes s4 = (k_pipes s)(k_brk s := empty_pipe 1 1)"
    by (simp_all add: defs end_file_def empty_pipe_def numeral_3_eq_3)
  moreover have "same_roots s s4" by (simp add: defs same_roots_def)
  moreover have "pipe s = (case two_free s4 of None \<Rightarrow> (None, s4)
       | Some (r, w) \<Rightarrow> (Some (int r, int w), set_fd (k_current s) w (Some (k_brk s + 3)) (set_fd (k_current s) r (Some (k_brk s + 2)) s4)))"
    by (simp add: pipe_def defs numeral_3_eq_3 split: option.split)
  ultimately show thesis using that by blast
qed

lemma empty_pipe_inv: "pipe_inv (empty_pipe r w)"
  by (simp add: pipe_inv_def empty_pipe_def PIPE_SIZE_def)

lemma pipe_refs:
  assumes ok: "refs_ok ty s M" and bound: "size M + 2 < 2 ^ 32"
    and s4: "k_brk s4 = k_brk s + 4" "k_bad_free s4 = k_bad_free s"
    "k_files s4 = (k_files s)(k_brk s + 2 := end_file (k_brk s) O_RDONLY, k_brk s + 3 := end_file (k_brk s) O_WRONLY)"
    "k_nodes s4 = (k_nodes s)(Suc (k_brk s) := pipe_node (k_brk s))"
    "k_live s4 = (k_live s)(k_brk s := True, Suc (k_brk s) := True, k_brk s + 2 := True, k_brk s + 3 := True)"
    "k_pipes s4 = (k_pipes s)(k_brk s := empty_pipe 1 1)"
  shows "refs_ok (ty(k_brk s := KPipe, Suc (k_brk s) := KNode, k_brk s + 2 := KFile, k_brk s + 3 := KFile)) s4
    (add_mset (k_brk s + 3) (add_mset (k_brk s + 2) M))"
proof -
  define q where "q = k_brk s"
  define b where "b = s\<lparr>k_brk := q + 2, k_nodes := (k_nodes s)(Suc q := pipe_node q),
    k_live := (k_live s)(q := True, Suc q := True), k_pipes := (k_pipes s)(q := empty_pipe 0 0)\<rparr>"
  define b1 where "b1 = b\<lparr>k_brk := q + 3, k_files := (k_files s)(q + 2 := end_file q O_RDONLY),
    k_live := (k_live b)(q + 2 := True), k_pipes := (k_pipes s)(q := empty_pipe 1 0)\<rparr>"
  let ?ty = "ty(q := KPipe, Suc q := KNode)" and ?ty1 = "ty(q := KPipe, Suc q := KNode, q + 2 := KFile)"
  have np: "node_pipe (Suc q) b = Some q" "node_pipe (Suc q) b1 = Some q"
    by (simp_all add: b_def b1_def node_pipe_def pipe_node_def fs_flags)
  have ok_b: "refs_ok ?ty b M"
    by (rule refs_ok_extends [OF ok]) (auto simp: extends_def b_def q_def)
  have old: "g < q" "f_node (k_files s g) < q" "file_pipe s g \<noteq> Some q" if "g \<in># M" for g
  proof -
    from ok that have g: "good_file ty s g" by (simp add: refs_ok_def)
    from good_fileD [OF g] show "g < q" "f_node (k_files s g) < q" "file_pipe s g \<noteq> Some q" by (auto simp: q_def)
  qed
  have good: "good_node ?ty b (Suc q)"
    by (simp add: good_node_def obj_def b_def pipe_node_def fs_flags empty_pipe_inv)
  have z: "ends_of b M q w = 0" for w
    using old good_file_extends(2) [of ty s _ b ty] ok unfolding ends_of_zero
    by (auto simp: refs_ok_def extends_def b_def q_def)
  have add1: "adds_file b (q + 2) (end_file q O_RDONLY) b1"
    by (auto simp: adds_file_def end_file_def np) (auto simp: b_def b1_def empty_pipe_def o_flags end_file_def)
  have add2: "adds_file b1 (q + 3) (end_file q O_WRONLY) s4"
    by (auto simp: adds_file_def end_file_def np s4) (auto simp: b_def b1_def empty_pipe_def o_flags q_def end_file_def)
  have cnt: "pipe_counted b M (Suc q)" using z by (simp add: pipe_counted_def np) (simp add: b_def empty_pipe_def)
  have nb: "f_node (k_files b g) \<noteq> Suc q" if "g \<in># M" for g using old(2) [OF that] by (simp add: b_def)
  have impl: "n_impl (k_nodes b (Suc q)) = ImplPipe q" by (simp add: b_def pipe_node_def)
  have ok1: "refs_ok ?ty1 b1 (add_mset (q + 2) M)"
    using bound nb by (intro new_file_ok [OF ok_b add1]) (auto simp: end_file_def good cnt impl)
  have "pipe_counted b1 (add_mset (q + 2) M) (Suc q)"
    using bound old(1) by (intro adds_file_counted [OF add1 _ _ cnt]) (auto simp: b_def q_def intro: less_trans)
  moreover have "good_node ?ty1 b1 (Suc q)"
    by (simp add: good_node_def obj_def b_def b1_def pipe_node_def fs_flags empty_pipe_inv)
  ultimately show ?thesis
    unfolding q_def [symmetric] using bound
    by (intro new_file_ok [OF ok1 add2]) (auto simp: end_file_def b_def b1_def pipe_node_def owned_def fs_flags)
qed

lemma tables_ok_cong:
  "tables_ok T s \<Longrightarrow> k_tasks s' = k_tasks s \<Longrightarrow> k_current s' = k_current s \<Longrightarrow> tables_ok T s'"
  by (simp add: tables_ok_def)

lemma tables_ok_set_fd [simp]: "tables_ok T (set_fd t i v s) = tables_ok T s"
  by (auto simp: tables_ok_def set_fd_def)

lemma pipe_call_inv [kinv]:
  assumes inv: "fd_inv T s"
  shows "fd_inv T (snd (pipe s))"
proof -
  obtain s4 where call: "pipe s = (case two_free s4 of None \<Rightarrow> (None, s4)
       | Some (r, w) \<Rightarrow> (Some (int r, int w), set_fd (k_current s) w (Some (k_brk s + 3)) (set_fd (k_current s) r (Some (k_brk s + 2)) s4)))"
    and s4: "k_tasks s4 = k_tasks s" "k_current s4 = k_current s" "same_roots s s4"
    and objs: "k_brk s4 = k_brk s + 4" "k_bad_free s4 = k_bad_free s"
      "k_files s4 = (k_files s)(k_brk s + 2 := end_file (k_brk s) O_RDONLY, k_brk s + 3 := end_file (k_brk s) O_WRONLY)"
      "k_nodes s4 = (k_nodes s)(Suc (k_brk s) := pipe_node (k_brk s))"
      "k_live s4 = (k_live s)(k_brk s := True, Suc (k_brk s) := True, k_brk s + 2 := True, k_brk s + 3 := True)"
      "k_pipes s4 = (k_pipes s)(k_brk s := empty_pipe 1 1)"
    by (rule pipe_objects)
  from inv obtain ty where tab: "tables_ok T s" and ok: "refs_ok ty s (open_files T s)" and r: "\<forall>n\<in>roots s. root_node ty s n"
    by (rule fd_invE)
  let ?M = "open_files T s"
  let ?ty = "ty(k_brk s := KPipe, Suc (k_brk s) := KNode, k_brk s + 2 := KFile, k_brk s + 3 := KFile)"
  have refs: "refs_ok ?ty s4 (add_mset (k_brk s + 3) (add_mset (k_brk s + 2) ?M))"
    by (rule pipe_refs [OF ok size_bound(2) [OF tab] objs])
  have roots4: "\<forall>n\<in>roots s4. root_node ?ty s4 n"
    using r by (auto simp: same_roots_roots [OF s4(3)] root_node_def obj_def objs)
  have tab4: "tables_ok T s4" using tab s4(1,2) by (rule tables_ok_cong)
  have open4: "open_files T s4 = ?M" by (rule open_files_cong) (simp add: s4)
  show ?thesis
  proof (cases "two_free s4")
    case None
    have "refs_ok ?ty s4 ?M" by (rule refs_ok_extends [OF ok]) (auto simp: extends_def objs)
    with None call tab4 roots4 open4 show ?thesis by (auto simp: fd_inv_def)
  next
    case (Some rw)
    then obtain a b where ab: "two_free s4 = Some (a, b)" by (cases rw) auto
    note slots = two_freeD [OF ab, unfolded s4]
    let ?s5 = "set_fd (k_current s) a (Some (k_brk s + 2)) s4"
    let ?s6 = "set_fd (k_current s) b (Some (k_brk s + 3)) ?s5"
    have fin: "finite T" "k_current s \<in> T" "length (t_fd_table (k_tasks s (k_current s))) = MAX_FD"
      using tab by (auto simp: tables_ok_def)
    have "open_files T ?s5 = add_mset (k_brk s + 2) ?M"
      using open_files_set_fd(1) [OF fin(1,2), of a s4] slots fin(3) by (simp add: s4 open4)
    then have "open_files T ?s6 = add_mset (k_brk s + 3) (add_mset (k_brk s + 2) ?M)"
      using open_files_set_fd(1) [OF fin(1,2), of b ?s5] slots fin(3) by (simp add: s4 set_fd_def)
    moreover have "refs_ok ?ty ?s6 X = refs_ok ?ty s4 X" for X by (rule refs_ok_cong) simp_all
    moreover have "\<forall>n\<in>roots ?s6. root_node ?ty ?s6 n"
      using roots4 same_roots_roots [of s4 ?s6] by (auto intro: root_node_cong [of _ _ s4])
    ultimately show ?thesis using ab call tab4 refs by (auto simp: fd_inv_def)
  qed
qed

end
