(* ===== verification/OpenSafe.thy ===== *)
theory OpenSafe
  imports FdSafe
begin

text \<open>
  Opening, reading and writing keep the invariant of theory FdSafe. Path resolution only adds
  nodes, frees only nodes it added itself, and ends at a node the kernel holds on to or at a new one.
\<close>

section \<open>Path resolution\<close>

definition vfs_step :: "kst \<Rightarrow> kst \<Rightarrow> bool" where
  "vfs_step s s' \<longleftrightarrow> extends s s' \<and> k_tasks s' = k_tasks s \<and> k_current s' = k_current s \<and> same_roots s s' \<and>
     k_files s' = k_files s \<and> k_pipes s' = k_pipes s"

definition fresh :: "kst \<Rightarrow> kst \<Rightarrow> ptr \<Rightarrow> bool" where
  "fresh s s' n \<longleftrightarrow> k_brk s \<le> n \<and> n < k_brk s' \<and> k_live s' n \<and> owned (k_nodes s' n) \<and>
     (case n_impl (k_nodes s' n) of NoImpl \<Rightarrow> True | ImplNum v \<Rightarrow> True | _ \<Rightarrow> False)"

definition found :: "kst \<Rightarrow> kst \<Rightarrow> ptr \<Rightarrow> bool" where
  "found s s' n \<longleftrightarrow> n \<in> roots s \<or> fresh s s' n"

definition roots_kept :: "kst \<Rightarrow> bool" where
  "roots_kept s \<longleftrightarrow> (\<forall>n\<in>roots s. n < k_brk s \<and> \<not> is_transient n s)"

lemma vfs_step_refl [simp]: "vfs_step s s"
  by (simp add: vfs_step_def)

lemma vfs_step_trans: "vfs_step s s1 \<Longrightarrow> vfs_step s1 s2 \<Longrightarrow> vfs_step s s2"
  by (auto simp: vfs_step_def same_roots_def intro: extends_trans)

lemma vfs_step_roots: "vfs_step s s' \<Longrightarrow> roots s' = roots s"
  by (simp add: vfs_step_def same_roots_roots)

lemma vfs_step_kept: "vfs_step s s' \<Longrightarrow> roots_kept s \<Longrightarrow> roots_kept s'"
  using vfs_step_roots [of s s']
  by (auto simp: roots_kept_def is_transient_def vfs_step_def extends_def intro: less_le_trans)

lemma vfs_step_blk [simp]: "vfs_step s (s'\<lparr>k_blk := b\<rparr>) = vfs_step s s'"
  by (simp add: vfs_step_def extends_def same_roots_def)

lemma fresh_later: "fresh s1 s2 n \<Longrightarrow> k_brk s \<le> k_brk s1 \<Longrightarrow> fresh s s2 n"
  by (auto simp: fresh_def)

lemma found_later: "found s1 s2 n \<Longrightarrow> vfs_step s s1 \<Longrightarrow> found s s2 n"
  using vfs_step_roots [of s s1] by (auto simp: found_def intro: fresh_later simp: vfs_step_def extends_def)

lemma found_step: "found s s1 n \<Longrightarrow> vfs_step s1 s2 \<Longrightarrow> found s s2 n"
  by (auto simp: found_def fresh_def vfs_step_def extends_def intro: less_le_trans)

text \<open>Freeing a node that was added leaves the old objects and the other nodes found.\<close>

lemma free_fresh:
  assumes "vfs_step s s1" "k_brk s \<le> c" "k_live s1 c"
  shows "vfs_step s (kfree c s1)" "found s s1 n \<Longrightarrow> n \<noteq> c \<Longrightarrow> found s (kfree c s1) n"
  using assms by (auto simp: vfs_step_def extends_def found_def fresh_def)

lemma transient_fresh: "found s s1 c \<Longrightarrow> is_transient c s1 \<Longrightarrow> roots_kept s1 \<Longrightarrow> vfs_step s s1 \<Longrightarrow> k_brk s \<le> c \<and> k_live s1 c"
  by (auto simp: found_def roots_kept_def fresh_def vfs_step_roots)

lemma new_node_step:
  assumes "new_node nd s = (p, s')"
  shows "vfs_step s s'" "p = k_brk s" "k_nodes s' p = nd" "k_live s' p" "k_brk s' = Suc p"
  using assms by (auto simp: new_node_def kalloc_def vfs_step_def extends_def same_roots_def set_node_def)

lemma new_node_fresh:
  assumes "new_node nd s = (p, s')" "owned nd" "case n_impl nd of NoImpl \<Rightarrow> True | ImplNum v \<Rightarrow> True | _ \<Rightarrow> False"
  shows "fresh s s' p"
  using new_node_step [OF assms(1)] assms(2,3) by (simp add: fresh_def)

lemma fat_finddir_cases:
  assumes "fat32_vfs_finddir node name s = Ret (r, s')"
  obtains "r = None" "s' = s"
  | e where "r = Some (k_brk s)" "new_node (fat_child node name e s) s = (k_brk s, s')"
proof -
  from assms obtain d where "(case d of
        DirHit _ i b \<Rightarrow> if 128 \<le> length name then Fault ''name of a node''
          else let (p, s1) = kalloc s in Ret (Some p, set_node p (\<lambda>_. fat_child node name (entry b i) s) s1)
      | _ \<Rightarrow> Ret (None, s)) = (Ret (r, s') :: (kst, ptr option \<times> kst) outcome)"
    by (auto simp: fat32_vfs_finddir_def Let_def obind_Ret_iff)
  with that show thesis by (cases d) (auto simp: new_node_def kalloc_def split: if_splits)
qed

lemma finddir_found:
  assumes "finddir_fs node name s = Ret (r, s')"
  shows "vfs_step s s'" "r = Some n \<Longrightarrow> found s s' n"
proof -
  have "vfs_step s s' \<and> (\<forall>n. r = Some n \<longrightarrow> found s s' n)"
  proof (cases "is_directory node s \<and> n_driver (k_nodes s node) = DriverFat")
    case True
    with assms have "fat32_vfs_finddir node name s = Ret (r, s')" by (simp add: finddir_fs_def)
    then show ?thesis
    proof (cases rule: fat_finddir_cases)
      case (2 e)
      have "owned (fat_child node name e s)" by (simp add: owned_def fat_child_def fs_flags)
      with new_node_fresh [OF 2(2)] new_node_step [OF 2(2)] 2(1) show ?thesis by (simp add: found_def fat_child_def)
    qed simp
  next
    case False
    with assms have "s' = s" and "\<forall>n. r = Some n \<longrightarrow> n \<in> roots s"
      by (auto simp: finddir_fs_def initrd_finddir_def roots_def find_Some_iff split: if_splits driver.splits)
    then show ?thesis by (simp add: found_def)
  qed
  then show "vfs_step s s'" "r = Some n \<Longrightarrow> found s s' n" by auto
qed

lemma walk_found:
  assumes "walk_path root cur ts s1 = Ret (r, s')" "vfs_step s s1" "found s s1 cur" "roots_kept s"
  shows "vfs_step s s' \<and> (\<forall>n. r = Some n \<longrightarrow> found s s' n)"
  using assms
proof (induction ts arbitrary: cur s1)
  case (Cons t ts)
  show ?case
  proof (cases "t = []")
    case True
    with Cons.IH [OF _ Cons.prems(2-4)] Cons.prems(1) show ?thesis by simp
  next
    case False
    from Cons.prems(1) False obtain nxt s2 where f: "finddir_fs cur t s1 = Ret (nxt, s2)"
      and rest: "(let s3 = if cur \<noteq> root \<and> is_transient cur s2 then kfree cur s2 else s2
         in case nxt of None \<Rightarrow> Ret (None, s3) | Some n \<Rightarrow> walk_path root n ts s3) = Ret (r, s')"
      by (auto simp: obind_Ret_iff)
    let ?s3 = "if cur \<noteq> root \<and> is_transient cur s2 then kfree cur s2 else s2"
    note fd = finddir_found [OF f]
    have s2: "vfs_step s s2" using Cons.prems(2) fd(1) by (rule vfs_step_trans)
    have cur: "found s s2 cur" using Cons.prems(3) fd(1) by (rule found_step)
    have kept: "roots_kept s2" using s2 Cons.prems(4) by (rule vfs_step_kept)
    have s3: "vfs_step s ?s3"
      using s2 free_fresh(1) [OF s2] transient_fresh [OF cur _ kept s2] by auto
    have n: "found s ?s3 n" if "nxt = Some n" for n
    proof -
      have fn: "found s1 s2 n" using fd(2) that by simp
      have "n \<noteq> cur" if "is_transient cur s2"
        using fn transient_fresh [OF cur that kept s2] Cons.prems(3) kept that vfs_step_roots [OF fd(1)] vfs_step_roots [OF s2]
        by (auto simp: found_def fresh_def roots_kept_def)
      then show ?thesis
        using found_later [OF fn Cons.prems(2)] free_fresh(2) [OF s2] transient_fresh [OF cur _ kept s2] by auto
    qed
    show ?thesis
      using rest s3 n Cons.IH [OF _ s3 _ Cons.prems(4)] by (cases nxt) (auto simp: Let_def)
  qed
qed auto

lemma find_mount_root: "find_mount ms clean = Some (m, rest) \<Longrightarrow> m \<in> vm_root ` set ms"
  by (induction ms clean rule: find_mount.induct) (auto simp: Let_def split: if_splits)

lemma resolve_found:
  assumes "vfs_resolve_path path s = Ret (r, s')" "roots_kept s"
  shows "vfs_step s s'" "r = Some n \<Longrightarrow> found s s' n"
proof -
  have walk: "vfs_step s s' \<and> (\<forall>n. r = Some n \<longrightarrow> found s s' n)"
    if "walk_path m m ts s = Ret (r, s')" "m \<in> roots s" for m ts
    using walk_found [OF that(1) vfs_step_refl _ assms(2)] that(2) by (simp add: found_def)
  have "vfs_step s s' \<and> (\<forall>n. r = Some n \<longrightarrow> found s s' n)"
  proof (cases "k_fs_root s")
    case None
    with assms(1) show ?thesis by (auto simp: vfs_resolve_path_def)
  next
    case (Some root)
    then have root: "root \<in> roots s" by (simp add: roots_def)
    have mount: "m \<in> roots s" if "find_mount (k_mounts s) clean = Some (m, rest)" for clean m rest
      using find_mount_root [OF that] by (auto simp: roots_def)
    from assms(1) Some obtain clean where
      c: "(if clean = [47] then Ret (Some root, s)
           else case find_mount (k_mounts s) clean of
               Some (m, None) \<Rightarrow> Ret (Some m, s)
             | Some (m, Some rest) \<Rightarrow> walk_path m m (parts rest) s
             | None \<Rightarrow> walk_path root root (parts (if clean \<noteq> [] \<and> hd clean = 47 then tl clean else clean)) s)
         = (Ret (r, s') :: (kst, ptr option \<times> kst) outcome)"
      by (auto simp: vfs_resolve_path_def obind_Ret_iff)
    show ?thesis
    proof (cases "clean = [47]")
      case True
      with c root show ?thesis by (auto simp: found_def)
    next
      case False
      with c walk [OF _ root] walk [OF _ mount] mount show ?thesis
        by (cases "find_mount (k_mounts s) clean") (auto simp: found_def split: option.splits)
    qed
  qed
  then show "vfs_step s s'" "r = Some n \<Longrightarrow> found s s' n" by auto
qed

lemma create_fs_step:
  assumes "create_fs node name s = Ret s'"
  shows "vfs_step s s'"
proof (cases "is_directory node s \<and> n_driver (k_nodes s node) = DriverFat")
  case True
  let ?c = "ctx_of node s" and ?i = "n_inode (k_nodes s node)"
  from True assms obtain r :: "int + u8 list" where
    "(case r of Inr _ \<Rightarrow> Ret s
      | Inl _ \<Rightarrow> obind (ends (fat32_add_dirent (ctx_dev ?c) (ctx_info ?c) ?i name 0 0 0x20 (k_blk s)))
          (\<lambda>(_, b). Ret (s\<lparr>k_blk := b\<rparr>))) = (Ret s' :: (kst, kst) outcome)"
    unfolding create_fs_def fat32_vfs_create_def Let_def if_P [OF True] obind_Ret_iff by blast
  then show ?thesis by (cases r) (auto simp: obind_Ret_iff)
next
  case False
  with assms show ?thesis by (auto simp: create_fs_def)
qed

lemma drop_transient_step:
  assumes "vfs_step s s1" "roots_kept s" "\<And>p. parent = Some p \<Longrightarrow> found s s1 p"
  shows "vfs_step s (drop_transient parent s1)"
    "found s s1 n \<Longrightarrow> parent \<noteq> Some n \<or> \<not> is_transient n s1 \<Longrightarrow> found s (drop_transient parent s1) n"
proof -
  have kept: "roots_kept s1" using assms(1,2) by (rule vfs_step_kept)
  have "k_brk s \<le> p \<and> k_live s1 p" if "parent = Some p" "is_transient p s1" for p
    using transient_fresh [OF assms(3) [OF that(1)] that(2) kept assms(1)] .
  then show "vfs_step s (drop_transient parent s1)"
    "found s s1 n \<Longrightarrow> parent \<noteq> Some n \<or> \<not> is_transient n s1 \<Longrightarrow> found s (drop_transient parent s1) n"
    using free_fresh [OF assms(1)] assms(1) by (auto simp: drop_transient_def split: option.split)
qed

text \<open>The node made in memory when no file system can create the file.\<close>

lemma mint_mock_found:
  assumes "mint_mock basename s = (p, s')"
  shows "vfs_step s s'" "found s s' p"
proof -
  from assms have new: "new_node \<lparr>n_name = basename, n_mask = 0, n_flags = FS_FILE OR FS_TRANSIENT OR FS_IMPL_HEAP, n_inode = 0,
       n_length = 0, n_impl = NoImpl, n_driver = DriverMock\<rparr> s = (p, s')" by (simp add: mint_mock_def)
  show "vfs_step s s'" by (rule new_node_step [OF new])
  show "found s s' p" using new_node_fresh [OF new] by (simp add: found_def owned_def fs_flags)
qed

lemma create_path_found:
  assumes "create_path name s = Ret (n, s')" "roots_kept s"
  shows "vfs_step s s' \<and> found s s' n"
proof -
  from assms(1) obtain pp base parent s1 node s2 where
    par: "vfs_resolve_path pp s = Ret (parent, s1)"
    and mk: "(case parent of None \<Rightarrow> Ret (None, s1)
       | Some p \<Rightarrow> if n_driver (k_nodes s1 p) = DriverFat
           then obind (create_fs p base s1) (\<lambda>s2. vfs_resolve_path name s2) else Ret (None, s1)) = Ret (node, s2)"
    and fin: "(case node of Some n \<Rightarrow> Ret (n, drop_transient parent s2)
       | None \<Rightarrow> Ret (mint_mock base (drop_transient parent s2))) = (Ret (n, s') :: (kst, ptr \<times> kst) outcome)"
    by (auto simp: create_path_def obind_Ret_iff Let_def)
  note par = resolve_found [OF par assms(2)]
  have kept1: "roots_kept s1" using par(1) assms(2) by (rule vfs_step_kept)
  have s12: "vfs_step s1 s2 \<and> (\<forall>m. node = Some m \<longrightarrow> found s1 s2 m)"
  proof (cases "node = None \<and> s2 = s1")
    case False
    with mk obtain p s1' where c: "create_fs p base s1 = Ret s1'" and r: "vfs_resolve_path name s1' = Ret (node, s2)"
      by (auto simp: obind_Ret_iff split: option.splits if_splits)
    from c have st: "vfs_step s1 s1'" by (rule create_fs_step)
    with resolve_found [OF r vfs_step_kept [OF st kept1]] show ?thesis by (auto intro: vfs_step_trans found_later)
  qed simp
  have s2: "vfs_step s s2" using par(1) s12 by (blast intro: vfs_step_trans)
  have p2: "found s s2 p" if "parent = Some p" for p using par(2) [OF that] s12 by (blast intro: found_step)
  have drop: "vfs_step s (drop_transient parent s2)"
    "\<And>m. found s s2 m \<Longrightarrow> parent \<noteq> Some m \<or> \<not> is_transient m s2 \<Longrightarrow> found s (drop_transient parent s2) m"
    using drop_transient_step [OF s2 assms(2) p2] by blast+
  show ?thesis
  proof (cases node)
    case None
    with fin have "mint_mock base (drop_transient parent s2) = (n, s')" by simp
    from mint_mock_found [OF this] drop(1) show ?thesis by (blast intro: vfs_step_trans found_later)
  next
    case (Some m)
    with s12 have m: "found s1 s2 m" by simp
    have "parent \<noteq> Some m \<or> \<not> is_transient m s2"
      using m par(2) [of m] kept1 vfs_step_kept [OF s2 assms(2)] vfs_step_roots [OF par(1)] vfs_step_roots [OF s2]
      by (auto simp: found_def fresh_def roots_kept_def)
    with drop(2) [OF found_later [OF m par(1)]] drop(1) fin Some show ?thesis by auto
  qed
qed

section \<open>Opening\<close>

text \<open>A node a new file can be put on.\<close>

definition openable :: "ptr set \<Rightarrow> kst \<Rightarrow> ptr \<Rightarrow> bool" where
  "openable T s n \<longleftrightarrow> tables_ok T s \<and>
     (case n_impl (k_nodes s n) of NoImpl \<Rightarrow> True | ImplNum v \<Rightarrow> True | _ \<Rightarrow> False) \<and>
     (owned (k_nodes s n) \<longrightarrow> (\<forall>g\<in>#open_files T s. f_node (k_files s g) \<noteq> n)) \<and>
     (\<exists>ty. refs_ok ty s (open_files T s) \<and> (\<forall>r\<in>roots s. root_node ty s r) \<and> good_node ty s n)"

lemma fd_inv_kept: "fd_inv T s \<Longrightarrow> roots_kept s"
  by (auto simp: fd_inv_def roots_kept_def root_node_def obj_def is_transient_def)

lemma fd_inv_step:
  assumes inv: "fd_inv T s" and st: "vfs_step s s'"
  shows "fd_inv T s'"
proof -
  from inv obtain ty where "tables_ok T s" and ok: "refs_ok ty s (open_files T s)" and r: "\<forall>n\<in>roots s. root_node ty s n"
    by (rule fd_invE)
  from st have ext: "extends s s'" and eq: "k_tasks s' = k_tasks s" "k_current s' = k_current s" "same_roots s s'"
    by (auto simp: vfs_step_def)
  have "open_files T s' = open_files T s" by (rule open_files_cong) (simp add: eq)
  with refs_ok_extends [OF ok ext] have "refs_ok ty s' (open_files T s')" by simp
  moreover have "tables_ok T s'" using \<open>tables_ok T s\<close> eq(1,2) by (rule tables_ok_cong)
  moreover have "\<forall>n\<in>roots s'. root_node ty s' n"
    using r root_extends [OF _ ext, of ty] by (simp add: same_roots_roots [OF eq(3)])
  ultimately show ?thesis by (auto simp: fd_inv_def)
qed

lemma openable_found:
  assumes inv: "fd_inv T s" and st: "vfs_step s s'" and n: "found s s' n"
  shows "openable T s' n"
proof -
  from inv obtain ty where tab: "tables_ok T s" and ok: "refs_ok ty s (open_files T s)" and r: "\<forall>n\<in>roots s. root_node ty s n"
    by (rule fd_invE)
  from st have ext: "extends s s'" and eq: "k_tasks s' = k_tasks s" "k_current s' = k_current s" "same_roots s s'" "k_files s' = k_files s"
    by (auto simp: vfs_step_def)
  let ?ty = "if n \<in> roots s then ty else ty(n := KNode)"
  have ty: "?ty x = ty x" if "x < k_brk s" for x using n that by (auto simp: found_def fresh_def)
  have op: "open_files T s' = open_files T s" by (rule open_files_cong) (simp add: eq)
  have refs: "refs_ok ?ty s' (open_files T s')" using refs_ok_extends [OF ok ext ty] op by simp
  have rt: "\<forall>n\<in>roots s'. root_node ?ty s' n"
    using r root_extends [OF _ ext ty] by (simp add: same_roots_roots [OF eq(3)])
  have used: "f_node (k_files s g) < k_brk s" if "g \<in># open_files T s" for g
    using ok good_fileD(2) [of ty s g] that by (auto simp: refs_ok_def)
  show ?thesis
  proof (cases "n \<in> roots s")
    case True
    with rt have "root_node ty s' n" by (simp add: same_roots_roots [OF eq(3)])
    then show ?thesis
      using tables_ok_cong [OF tab eq(1,2)] refs rt True
      by (auto simp: openable_def root_node_def good_node_def owned_def)
  next
    case False
    with n have "fresh s s' n" by (simp add: found_def)
    moreover from this have "good_node ?ty s' n" using False
      by (auto simp: fresh_def good_node_def obj_def owned_def split: node_impl.splits)
    ultimately show ?thesis
      using tables_ok_cong [OF tab eq(1,2)] refs rt used
      by (fastforce simp: openable_def fresh_def op eq)
  qed
qed

lemma openable_truncate:
  assumes "openable T s n" "truncate_node flags n s = Ret s'"
  shows "openable T s' n"
proof (cases "s' = s")
  case False
  have eq: "s' = set_node n (\<lambda>nd. nd\<lparr>n_length := 0\<rparr>) s"
    using assms False by (auto simp: truncate_node_def openable_def obind_Ret_iff split: if_splits node_impl.splits)
  have shape: "same_shape s s'" "k_live s' = k_live s" by (auto simp: same_shape_def eq)
  have bad: "k_bad_free s' = k_bad_free s" by (simp add: eq)
  have keep: "k_tasks s' = k_tasks s" "k_current s' = k_current s" "k_files s' = k_files s" "k_pipes s' = k_pipes s"
    by (simp_all add: eq)
  have op: "open_files T s' = open_files T s" by (rule open_files_cong) (simp add: keep)
  from assms(1) obtain ty where ok: "refs_ok ty s (open_files T s)" and r: "\<forall>r\<in>roots s. root_node ty s r" and n: "good_node ty s n"
    by (auto simp: openable_def)
  have "refs_ok ty s' (open_files T s')" unfolding op by (rule refs_ok_shape [OF shape bad _ _ ok]) (simp_all add: keep)
  moreover have "\<forall>r\<in>roots s'. root_node ty s' r"
    using r root_node_shape [OF shape] same_roots_roots [of s s'] by (simp add: eq)
  moreover have "good_node ty s' n" using n by (auto simp: good_node_def obj_def eq split: node_impl.split)
  moreover have "tables_ok T s'" using assms(1) tables_ok_cong [of T s s'] by (simp add: openable_def keep)
  ultimately show ?thesis
    using assms(1) unfolding openable_def op keep by (auto simp: owned_def eq)
qed (use assms in simp)

lemma install_inv:
  assumes "openable T s n"
  shows "fd_inv T (snd (install n flags s))"
proof -
  from assms obtain ty where tab: "tables_ok T s" and ok: "refs_ok ty s (open_files T s)"
    and r: "\<forall>r\<in>roots s. root_node ty s r" and n: "good_node ty s n"
    and own: "owned (k_nodes s n) \<Longrightarrow> \<forall>g\<in>#open_files T s. f_node (k_files s g) \<noteq> n"
    and impl: "case n_impl (k_nodes s n) of NoImpl \<Rightarrow> True | ImplNum v \<Rightarrow> True | _ \<Rightarrow> False"
    by (auto simp: openable_def)
  show ?thesis
  proof (cases "free_fd s")
    case None
    with tab ok r show ?thesis by (auto simp: install_def fd_inv_def)
  next
    case (Some i)
    let ?F = "\<lparr>f_node = n, f_offset = 0, f_flags = flags, f_refcount = 1\<rparr>" and ?f = "k_brk s"
    define s1 where "s1 = snd (file_create n flags s)"
    have call: "snd (install n flags s) = set_fd (k_current s) i (Some ?f) s1"
      using Some by (simp add: install_def s1_def file_create_def kalloc_def)
    have np: "node_pipe n s = None" using impl by (simp add: node_pipe_def split: node_impl.splits)
    have add: "adds_file s ?f ?F s1"
      by (simp add: adds_file_def np s1_def file_create_def kalloc_def)
    have "refs_ok (ty(?f := KFile)) s1 (add_mset ?f (open_files T s))"
      using n own impl np size_bound(1) [OF tab] by (intro new_file_ok [OF ok add]) (auto simp: pipe_counted_def)
    moreover have keep: "k_tasks s1 = k_tasks s" "k_current s1 = k_current s" "same_roots s s1" "extends s s1"
      by (simp_all add: s1_def file_create_def kalloc_def same_roots_def extends_def set_file_def)
    moreover have "open_files T (snd (install n flags s)) = add_mset ?f (open_files T s)"
      using open_files_set_fd(1) [of T "k_current s" i s1 ?f] free_fdD [OF Some] tab keep(1) open_files_cong [of s1 s T]
      by (simp add: call tables_ok_def)
    ultimately have "refs_ok (ty(?f := KFile)) (snd (install n flags s)) (open_files T (snd (install n flags s)))"
      using refs_ok_cong [of "snd (install n flags s)" s1] by (simp add: call)
    moreover have "tables_ok T (snd (install n flags s))"
      using tables_ok_cong [OF tab keep(1,2)] by (simp add: call)
    moreover have "\<forall>m\<in>roots s. root_node (ty(?f := KFile)) s1 m"
      using r by (auto intro!: root_extends [OF _ keep(4), of ty])
    then have "\<forall>m\<in>roots s. root_node (ty(?f := KFile)) (snd (install n flags s)) m"
      unfolding call using root_node_cong [of "set_fd (k_current s) i (Some ?f) s1" _ s1] by simp
    moreover have "roots (snd (install n flags s)) = roots s"
      by (rule same_roots_roots) (simp add: call keep)
    ultimately show ?thesis by (auto simp: fd_inv_def)
  qed
qed

lemma open_inv [kinv]:
  assumes inv: "fd_inv T s" and call: "open_fd name flags s = Ret (r, s')"
  shows "fd_inv T s'"
proof -
  from call obtain fnd s1 node s2 where
    res: "vfs_resolve_path name s = Ret (fnd, s1)"
    and mk: "(case fnd of Some n \<Rightarrow> Ret (Some n, s1)
       | None \<Rightarrow> if flags AND O_CREAT \<noteq> 0 then obind (create_path name s1) (\<lambda>(n, s2). Ret (Some n, s2))
                 else Ret (None, s1)) = (Ret (node, s2) :: (kst, ptr option \<times> kst) outcome)"
    and fin: "(case node of None \<Rightarrow> Ret (- 1, s2)
       | Some n \<Rightarrow> obind (truncate_node flags n s2) (\<lambda>s3. Ret (install n flags s3))) = Ret (r, s')"
    by (auto simp: open_fd_def obind_Ret_iff)
  note kept = fd_inv_kept [OF inv]
  note res = resolve_found [OF res kept]
  have s2: "vfs_step s s2 \<and> (\<forall>n. node = Some n \<longrightarrow> found s s2 n)"
    using mk res create_path_found [of name s1] vfs_step_kept [OF res(1) kept]
    by (auto simp: obind_Ret_iff split: option.splits if_splits intro: vfs_step_trans found_later)
  show ?thesis
  proof (cases node)
    case None
    with fin have "s' = s2" by simp
    with fd_inv_step [OF inv] s2 show ?thesis by simp
  next
    case (Some n)
    with fin obtain s3 where "truncate_node flags n s2 = Ret s3" "s' = snd (install n flags s3)"
      by (auto simp: obind_Ret_iff)
    with install_inv [OF openable_truncate] openable_found [OF inv] s2 Some show ?thesis by blast
  qed
qed

end
