(* ===== verification/FdCalls.thy ===== *)
theory FdCalls
  imports OpenSafe
begin

text \<open>
  Reading and writing through descriptors, the step relation of all descriptor system calls, and the
  main property: starting from a state in which the counts are right, they stay right.
\<close>

section \<open>Pipes\<close>

lemma pipe_store_frame [simp]:
  "k_files (pipe_store p ps s) = k_files s" "k_bad_free (pipe_store p ps s) = k_bad_free s" "k_nodes (pipe_store p ps s) = k_nodes s" "k_live (pipe_store p ps s) = k_live s"
  "k_brk (pipe_store p ps s) = k_brk s" "k_current (pipe_store p ps s) = k_current s"
  "k_pipes (pipe_store p ps s) = (k_pipes s)(p := ps_pipe ps)"
  "t_fd_table (k_tasks (pipe_store p ps s) t) = t_fd_table (k_tasks s t)" "same_roots s (pipe_store p ps s)"
  by (simp_all add: pipe_store_def same_roots_def)

text \<open>A change of a pipe that keeps its counts and its ring.\<close>

definition same_ends :: "pipe_t \<Rightarrow> pipe_t \<Rightarrow> bool" where
  "same_ends p p' \<longleftrightarrow> (pipe_inv p \<longrightarrow> pipe_inv p') \<and> p_readers p' = p_readers p \<and> p_writers p' = p_writers p"

lemma pipe_store_inv:
  assumes "fd_inv T s" "same_ends (k_pipes s p) (ps_pipe ps)"
  shows "fd_inv T (pipe_store p ps s)"
  using assms(2) by (intro fd_inv_shape [OF assms(1)]) (auto simp: same_shape_def same_ends_def)

lemma read_loop_ends: "pipe_read_loop n p = (bs, p') \<Longrightarrow> p_readers p' = p_readers p \<and> p_writers p' = p_writers p"
  by (induction n p arbitrary: bs p' rule: pipe_read_loop.induct) (auto simp: pipe_take_def split: if_splits prod.splits)

lemma read_pass_ends:
  "pipe_read_pass t n v = Finished bs ps \<Longrightarrow> same_ends (ps_pipe v) (ps_pipe ps)"
  "pipe_read_pass t n v = Blocked ps \<Longrightarrow> same_ends (ps_pipe v) (ps_pipe ps)"
proof -
  obtain cs p' where l: "pipe_read_loop n (ps_pipe v) = (cs, p')" by (cases "pipe_read_loop n (ps_pipe v)")
  have "same_ends (ps_pipe v) p'"
    using read_loop_ends [OF l] read_loop_contents [OF _ l] by (auto simp: same_ends_def)
  then show "pipe_read_pass t n v = Finished bs ps \<Longrightarrow> same_ends (ps_pipe v) (ps_pipe ps)"
    "pipe_read_pass t n v = Blocked ps \<Longrightarrow> same_ends (ps_pipe v) (ps_pipe ps)"
    using l by (auto simp: pipe_read_pass_def Let_def same_ends_def split: if_splits)
qed

lemma pipe_write_ends: "pipe_write data v = Ret (r, ps) \<Longrightarrow> same_ends (ps_pipe v) (ps_pipe ps)"
proof -
  assume call: "pipe_write data v = Ret (r, ps)"
  obtain p' w where l: "pipe_write_loop data (ps_pipe v) 0 = (p', w)" by (cases "pipe_write_loop data (ps_pipe v) 0")
  have "same_ends (ps_pipe v) p'"
    using write_loop_frame [OF l] write_loop_contents(1) [OF _ l] by (auto simp: same_ends_def)
  with call l show ?thesis by (auto simp: pipe_write_def Let_def same_ends_def split: if_splits)
qed

lemma on_part_Ret: "on_part put m = Ret x \<longleftrightarrow> m = Ret x"
  by (cases m) auto

text \<open>What other tasks may do while a reader is halted: anything that keeps the invariant.\<close>

definition keeps :: "ptr set \<Rightarrow> (kst \<Rightarrow> kst) \<Rightarrow> bool" where
  "keeps T e \<longleftrightarrow> (\<forall>s. fd_inv T s \<longrightarrow> fd_inv T (e s))"

lemma pipe_read_at_inv:
  assumes "fd_inv T s" "pipe_read_at p n es s = Ret (bs, s')" "\<forall>e\<in>set es. keeps T e"
  shows "fd_inv T s'"
  using assms
proof (induction es arbitrary: s)
  case Nil
  then show ?case using pipe_store_inv [OF Nil.prems(1), of p] read_pass_ends [of "k_current s" n "pipe_view p s"]
    by (auto split: read_pass.splits)
next
  case (Cons e es)
  show ?case
  proof (cases "pipe_read_pass (k_current s) n (pipe_view p s)")
    case (Finished cs ps)
    with Cons.prems(1,2) pipe_store_inv [OF Cons.prems(1), of p] read_pass_ends(1) [OF Finished] show ?thesis by auto
  next
    case (Blocked ps)
    from pipe_store_inv [OF Cons.prems(1), of p ps] read_pass_ends(2) [OF Blocked] have "fd_inv T (pipe_store p ps s)" by simp
    then have "fd_inv T (e (pipe_store p ps s))" using Cons.prems(3) by (simp add: keeps_def)
    then have "fd_inv T (on_pipe p pipe_clear_waiting (e (pipe_store p ps s)))"
      unfolding on_pipe_def by (rule pipe_store_inv) (simp add: same_ends_def pipe_clear_waiting_def)
    with Cons.IH Cons.prems(2,3) Blocked show ?thesis by auto
  qed
qed

section \<open>Reading and writing\<close>

lemma read_inv [kinv]:
  assumes inv: "fd_inv T s" and call: "read_fd env fd sz s = Ret (r, bs, s')"
    and env: "\<forall>e\<in>set (env_steps env). keeps T e"
  shows "fd_inv T s'"
proof (cases "\<exists>f s1. s' = set_file f (\<lambda>x. x\<lparr>f_offset := f_offset x + of_nat (length bs)\<rparr>) s1 \<and>
    read_fs env (f_node (k_files s f)) (f_offset (k_files s f)) (word_of_int sz) s = Ret (bs, s1)")
  case False
  with call have "s' = s" by (auto simp: read_fd_def obind_Ret_iff Let_def split: option.splits if_splits)
  with inv show ?thesis by simp
next
  case True
  then obtain f s1 where s': "s' = set_file f (\<lambda>x. x\<lparr>f_offset := f_offset x + of_nat (length bs)\<rparr>) s1"
    and r: "read_fs env (f_node (k_files s f)) (f_offset (k_files s f)) (word_of_int sz) s = Ret (bs, s1)" by auto
  have "fd_inv T s1"
    using r inv pipe_read_at_inv [OF inv _ env]
    by (auto simp: read_fs_def keep_def obind_Ret_iff split: driver.splits node_impl.splits)
  then show ?thesis unfolding s' by (rule fd_inv_shape) (auto simp: same_shape_def)
qed

text \<open>The buffer a node gets at its first write.\<close>

lemma fd_inv_buffer:
  assumes inv: "fd_inv T s" and n: "n_impl (k_nodes s n) = NoImpl" "n_driver (k_nodes s n) = DriverMock"
    and f: "f \<in># open_files T s" "f_node (k_files s f) = n"
    and s': "k_files s' = k_files s" "k_pipes s' = k_pipes s" "k_nodes s' = (k_nodes s)(n := (k_nodes s n)\<lparr>n_impl := ImplBuf (k_brk s)\<rparr>)"
      "k_live s' = (k_live s)(k_brk s := True)" "k_brk s' = Suc (k_brk s)" "k_tasks s' = k_tasks s" "k_current s' = k_current s"
      "same_roots s s'" "k_bad_free s' = k_bad_free s"
  shows "fd_inv T s'"
proof -
  from inv obtain ty where tab: "tables_ok T s" and ok: "refs_ok ty s (open_files T s)" and r: "\<forall>n\<in>roots s. root_node ty s n"
    by (rule fd_invE)
  let ?ty = "ty(k_brk s := KBuf)" and ?M = "open_files T s"
  have op: "open_files T s' = ?M" by (rule open_files_cong) (simp add: s')
  have good: "good_file ty s g" if "g \<in># ?M" for g using ok that by (simp add: refs_ok_def)
  have np: "node_pipe m s' = node_pipe m s" for m using n by (auto simp: node_pipe_def s')
  have same: "file_pipe s' = file_pipe s" "writes s' = writes s" "ends_of s' = ends_of s"
    by (auto simp: file_pipe_def np writes_def s' fun_eq_iff ends_of_def)
  have "good_file ?ty s' g" if "g \<in># ?M" for g
    using good [OF that] n by (auto simp: good_file_def good_node_def obj_def s' split: node_impl.splits)
  moreover have "counted s' ?M" using ok by (simp add: refs_ok_def counted_def same s')
  moreover have "unshared s' ?M"
    using ok good_fileD(4) [OF good] n by (fastforce simp: refs_ok_def unshared_def Let_def s' owned_def)
  moreover have "\<not> k_bad_free s'" using ok s'(9) by (simp add: refs_ok_def)
  ultimately have "refs_ok ?ty s' (open_files T s')" by (simp add: refs_ok_def op)
  moreover have "\<forall>m\<in>roots s'. root_node ?ty s' m"
    using r n by (auto simp: same_roots_roots [OF s'(8)] root_node_def obj_def s')
  moreover have "tables_ok T s'" using tab s'(6,7) by (rule tables_ok_cong)
  ultimately show ?thesis by (auto simp: fd_inv_def)
qed

text \<open>Writing changes contents, lengths and first clusters only.\<close>

definition quiet :: "kst \<Rightarrow> kst \<Rightarrow> bool" where
  "quiet s s' \<longleftrightarrow> k_files s' = k_files s \<and> k_pipes s' = k_pipes s \<and> k_tasks s' = k_tasks s \<and> k_current s' = k_current s \<and>
     k_live s' = k_live s \<and> k_bad_free s' = k_bad_free s \<and> same_shape s s' \<and> same_roots s s'"

lemma quiet_trans: "quiet s s1 \<Longrightarrow> quiet s1 s2 \<Longrightarrow> quiet s s2"
  by (auto simp: quiet_def same_shape_def same_roots_def)

lemma quiet_inv: "fd_inv T s \<Longrightarrow> quiet s s' \<Longrightarrow> fd_inv T s'"
  by (rule fd_inv_shape) (auto simp: quiet_def)

lemma quiet_data [simp]: "quiet s s" "quiet s (s\<lparr>k_blk := b\<rparr>)" "quiet s (s\<lparr>k_out := out\<rparr>)" "quiet s (s\<lparr>k_bufs := bufs\<rparr>)"
  "quiet s (set_node n (\<lambda>nd. nd\<lparr>n_inode := i, n_length := l\<rparr>) (s\<lparr>k_blk := b\<rparr>))"
  by (auto simp: quiet_def same_shape_def same_roots_def set_node_def)

lemma fat_write_quiet:
  assumes "fat32_vfs_write node offset data s = Ret (r, s')"
  shows "quiet s s'"
proof -
  have expand: "quiet s s1" if "fat32_vfs_expand node sz s = Ret (c, s1)" for sz c s1
    using that by (auto simp: fat32_vfs_expand_def Let_def obind_Ret_iff)
  from assms obtain c s1 where
    "(if n_length (k_nodes s node) < ucast (offset + of_nat (length data)) then fat32_vfs_expand node (offset + of_nat (length data)) s
      else Ret (KABI_SUCCESS, s)) = Ret (c, s1)"
    and w: "(if c \<noteq> KABI_SUCCESS then Ret (0, s1)
       else let ctx = ctx_of node s1 in
         obind (on_part (\<lambda>b. s1\<lparr>k_blk := b\<rparr>)
            (fat_write (ctx_dev ctx) (ctx_info ctx) (n_inode (k_nodes s1 node)) offset data (k_blk s1)))
           (\<lambda>(n, b). Ret (of_nat n, s1\<lparr>k_blk := b\<rparr>))) = Ret (r, s')"
    unfolding fat32_vfs_write_def Let_def obind_Ret_iff by auto
  then have "quiet s s1" by (auto split: if_splits intro: expand)
  moreover have "quiet s1 s'" using w by (auto simp: Let_def obind_Ret_iff split: if_splits)
  ultimately show ?thesis by (rule quiet_trans)
qed

lemma mock_write_inv:
  assumes inv: "fd_inv T s" and f: "f \<in># open_files T s" "n_driver (k_nodes s (f_node (k_files s f))) = DriverMock"
    and call: "mock_write (f_node (k_files s f)) offset data s = Ret (r, s')"
  shows "fd_inv T s'"
proof -
  let ?n = "f_node (k_files s f)"
  from call obtain b s1 where buf: "mock_buffer ?n s = Ret (b, s1)" and w: "s' = s1 \<or> (\<exists>m. s' = s1\<lparr>k_bufs := m\<rparr>)"
    by (auto simp: mock_write_def obind_Ret_iff Let_def split: if_splits)
  have "fd_inv T s1"
  proof (cases "n_impl (k_nodes s ?n)")
    case NoImpl
    with buf have "s1 = set_node ?n (\<lambda>nd. nd\<lparr>n_impl := ImplBuf (k_brk s)\<rparr>) (s\<lparr>k_brk := Suc (k_brk s),
        k_live := (k_live s)(k_brk s := True), k_bufs := (k_bufs s)(k_brk s := replicate 1024 0)\<rparr>)"
      by (auto simp: mock_buffer_def kalloc_def)
    then show ?thesis
      by (intro fd_inv_buffer [OF inv NoImpl f(2) f(1)]) (simp_all add: same_roots_def set_node_def)
  qed (use buf inv in \<open>auto simp: mock_buffer_def\<close>)
  with w show ?thesis using quiet_inv by auto
qed

lemma write_inv [kinv]:
  assumes inv: "fd_inv T s" and call: "write_fd fd data s = Ret (r, s')"
  shows "fd_inv T s'"
proof (cases "s' = s")
  case False
  with call obtain f s1 res v where f: "fd_file fd s = Some f"
    and s': "s' = set_file f (\<lambda>x. x\<lparr>f_offset := f_offset x + v\<rparr>) s1"
    and w: "write_fs (f_node (k_files s f)) (f_offset (k_files s f)) data s = Ret (res, s1)"
    by (fastforce simp: write_fd_def obind_Ret_iff Let_def split: option.splits if_splits)
  let ?n = "f_node (k_files s f)"
  from inv have mem: "f \<in># open_files T s" using fd_fileD(4) [OF _ f] by (simp add: fd_inv_def)
  have "fd_inv T s1"
  proof (cases "n_driver (k_nodes s ?n)")
    case DriverPipe
    with w obtain p ps where "pipe_write data (pipe_view p s) = Ret (res, ps)" "s1 = pipe_store p ps s"
      by (auto simp: write_fs_def pipe_write_at_def obind_Ret_iff on_part_Ret split: node_impl.splits)
    with pipe_store_inv [OF inv, of p ps] pipe_write_ends [of data "pipe_view p s"] show ?thesis by simp
  next
    case DriverMock
    with w mock_write_inv [OF inv mem DriverMock] show ?thesis by (simp add: write_fs_def)
  next
    case DriverFat
    with w fat_write_quiet inv quiet_inv show ?thesis by (fastforce simp: write_fs_def)
  qed (use w inv quiet_inv in \<open>auto simp: write_fs_def std_write_def\<close>)
  then show ?thesis unfolding s' by (rule fd_inv_shape) (auto simp: same_shape_def)
qed (use inv in simp)

lemma directory_inv [kinv]:
  assumes inv: "fd_inv T s"
  shows "sys_mkdir path s = Ret (r, s') \<Longrightarrow> fd_inv T s'" "sys_unlink path s = Ret (r, s') \<Longrightarrow> fd_inv T s'"
proof -
  note kept = fd_inv_kept [OF inv]
  have step: "vfs_step s (drop_transient parent (s1\<lparr>k_blk := b\<rparr>))" "vfs_step s (drop_transient parent s1)" "vfs_step s s1"
    if "vfs_resolve_path pp s = Ret (parent, s1)" for pp parent s1 b
  proof -
    note res = resolve_found [OF that kept]
    have "found s (s1\<lparr>k_blk := b\<rparr>) p" if "parent = Some p" for p
      using found_step [OF res(2) [OF that]] by simp
    with res drop_transient_step(1) [OF _ kept] show "vfs_step s (drop_transient parent (s1\<lparr>k_blk := b\<rparr>))"
      "vfs_step s (drop_transient parent s1)" "vfs_step s s1" by auto
  qed
  show "fd_inv T s'" if "sys_mkdir path s = Ret (r, s')"
    using that step fd_inv_step [OF inv]
    by (auto simp: sys_mkdir_def fat32_vfs_mkdir_def Let_def obind_Ret_iff split: option.splits if_splits)
  show "fd_inv T s'" if "sys_unlink path s = Ret (r, s')"
    using that step fd_inv_step [OF inv]
    by (auto simp: sys_unlink_def fat32_vfs_unlink_def Let_def obind_Ret_iff split: option.splits if_splits)
qed

section \<open>Sequences of calls\<close>

text \<open>One descriptor call by whatever task is current; between calls the scheduler picks the current task.\<close>

inductive fd_step :: "ptr set \<Rightarrow> kst \<Rightarrow> kst \<Rightarrow> bool" for T where
  "t \<in> T \<Longrightarrow> fd_step T s (s\<lparr>k_current := t\<rparr>)"
| "open_fd name flags s = Ret (r, s') \<Longrightarrow> fd_step T s s'"
| "close fd s = (r, s') \<Longrightarrow> fd_step T s s'"
| "read_fd env fd sz s = Ret (r, bs, s') \<Longrightarrow> \<forall>e\<in>set (env_steps env). keeps T e \<Longrightarrow> fd_step T s s'"
| "write_fd fd data s = Ret (r, s') \<Longrightarrow> fd_step T s s'"
| "seek fd offset whence s = (r, s') \<Longrightarrow> fd_step T s s'"
| "dup fd s = (r, s') \<Longrightarrow> fd_step T s s'"
| "dup2 fd newfd s = (r, s') \<Longrightarrow> fd_step T s s'"
| "pipe s = (fds, s') \<Longrightarrow> fd_step T s s'"
| "sys_mkdir path s = Ret (r, s') \<Longrightarrow> fd_step T s s'"
| "sys_unlink path s = Ret (r, s') \<Longrightarrow> fd_step T s s'"
| "t \<in> T \<Longrightarrow> vfs_close_all_fds t s = s' \<Longrightarrow> fd_step T s s'"

lemma switch_inv: "fd_inv T s \<Longrightarrow> t \<in> T \<Longrightarrow> fd_inv T (s\<lparr>k_current := t\<rparr>)"
proof -
  assume inv: "fd_inv T s" and t: "t \<in> T"
  let ?s = "s\<lparr>k_current := t\<rparr>"
  from inv obtain ty where "tables_ok T s" "refs_ok ty s (open_files T s)" "\<forall>n\<in>roots s. root_node ty s n" by (rule fd_invE)
  moreover have "open_files T ?s = open_files T s" by (rule open_files_cong) simp
  moreover have "refs_ok ty ?s M = refs_ok ty s M" for M by (rule refs_ok_cong) simp_all
  ultimately show "fd_inv T ?s"
    using t by (auto simp: fd_inv_def tables_ok_def roots_def root_node_def obj_def)
qed

lemma fd_step_inv: "fd_step T s s' \<Longrightarrow> fd_inv T s \<Longrightarrow> fd_inv T s'"
proof (induction rule: fd_step.induct)
  case (3 fd s r s')
  then show ?case using close_inv [of T s fd] by simp
next
  case (6 fd offset whence s r s')
  then show ?case using seek_inv [of T s fd offset whence] by simp
next
  case (7 fd s r s')
  then show ?case using dup_inv [of T s fd] by simp
next
  case (8 fd newfd s r s')
  then show ?case using dup2_inv [of T s fd newfd] by simp
next
  case (9 s fds s')
  then show ?case using pipe_call_inv [of T s] by simp
qed (auto intro: switch_inv kinv)

lemma fd_steps_inv: "(fd_step T)\<^sup>*\<^sup>* s s' \<Longrightarrow> fd_inv T s \<Longrightarrow> fd_inv T s'"
  by (induction rule: rtranclp_induct) (auto intro: fd_step_inv)

lemma fd_inv_slot:
  assumes inv: "fd_inv T s" and t: "t \<in> T" "i < MAX_FD" "t_fd_table (k_tasks s t) ! i = Some f"
  shows "k_live s f" "k_live s (f_node (k_files s f))" "unat (f_refcount (k_files s f)) = count (open_files T s) f"
    "file_pipe s f = Some p \<Longrightarrow> k_live s p \<and> pipe_inv (k_pipes s p) \<and>
       unat (p_readers (k_pipes s p)) = ends_of s (open_files T s) p False \<and>
       unat (p_writers (k_pipes s p)) = ends_of s (open_files T s) p True"
    "n_impl (k_nodes s (f_node (k_files s f))) = ImplBuf b \<Longrightarrow> k_live s b"
    "g \<in># open_files T s \<Longrightarrow> f_node (k_files s g) = f_node (k_files s f) \<Longrightarrow> owned (k_nodes s (f_node (k_files s f))) \<Longrightarrow> g = f"
    "g \<in># open_files T s \<Longrightarrow> n_impl (k_nodes s (f_node (k_files s f))) = ImplBuf b \<Longrightarrow>
       n_impl (k_nodes s (f_node (k_files s g))) = ImplBuf b \<Longrightarrow> f_node (k_files s g) = f_node (k_files s f)"
    "\<not> k_bad_free s"
proof -
  from inv obtain ty where tab: "tables_ok T s" and ok: "refs_ok ty s (open_files T s)" by (rule fd_invE)
  from tab t open_files_set_fd(3) [of T t i s f] have f: "f \<in># open_files T s" by (simp add: tables_ok_def)
  with ok have g: "good_file ty s f" by (simp add: refs_ok_def)
  then show "k_live s f" "k_live s (f_node (k_files s f))" by (auto simp: good_file_def good_node_def obj_def)
  show "unat (f_refcount (k_files s f)) = count (open_files T s) f" using ok f by (simp add: refs_ok_def counted_def)
  show "k_live s p \<and> pipe_inv (k_pipes s p) \<and> unat (p_readers (k_pipes s p)) = ends_of s (open_files T s) p False \<and>
       unat (p_writers (k_pipes s p)) = ends_of s (open_files T s) p True" if "file_pipe s f = Some p"
    using ok f g that file_pipe_good [OF g] by (auto simp: refs_ok_def counted_def good_file_def good_node_def obj_def)
  show "k_live s b" if "n_impl (k_nodes s (f_node (k_files s f))) = ImplBuf b"
    using g that by (simp add: good_file_def good_node_def obj_def)
  have u: "unshared s (open_files T s)" and "\<not> k_bad_free s" using ok by (simp_all add: refs_ok_def)
  then show "\<not> k_bad_free s" by simp
  show "g = f" if "g \<in># open_files T s" "f_node (k_files s g) = f_node (k_files s f)" "owned (k_nodes s (f_node (k_files s f)))"
    using u f that by (auto simp: unshared_def Let_def)
  show "f_node (k_files s g) = f_node (k_files s f)" if "g \<in># open_files T s"
    "n_impl (k_nodes s (f_node (k_files s f))) = ImplBuf b" "n_impl (k_nodes s (f_node (k_files s g))) = ImplBuf b"
    using u f that by (auto simp: unshared_def Let_def)
qed

text \<open>
  C2. Descriptors never dangle. After any sequence of open, close, read, write, seek, dup, dup2, pipe,
  mkdir, unlink and close-all calls by any of the tasks, in any order: nothing has been freed that was not
  allocated; every file in a descriptor table is allocated, and so are its node, the pipe behind it and the
  buffer behind it; the reference count of the file is the number of descriptors that refer to it, and the
  reader and writer counts of the pipe are the numbers of descriptors open on its two ends; a node that is
  freed with its file belongs to no other open file, and a buffer to no other node of an open file.
\<close>

theorem descriptors_never_dangle:
  assumes "fd_inv T s" "(fd_step T)\<^sup>*\<^sup>* s s'" "t \<in> T" "i < MAX_FD" "t_fd_table (k_tasks s' t) ! i = Some f"
    and n: "n = f_node (k_files s' f)"
  shows "\<not> k_bad_free s' \<and> k_live s' f \<and> k_live s' n \<and>
    (\<forall>b. n_impl (k_nodes s' n) = ImplBuf b \<longrightarrow> k_live s' b) \<and>
    unat (f_refcount (k_files s' f)) = count (open_files T s') f \<and>
    (\<forall>p. file_pipe s' f = Some p \<longrightarrow> k_live s' p \<and> pipe_inv (k_pipes s' p) \<and>
       unat (p_readers (k_pipes s' p)) = ends_of s' (open_files T s') p False \<and>
       unat (p_writers (k_pipes s' p)) = ends_of s' (open_files T s') p True) \<and>
    (\<forall>g\<in>#open_files T s'. (owned (k_nodes s' n) \<and> f_node (k_files s' g) = n \<longrightarrow> g = f) \<and>
       (\<forall>b. n_impl (k_nodes s' n) = ImplBuf b \<and> n_impl (k_nodes s' (f_node (k_files s' g))) = ImplBuf b \<longrightarrow>
          f_node (k_files s' g) = n))"
  unfolding n using fd_inv_slot [OF fd_steps_inv [OF assms(2,1)] assms(3-5)] by blast

lemma small_kernel_fd_inv: "fd_inv {10} small_kernel"
proof -
  have "open_files {10} small_kernel = {#}"
    by (simp add: open_files_def small_kernel_def blank_task_def)
  then show ?thesis
    by (simp add: fd_inv_def tables_ok_def refs_ok_def counted_def unshared_def roots_def small_kernel_def blank_task_def MAX_FD_def)
qed

definition piped_kernel :: kst where
  "piped_kernel = snd (dup 4 (snd (pipe small_kernel)))"

lemma piped_kernel_steps: "(fd_step {10})\<^sup>*\<^sup>* small_kernel piped_kernel"
proof -
  have "fd_step {10} small_kernel (snd (pipe small_kernel))" by (rule fd_step.intros(9) [of _ "fst (pipe small_kernel)"]) simp
  moreover have "fd_step {10} (snd (pipe small_kernel)) piped_kernel"
    by (rule fd_step.intros(7) [of 4 _ "fst (dup 4 (snd (pipe small_kernel)))"]) (simp add: piped_kernel_def)
  ultimately show ?thesis by (simp add: rtranclp.rtrancl_into_rtrancl)
qed

lemma piped_kernel_table:
  "t_fd_table (k_tasks piped_kernel 10) = [None, None, None, Some 102, Some 103, Some 103] @ replicate 26 None"
  "k_current piped_kernel = 10"
proof -
  obtain s4 where call: "pipe small_kernel = (case two_free s4 of None \<Rightarrow> (None, s4)
       | Some (r, w) \<Rightarrow> (Some (int r, int w), set_fd (k_current small_kernel) w (Some (k_brk small_kernel + 3))
           (set_fd (k_current small_kernel) r (Some (k_brk small_kernel + 2)) s4)))"
    and s4: "k_tasks s4 = k_tasks small_kernel" "k_current s4 = k_current small_kernel"
    by (rule pipe_objects)
  have small: "k_current small_kernel = 10" "k_brk small_kernel = 100" "t_fd_table (k_tasks small_kernel 10) = replicate 32 None"
    by (simp_all add: small_kernel_def blank_task_def)
  have "two_free s4 = Some (3, 4)"
    by (simp add: two_free_def s4 small FIRST_USER_FD_def MAX_FD_def upt_rec)
  with call have p: "snd (pipe small_kernel) = set_fd 10 4 (Some 103) (set_fd 10 3 (Some 102) s4)" by (simp add: small)
  have t: "t_fd_table (k_tasks (snd (pipe small_kernel)) 10) = [None, None, None, Some 102, Some 103, None] @ replicate 26 None"
  proof -
    have "(replicate 32 None)[3 := Some 102, 4 := Some (103 :: ptr)] = [None, None, None, Some 102, Some 103, None] @ replicate 26 None"
      by code_simp
    then show ?thesis by (simp add: p set_fd_def s4 small)
  qed
  have "free_fd (snd (pipe small_kernel)) = Some 5" "fd_file 4 (snd (pipe small_kernel)) = Some 103"
    using t by (simp_all add: free_fd_def fd_file_def p s4 small FIRST_USER_FD_def MAX_FD_def upt_rec)
  moreover have "k_current (snd (pipe small_kernel)) = 10" by (simp add: p s4 small)
  moreover have "([None, None, None, Some 102, Some 103, None] @ replicate 26 None)[5 := Some (103 :: ptr)] =
      [None, None, None, Some 102, Some 103, Some 103] @ replicate 26 None" by code_simp
  ultimately show "t_fd_table (k_tasks piped_kernel 10) = [None, None, None, Some 102, Some 103, Some 103] @ replicate 26 None"
    "k_current piped_kernel = 10"
    by (simp_all add: piped_kernel_def dup_def t set_fd_def del: append_Cons append_Nil)
qed

theorem descriptors_never_dangle_witness:
  "fd_inv {10} small_kernel \<and> (fd_step {10})\<^sup>*\<^sup>* small_kernel piped_kernel \<and>
   t_fd_table (k_tasks piped_kernel 10) ! 5 = Some 103 \<and> \<not> k_bad_free piped_kernel \<and> k_live piped_kernel 103 \<and>
   unat (f_refcount (k_files piped_kernel 103)) = count (open_files {10} piped_kernel) 103"
  using descriptors_never_dangle [OF small_kernel_fd_inv piped_kernel_steps, of 10 5 103, OF _ _ _ refl] piped_kernel_table
    small_kernel_fd_inv piped_kernel_steps by (simp add: MAX_FD_def)

section \<open>Nothing is leaked\<close>

lemma drop_file_live:
  assumes ok: "refs_ok ty s (add_mset f N)" and n: "n = f_node (k_files s f)"
  shows "k_live (drop_file f s) x \<longleftrightarrow> k_live s x \<and>
    \<not> (f \<notin># N \<and> (x = f \<or> owned (k_nodes s n) \<and>
         (x = n \<or> n_impl (k_nodes s n) = ImplBuf x \<and> n_flags (k_nodes s n) AND FS_IMPL_HEAP \<noteq> 0))) \<and>
    \<not> (\<exists>p. file_pipe s f = Some p \<and> (\<forall>g\<in>#N. file_pipe s g \<noteq> Some p) \<and> (x = p \<or> x = n))"
proof -
  let ?u = "uncount f s"
  have good: "good_file ty s f" using ok by (simp add: refs_ok_def)
  have zero: "f_refcount (k_files ?u f) = 0 \<longleftrightarrow> f \<notin># N"
    using uncount_ok(2) [OF ok] by (metis not_in_iff unat_eq_0)
  have dead: "dead_pipe ?u n \<longleftrightarrow> (\<exists>p. file_pipe s f = Some p \<and> (\<forall>g\<in>#N. file_pipe s g \<noteq> Some p))"
  proof (cases "file_pipe s f")
    case None
    then show ?thesis by (simp add: dead_pipe_def node_pipe_def file_pipe_def uncount_fields n split: if_splits node_impl.splits)
  next
    case (Some p)
    have "p_readers (k_pipes ?u p) = 0 \<and> p_writers (k_pipes ?u p) = 0 \<longleftrightarrow> ends_of s N p False = 0 \<and> ends_of s N p True = 0"
      using uncount_ok(3) [OF ok Some] by (metis unat_eq_0)
    also have "\<dots> \<longleftrightarrow> (\<forall>g\<in>#N. file_pipe s g \<noteq> Some p)" unfolding ends_of_zero by (metis (full_types))
    finally show ?thesis
      using Some good file_pipe_good [OF good]
      by (auto simp: dead_pipe_def node_pipe_def file_pipe_def uncount_fields n good_file_def good_node_def split: if_splits node_impl.splits)
  qed
  have impl: "file_pipe s f = Some p \<longleftrightarrow> n_impl (k_nodes s n) = ImplPipe p" for p using file_pipe_good [OF good] n by simp
  have alone: "f \<notin># N" if "file_pipe s f = Some p" "\<forall>g\<in>#N. file_pipe s g \<noteq> Some p" for p using that by auto
  show ?thesis
  proof (cases "f \<in># N")
    case True
    then show ?thesis using zero alone by (auto simp: drop_file_uncount uncount_fields)
  next
    case False
    then show ?thesis using zero impl dead
      by (auto simp: drop_file_uncount release_live uncount_fields n)
  qed
qed

text \<open>
  C4. Closing releases exactly what nobody else uses, and frees nothing twice. The call returns 0 and keeps
  the invariant. The file is freed if no other descriptor refers to it; with its last descriptor a node that
  belongs to it is freed, and the buffer the node owns; when no other descriptor is open on either end of a
  pipe, the pipe and its node are freed; everything else stays allocated. The reader and writer counts of the
  pipe become the numbers of the remaining descriptors on its ends.
\<close>

theorem close_releases:
  assumes inv: "fd_inv T s" and f: "fd_file fd s = Some f" and n: "n = f_node (k_files s f)"
    and N: "N = open_files T s - {#f#}" and s': "s' = snd (close fd s)"
  shows "fst (close fd s) = 0 \<and> fd_inv T s' \<and> \<not> k_bad_free s' \<and>
    (\<forall>x. k_live s' x \<longleftrightarrow> k_live s x \<and>
       \<not> (f \<notin># N \<and> (x = f \<or> owned (k_nodes s n) \<and>
            (x = n \<or> n_impl (k_nodes s n) = ImplBuf x \<and> n_flags (k_nodes s n) AND FS_IMPL_HEAP \<noteq> 0))) \<and>
       \<not> (\<exists>p. file_pipe s f = Some p \<and> (\<forall>g\<in>#N. file_pipe s g \<noteq> Some p) \<and> (x = p \<or> x = n))) \<and>
    (\<forall>p. file_pipe s f = Some p \<longrightarrow> unat (p_readers (k_pipes s' p)) = ends_of s N p False \<and>
       unat (p_writers (k_pipes s' p)) = ends_of s N p True)"
proof -
  let ?s1 = "set_fd (k_current s) (nat fd) None s"
  from inv obtain ty where tab: "tables_ok T s" and "refs_ok ty s (open_files T s)" by (rule fd_invE)
  moreover have "open_files T s = add_mset f N" using fd_fileD(4) [OF tab f] by (simp add: N)
  moreover have "refs_ok ty ?s1 M = refs_ok ty s M" for M by (rule refs_ok_cong) simp_all
  ultimately have ok: "refs_ok ty ?s1 (add_mset f N)" by simp
  have eq: "close fd s = (0, drop_file f ?s1)" "s' = drop_file f ?s1" using f by (simp_all add: s' close_def)
  have same: "file_pipe ?s1 = file_pipe s" "ends_of ?s1 = ends_of s"
    using same_shape_facts [of s ?s1] by (simp_all add: same_shape_def fun_eq_iff)
  have inv': "fd_inv T s'" unfolding s' by (rule close_inv [OF inv])
  then have "\<not> k_bad_free s'" by (auto simp: fd_inv_def refs_ok_def)
  moreover have "k_pipes s' = k_pipes (uncount f ?s1)" by (simp add: eq drop_file_uncount)
  ultimately show ?thesis
    using drop_file_live [OF ok refl] uncount_ok(3) [OF ok] inv' unfolding eq same n by simp
qed

theorem close_releases_witness:
  "fd_inv {10} piped_kernel \<and> fd_file 3 piped_kernel = Some 102 \<and>
   \<not> k_live (snd (close 3 piped_kernel)) 102 \<and> k_live (snd (close 5 piped_kernel)) 103 \<and>
   \<not> k_bad_free (snd (close 3 piped_kernel))"
proof -
  have inv: "fd_inv {10} piped_kernel" by (rule fd_steps_inv [OF piped_kernel_steps small_kernel_fd_inv])
  have f: "fd_file 3 piped_kernel = Some 102" "fd_file 5 piped_kernel = Some 103"
    by (simp_all add: fd_file_def MAX_FD_def piped_kernel_table)
  have o: "open_files {10} piped_kernel = {#102, 103, 103#}" by (simp add: open_files_def piped_kernel_table)
  have "k_live piped_kernel 103" by (rule fd_inv_slot(1) [OF inv, of 10 5]) (simp_all add: MAX_FD_def piped_kernel_table)
  then show ?thesis
    using close_releases [OF inv f(1) refl refl refl] close_releases [OF inv f(2) refl refl refl] inv f
    by (simp add: o)
qed

end
