(* ===== verification/Mmu.thy ===== *)
theory Mmu
  imports Pmm
begin

text \<open>
  Address spaces: the four-level page tables of kernel/arch/x86_64/mmu/mmu.c and the copy-on-write
  part of the page fault handler of kernel/cpu/paging.c. A page table is the frame it lies in; the
  windows through which the kernel reaches frames (\<open>phys_to_virt\<close>) are not part of the state. The page
  table lock and the invalidation of cached translations are not modelled.
\<close>

section \<open>State\<close>

record mmu =
  m_pmm :: pmm
  m_table :: "nat \<Rightarrow> nat \<Rightarrow> u64"
  m_page :: "nat \<Rightarrow> nat \<Rightarrow> u8"

text \<open>An address space is named by the frame of its top table.\<close>

type_synonym mmu_context = nat

definition MMU_PRESENT :: u64 where "MMU_PRESENT = 0x1"
definition MMU_WRITABLE :: u64 where "MMU_WRITABLE = 0x2"
definition MMU_USER :: u64 where "MMU_USER = 0x4"
definition MMU_COW :: u64 where "MMU_COW = 0x200"

lemmas mmu_flags = MMU_PRESENT_def MMU_WRITABLE_def MMU_USER_def MMU_COW_def

definition PML4_IDX :: "u64 \<Rightarrow> nat" where "PML4_IDX v = unat (drop_bit 39 v AND 0x1FF)"
definition PDPT_IDX :: "u64 \<Rightarrow> nat" where "PDPT_IDX v = unat (drop_bit 30 v AND 0x1FF)"
definition PD_IDX :: "u64 \<Rightarrow> nat" where "PD_IDX v = unat (drop_bit 21 v AND 0x1FF)"
definition PT_IDX :: "u64 \<Rightarrow> nat" where "PT_IDX v = unat (drop_bit 12 v AND 0x1FF)"

text \<open>The frame an entry points to, and whether it points anywhere.\<close>

definition frame_no :: "u64 \<Rightarrow> nat" where "frame_no e = unat (drop_bit 12 e)"

definition present :: "u64 \<Rightarrow> bool" where "present e \<longleftrightarrow> e AND MMU_PRESENT \<noteq> 0"

definition frame_addr :: "nat \<Rightarrow> u64" where "frame_addr f = of_nat f * 0x1000"

definition set_entry :: "nat \<Rightarrow> nat \<Rightarrow> u64 \<Rightarrow> mmu \<Rightarrow> mmu" where
  "set_entry t i e s = s\<lparr>m_table := (m_table s)(t := (m_table s t)(i := e))\<rparr>"

section \<open>Tables\<close>

definition alloc_table :: "mmu \<Rightarrow> (mmu, nat \<times> mmu) outcome" where
  "alloc_table s =
     (case alloc_frame (m_pmm s) of
        None \<Rightarrow> Panic ''mmu: out of physical memory for page table''
      | Some (f, p) \<Rightarrow> Ret (unat f, s\<lparr>m_pmm := p, m_table := (m_table s)(unat f := (\<lambda>_. 0)),
                                    m_page := (m_page s)(unat f := (\<lambda>_. 0))\<rparr>))"

definition free_page_table :: "nat \<Rightarrow> mmu \<Rightarrow> mmu" where
  "free_page_table t s = s\<lparr>m_pmm := frame_remove_ref (of_nat t) (m_pmm s)\<rparr>"

definition get_or_alloc_table :: "nat \<Rightarrow> nat \<Rightarrow> u64 \<Rightarrow> mmu \<Rightarrow> (mmu, nat \<times> mmu) outcome" where
  "get_or_alloc_table parent index flags s =
     (let e = m_table s parent index in
      if \<not> present e then
        obind (alloc_table s) (\<lambda>(t, s1).
          Ret (t, set_entry parent index (frame_addr t OR MMU_PRESENT OR MMU_WRITABLE OR MMU_USER) s1))
      else Ret (frame_no e, if flags AND MMU_USER \<noteq> 0 then set_entry parent index (e OR MMU_USER) s else s))"

text \<open>The place of the last-level entry: its table and index.\<close>

definition mmu_get_entry :: "mmu_context \<Rightarrow> u64 \<Rightarrow> mmu \<Rightarrow> (nat \<times> nat) option" where
  "mmu_get_entry ctx virt s =
     (let e4 = m_table s ctx (PML4_IDX virt) in
      if \<not> present e4 then None
      else let e3 = m_table s (frame_no e4) (PDPT_IDX virt) in
        if \<not> present e3 then None
        else let e2 = m_table s (frame_no e3) (PD_IDX virt) in
          if \<not> present e2 then None
          else Some (frame_no e2, PT_IDX virt))"

definition mmu_map_page :: "mmu_context \<Rightarrow> u64 \<Rightarrow> u64 \<Rightarrow> u64 \<Rightarrow> mmu \<Rightarrow> (mmu, mmu) outcome" where
  "mmu_map_page ctx virt phys flags s =
     obind (get_or_alloc_table ctx (PML4_IDX virt) flags s) (\<lambda>(pdpt, s1).
     obind (get_or_alloc_table pdpt (PDPT_IDX virt) flags s1) (\<lambda>(pd, s2).
     obind (get_or_alloc_table pd (PD_IDX virt) flags s2) (\<lambda>(pt, s3).
       Ret (set_entry pt (PT_IDX virt) ((phys AND NOT 0xFFF) OR flags OR MMU_PRESENT) s3))))"

definition mmu_unmap_page :: "mmu_context \<Rightarrow> u64 \<Rightarrow> mmu \<Rightarrow> mmu" where
  "mmu_unmap_page ctx virt s =
     (case mmu_get_entry ctx virt s of None \<Rightarrow> s | Some (pt, i) \<Rightarrow> set_entry pt i 0 s)"

definition get_page :: "u64 \<Rightarrow> bool \<Rightarrow> mmu_context \<Rightarrow> mmu \<Rightarrow> (mmu, (nat \<times> nat) option \<times> mmu) outcome" where
  "get_page address mk dir s =
     (case mmu_get_entry dir address s of
        Some p \<Rightarrow> Ret (Some p, s)
      | None \<Rightarrow>
          if \<not> mk then Ret (None, s)
          else
            let flags = MMU_WRITABLE OR MMU_PRESENT OR MMU_USER in
            obind (get_or_alloc_table dir (PML4_IDX address) flags s) (\<lambda>(pdpt, s1).
            obind (get_or_alloc_table pdpt (PDPT_IDX address) flags s1) (\<lambda>(pd, s2).
            obind (get_or_alloc_table pd (PD_IDX address) flags s2) (\<lambda>(pt, s3).
              Ret (Some (pt, PT_IDX address), s3)))))"

definition PAGE_SET_FRAME :: "nat \<times> nat \<Rightarrow> u64 \<Rightarrow> mmu \<Rightarrow> mmu" where
  "PAGE_SET_FRAME p f s =
     set_entry (fst p) (snd p) ((m_table s (fst p) (snd p) AND 0xFFF) OR (f AND NOT 0xFFF)) s"

definition PAGE_SET_FLAGS :: "nat \<times> nat \<Rightarrow> u64 \<Rightarrow> mmu \<Rightarrow> mmu" where
  "PAGE_SET_FLAGS p flags s =
     set_entry (fst p) (snd p) ((m_table s (fst p) (snd p) AND NOT 0xFFF) OR flags) s"

section \<open>Copying an address space\<close>

text \<open>One last-level entry: shared, and made copy-on-write in both tables if it is a writable user page.\<close>

definition cow_entry :: "u64 \<Rightarrow> u64" where
  "cow_entry e = (if e AND MMU_USER \<noteq> 0 \<and> e AND MMU_WRITABLE \<noteq> 0 then (e AND NOT MMU_WRITABLE) OR MMU_COW else e)"

definition clone_leaf :: "bool \<Rightarrow> nat \<Rightarrow> nat \<Rightarrow> nat \<Rightarrow> mmu \<Rightarrow> mmu" where
  "clone_leaf cow src dst i s =
     (let e = m_table s src i; e' = (if cow then cow_entry e else e);
          s1 = set_entry dst i e' (set_entry src i e' s)
      in s1\<lparr>m_pmm := frame_add_ref (of_nat (frame_no e')) (m_pmm s1)\<rparr>)"

fun clone_leaves :: "bool \<Rightarrow> nat \<Rightarrow> nat \<Rightarrow> nat list \<Rightarrow> mmu \<Rightarrow> mmu" where
  "clone_leaves cow src dst [] s = s"
| "clone_leaves cow src dst (i # is) s =
     clone_leaves cow src dst is (if present (m_table s src i) then clone_leaf cow src dst i s else s)"

text \<open>The loop over the entries of an inner table; \<open>cl i t\<close> copies the table \<open>t\<close> below entry \<open>i\<close>.\<close>

fun clone_children ::
    "(nat \<Rightarrow> nat \<Rightarrow> mmu \<Rightarrow> (mmu, nat \<times> mmu) outcome) \<Rightarrow> nat \<Rightarrow> nat \<Rightarrow> nat list \<Rightarrow> mmu \<Rightarrow> (mmu, mmu) outcome" where
  "clone_children cl src dst [] s = Ret s"
| "clone_children cl src dst (i # is) s =
     (if present (m_table s src i) then
        obind (cl i (frame_no (m_table s src i)) s) (\<lambda>(c, s1).
          clone_children cl src dst is (set_entry dst i (frame_addr c OR (m_table s1 src i AND 0xFFF)) s1))
      else clone_children cl src dst is s)"

text \<open>The number says how many levels of tables are below: the code's level is three less it.\<close>

primrec clone_table :: "nat \<Rightarrow> bool \<Rightarrow> nat \<Rightarrow> mmu \<Rightarrow> (mmu, nat \<times> mmu) outcome" where
  "clone_table 0 = (\<lambda>cow src s.
     obind (alloc_table s) (\<lambda>(t, s1). Ret (t, clone_leaves cow src t [0..<512] s1)))"
| "clone_table (Suc d) = (\<lambda>cow src s.
     obind (alloc_table s) (\<lambda>(t, s1).
       obind (clone_children (\<lambda>_. clone_table d cow) src t [0..<512] s1) (\<lambda>s2. Ret (t, s2))))"

text \<open>Sharing the table below an entry instead of copying it.\<close>

definition share :: "nat \<Rightarrow> mmu \<Rightarrow> (mmu, nat \<times> mmu) outcome" where
  "share t s = Ret (t, s)"

text \<open>\<open>PDPT[0]\<close>: entries below 64 are the kernel's identity map.\<close>

definition clone_first_pd :: "nat \<Rightarrow> mmu \<Rightarrow> (mmu, nat \<times> mmu) outcome" where
  "clone_first_pd src s =
     obind (alloc_table s) (\<lambda>(t, s1).
       obind (clone_children (\<lambda>k. if k < 64 then share else clone_table 0 True) src t [0..<512] s1) (\<lambda>s2. Ret (t, s2)))"

definition clone_first_pdpt :: "nat \<Rightarrow> mmu \<Rightarrow> (mmu, nat \<times> mmu) outcome" where
  "clone_first_pdpt src s =
     obind (alloc_table s) (\<lambda>(t, s1).
       obind (clone_children (\<lambda>j. if j = 0 then clone_first_pd else clone_table 1 True) src t [0..<512] s1) (\<lambda>s2. Ret (t, s2)))"

definition mmu_clone_user :: "mmu_context \<Rightarrow> mmu \<Rightarrow> (mmu, mmu_context \<times> mmu) outcome" where
  "mmu_clone_user src s =
     obind (alloc_table s) (\<lambda>(t, s1).
       obind (clone_children (\<lambda>i. if 256 \<le> i then share else if i = 0 then clone_first_pdpt else clone_table 2 True)
                src t [0..<512] s1) (\<lambda>s2. Ret (t, s2)))"

section \<open>Freeing an address space\<close>

fun each_present :: "(nat \<Rightarrow> nat \<Rightarrow> mmu \<Rightarrow> mmu) \<Rightarrow> nat \<Rightarrow> nat list \<Rightarrow> mmu \<Rightarrow> mmu" where
  "each_present f t [] s = s"
| "each_present f t (i # is) s =
     each_present f t is (if present (m_table s t i) then f i (frame_no (m_table s t i)) s else s)"

primrec free_table :: "nat \<Rightarrow> nat \<Rightarrow> mmu \<Rightarrow> mmu" where
  "free_table 0 = (\<lambda>t s. free_page_table t
     (each_present (\<lambda>_ f s. s\<lparr>m_pmm := frame_remove_ref (of_nat f) (m_pmm s)\<rparr>) t [0..<512] s))"
| "free_table (Suc d) = (\<lambda>t s. free_page_table t (each_present (\<lambda>_. free_table d) t [0..<512] s))"

definition free_first_pd :: "nat \<Rightarrow> mmu \<Rightarrow> mmu" where
  "free_first_pd pd s = free_page_table pd (each_present (\<lambda>_. free_table 0) pd [64..<512] s)"

definition free_first_pdpt :: "nat \<Rightarrow> mmu \<Rightarrow> mmu" where
  "free_first_pdpt pdpt s =
     free_page_table pdpt (each_present (\<lambda>j. if j = 0 then free_first_pd else free_table 1) pdpt [0..<512] s)"

definition free_page_directory :: "mmu_context \<Rightarrow> mmu_context \<Rightarrow> mmu \<Rightarrow> mmu" where
  "free_page_directory kernel_directory dir s =
     (if dir = kernel_directory then s
      else free_page_table dir
        (each_present (\<lambda>i. if i = 0 then free_first_pdpt else free_table 2) dir [0..<256] s))"

section \<open>Copy on write\<close>

text \<open>
  What the page fault handler does with a protection fault on a write: the page is made writable,
  copied first if its frame is referenced more than once; or memory is out; or it is no such page.
\<close>

datatype fault_result = Resolved | OutOfMemory | NotHandled

definition page_fault_cow :: "mmu_context \<Rightarrow> u64 \<Rightarrow> u64 \<Rightarrow> mmu \<Rightarrow> fault_result \<times> mmu" where
  "page_fault_cow current_directory err_code faulting_address s =
     (if err_code AND 1 = 0 \<or> err_code AND 2 = 0 then (NotHandled, s)
      else case mmu_get_entry current_directory faulting_address s of
        None \<Rightarrow> (NotHandled, s)
      | Some (t, i) \<Rightarrow>
          let e = m_table s t i in
          if e AND MMU_COW = 0 \<or> e AND MMU_USER = 0 then (NotHandled, s)
          else let old = frame_no e in
            if 1 < frame_get_ref (of_nat old) (m_pmm s) then
              let (new, p) = pmm_first_free (m_pmm s) in
              if new = 0xFFFFFFFF then (OutOfMemory, s\<lparr>m_pmm := p\<rparr>)
              else
                let s1 = s\<lparr>m_pmm := frame_remove_ref (of_nat old) p,
                           m_page := (m_page s)(unat new := m_page s old)\<rparr>;
                    e' = ((((e AND 0xFFF) OR (frame_addr (unat new) AND NOT 0xFFF)) AND NOT MMU_COW) OR MMU_WRITABLE);
                    s2 = set_entry t i e' s1
                in (Resolved, s2\<lparr>m_pmm := frame_add_ref new (m_pmm s2)\<rparr>)
            else (Resolved, set_entry t i ((e AND NOT MMU_COW) OR MMU_WRITABLE) s))"

end
