(* ===== verification/MmuTree.thy ===== *)
theory MmuTree
  imports Mmu
begin

text \<open>
  Page tables as trees: the tables below a table, paths of indices, and the entry a path leads to.
  Mapping a page changes the entry of its path and of no other, and takes its tables from free frames.
\<close>

section \<open>Paths\<close>

abbreviation child :: "mmu \<Rightarrow> nat \<Rightarrow> nat \<Rightarrow> nat" where
  "child s t i \<equiv> frame_no (m_table s t i)"

fun walk :: "mmu \<Rightarrow> nat \<Rightarrow> nat list \<Rightarrow> (nat \<times> nat) option" where
  "walk s t [] = None"
| "walk s t [i] = Some (t, i)"
| "walk s t (i # j # js) = (if present (m_table s t i) then walk s (child s t i) (j # js) else None)"

definition entry_at :: "mmu \<Rightarrow> nat \<Rightarrow> nat list \<Rightarrow> u64" where
  "entry_at s t is = (case walk s t is of None \<Rightarrow> 0 | Some (x, i) \<Rightarrow> m_table s x i)"

text \<open>Which entries of a table lead to further tables that are looked at, which are skipped.\<close>

datatype shape = Skip | Leaf | Node "nat \<Rightarrow> shape"

primrec path :: "shape \<Rightarrow> nat list \<Rightarrow> bool" where
  "path Skip = (\<lambda>is. False)"
| "path Leaf = (\<lambda>is. \<exists>i<512. is = [i])"
| "path (Node f) = (\<lambda>is. \<exists>i js. is = i # js \<and> i < 512 \<and> path (f i) js)"

definition present_idx :: "mmu \<Rightarrow> nat \<Rightarrow> nat set" where
  "present_idx s t = {i. i < 512 \<and> present (m_table s t i)}"

primrec tabs :: "shape \<Rightarrow> mmu \<Rightarrow> nat \<Rightarrow> nat set" where
  "tabs Skip = (\<lambda>s t. {})"
| "tabs Leaf = (\<lambda>s t. {t})"
| "tabs (Node f) = (\<lambda>s t. insert t (\<Union>i\<in>present_idx s t. tabs (f i) s (child s t i)))"

primrec tree :: "shape \<Rightarrow> mmu \<Rightarrow> nat \<Rightarrow> bool" where
  "tree Skip = (\<lambda>s t. True)"
| "tree Leaf = (\<lambda>s t. True)"
| "tree (Node f) = (\<lambda>s t. \<forall>i\<in>present_idx s t. tree (f i) s (child s t i) \<and> t \<notin> tabs (f i) s (child s t i) \<and>
     (\<forall>j\<in>present_idx s t. i \<noteq> j \<longrightarrow> tabs (f i) s (child s t i) \<inter> tabs (f j) s (child s t j) = {}))"

lemma tabs_self: "sh \<noteq> Skip \<Longrightarrow> t \<in> tabs sh s t"
  by (cases sh) auto

lemma path_not_Nil: "path sh is \<Longrightarrow> is \<noteq> []"
  by (cases sh) auto

lemma walk_Cons: "is \<noteq> [] \<Longrightarrow> walk s t (i # is) = (if present (m_table s t i) then walk s (child s t i) is else None)"
  by (cases "is") auto

lemma entry_at_single [simp]: "entry_at s t [i] = m_table s t i"
  by (simp add: entry_at_def)

lemma entry_at_Cons:
  "path sh is \<Longrightarrow> entry_at s t (i # is) = (if present (m_table s t i) then entry_at s (child s t i) is else 0)"
  by (auto simp: entry_at_def walk_Cons dest: path_not_Nil)

lemma same_tables:
  assumes "\<And>x. x \<in> tabs sh s t \<Longrightarrow> m_table s' x = m_table s x"
  shows "tabs sh s' t = tabs sh s t" "tree sh s' t = tree sh s t" "path sh is \<Longrightarrow> walk s' t is = walk s t is"
    "path sh is \<Longrightarrow> entry_at s' t is = entry_at s t is"
proof -
  have "tabs sh s' t = tabs sh s t \<and> tree sh s' t = tree sh s t \<and> (\<forall>is. path sh is \<longrightarrow> walk s' t is = walk s t is \<and> entry_at s' t is = entry_at s t is)"
    using assms
  proof (induction sh arbitrary: t)
    case (Node f)
    have t: "m_table s' t = m_table s t" by (rule Node.prems) simp
    have p: "present_idx s' t = present_idx s t" by (simp add: present_idx_def t)
    have c: "m_table s' x = m_table s x" if "i \<in> present_idx s t" "x \<in> tabs (f i) s (child s t i)" for i x
      using that by (intro Node.prems) auto
    have ih: "tabs (f i) s' (child s t i) = tabs (f i) s (child s t i) \<and> tree (f i) s' (child s t i) = tree (f i) s (child s t i) \<and>
        (\<forall>is. path (f i) is \<longrightarrow> walk s' (child s t i) is = walk s (child s t i) is \<and> entry_at s' (child s t i) is = entry_at s (child s t i) is)"
      if "i \<in> present_idx s t" for i
      using Node.IH [of "f i" "child s t i"] c [OF that] by blast
    have "walk s' t is = walk s t is \<and> entry_at s' t is = entry_at s t is" if "path (Node f) is" for "is"
      using that ih by (auto simp: t walk_Cons entry_at_Cons path_not_Nil) (auto simp: present_idx_def)
    then show ?case using ih by (simp add: p t)
  qed (auto simp: entry_at_def)
  then show "tabs sh s' t = tabs sh s t" "tree sh s' t = tree sh s t" "path sh is \<Longrightarrow> walk s' t is = walk s t is"
    "path sh is \<Longrightarrow> entry_at s' t is = entry_at s t is" by auto
qed

lemma walk_tabs: "path sh is \<Longrightarrow> walk s t is = Some (x, i) \<Longrightarrow> x \<in> tabs sh s t \<and> i < 512"
proof (induction sh arbitrary: t "is")
  case (Node f)
  then obtain j js where "is": "is = j # js" "j < 512" "path (f j) js" by auto
  with Node.prems(2) have "present (m_table s t j)" "walk s (child s t j) js = Some (x, i)"
    by (auto simp: walk_Cons path_not_Nil split: if_splits)
  with Node.IH [OF _ "is"(3)] "is"(2) show ?case by (auto simp: present_idx_def)
qed auto

text \<open>Different paths lead to different places.\<close>

lemma walk_inj:
  "tree sh s t \<Longrightarrow> path sh is \<Longrightarrow> path sh js \<Longrightarrow> walk s t is = Some p \<Longrightarrow> walk s t js = Some p \<Longrightarrow> is = js"
proof (induction sh arbitrary: t "is" js)
  case (Node f)
  obtain i "is'" j js' where p: "is = i # is'" "js = j # js'" "i < 512" "j < 512" "path (f i) is'" "path (f j) js'"
    using Node.prems(2,3) by auto
  then have w: "present (m_table s t i)" "walk s (child s t i) is' = Some p" "present (m_table s t j)" "walk s (child s t j) js' = Some p"
    using Node.prems(4,5) by (auto simp: walk_Cons path_not_Nil split: if_splits)
  have "fst p \<in> tabs (f i) s (child s t i)" "fst p \<in> tabs (f j) s (child s t j)"
    using walk_tabs [OF p(5), of s _ "fst p" "snd p"] walk_tabs [OF p(6), of s _ "fst p" "snd p"] w by auto
  with Node.prems(1) p w have "i = j" by (auto simp: present_idx_def)
  with Node.IH [of "f i" "child s t i" "is'" js'] Node.prems(1) p w show ?case by (auto simp: present_idx_def)
qed auto

text \<open>Writing an entry at the end of a path.\<close>

lemma set_entry_table [simp]:
  "m_table (set_entry t i e s) x = (if x = t then (m_table s t)(i := e) else m_table s x)"
  "m_pmm (set_entry t i e s) = m_pmm s" "m_page (set_entry t i e s) = m_page s"
  by (auto simp: set_entry_def)

lemma walk_set_entry:
  "tree sh s t \<Longrightarrow> path sh is \<Longrightarrow> path sh js \<Longrightarrow> walk s t is = Some (x, i) \<Longrightarrow>
   walk (set_entry x i e s) t js = walk s t js \<and> tabs sh (set_entry x i e s) t = tabs sh s t \<and> tree sh (set_entry x i e s) t"
proof (induction sh arbitrary: t "is" js)
  case (Node f)
  obtain a "is'" b js' where p: "is = a # is'" "js = b # js'" "a < 512" "b < 512" "path (f a) is'" "path (f b) js'"
    using Node.prems(2,3) by auto
  then have w: "present (m_table s t a)" "walk s (child s t a) is' = Some (x, i)"
    using Node.prems(4) by (auto simp: walk_Cons path_not_Nil split: if_splits)
  let ?s = "set_entry x i e s"
  have x: "x \<in> tabs (f a) s (child s t a)" using walk_tabs [OF p(5) w(2)] by simp
  have tr: "tree (f a) s (child s t a)" and xt: "x \<noteq> t" using Node.prems(1) w(1) p(3) x by (auto simp: present_idx_def)
  have tt: "m_table ?s t = m_table s t" using xt by simp
  then have pi: "present_idx ?s t = present_idx s t" by (simp add: present_idx_def)
  have same: "tabs (f k) ?s (child s t k) = tabs (f k) s (child s t k) \<and> tree (f k) ?s (child s t k) \<and>
      (\<forall>ks. path (f k) ks \<longrightarrow> walk ?s (child s t k) ks = walk s (child s t k) ks)" if "k \<in> present_idx s t" for k
  proof (cases "k = a")
    case True
    then show ?thesis using Node.IH [OF rangeI tr p(5) _ w(2)] p(5) by blast
  next
    case False
    then have "x \<notin> tabs (f k) s (child s t k)" using Node.prems(1) that w(1) p(3) x by (auto simp: present_idx_def)
    then have "\<And>y. y \<in> tabs (f k) s (child s t k) \<Longrightarrow> m_table ?s y = m_table s y" by auto
    from same_tables [OF this] Node.prems(1) that show ?thesis by auto
  qed
  have "walk ?s t js = walk s t js"
    using same [of b] p by (simp add: walk_Cons path_not_Nil tt present_idx_def del: set_entry_table)
  moreover have "tabs (Node f) ?s t = tabs (Node f) s t" using same by (simp add: tt pi del: set_entry_table)
  moreover have "tree (Node f) ?s t" using same Node.prems(1) by (simp add: tt pi del: set_entry_table)
  ultimately show ?case by blast
qed auto

lemma entry_set_entry:
  assumes "tree sh s t" "path sh is" "path sh js" "walk s t is = Some (x, i)"
  shows "entry_at (set_entry x i e s) t js = (if js = is then e else entry_at s t js)"
proof -
  have w: "walk (set_entry x i e s) t js = walk s t js" using walk_set_entry [OF assms] by blast
  show ?thesis
  proof (cases "walk s t js")
    case None
    with assms(4) show ?thesis by (auto simp: entry_at_def w)
  next
    case (Some p)
    then show ?thesis using walk_inj [OF assms(1,2,3,4)] assms(4) by (cases p) (auto simp: entry_at_def w)
  qed
qed

section \<open>Making a path\<close>

fun make_path :: "u64 \<Rightarrow> nat \<Rightarrow> nat list \<Rightarrow> mmu \<Rightarrow> (mmu, (nat \<times> nat) \<times> mmu) outcome" where
  "make_path flags t [] s = Fault ''empty path''"
| "make_path flags t [i] s = Ret ((t, i), s)"
| "make_path flags t (i # j # js) s =
     obind (get_or_alloc_table t i flags s) (\<lambda>(c, s1). make_path flags c (j # js) s1)"

text \<open>The tables of a tree lie in frames that are marked used.\<close>

definition mmu_ok :: "shape \<Rightarrow> mmu \<Rightarrow> nat \<Rightarrow> bool" where
  "mmu_ok sh s t \<longleftrightarrow> pmm_inv (m_pmm s) \<and> tree sh s t \<and> (\<forall>x\<in>tabs sh s t. frame_used (m_pmm s) x)"

text \<open>What making a path may change outside the tree: only frames that were free.\<close>

definition grows :: "nat set \<Rightarrow> mmu \<Rightarrow> mmu \<Rightarrow> bool" where
  "grows X s s' \<longleftrightarrow>
     (\<forall>x. frame_used (m_pmm s) x \<longrightarrow> frame_used (m_pmm s') x \<and> m_page s' x = m_page s x \<and> (x \<in> X \<or> m_table s' x = m_table s x)) \<and>
     frame_refs (m_pmm s') = frame_refs (m_pmm s) \<and> total_frames (m_pmm s') = total_frames (m_pmm s)"

lemma grows_refl [simp]: "grows X s s"
  by (simp add: grows_def)

lemma grows_trans: "grows X s s1 \<Longrightarrow> grows X s1 s2 \<Longrightarrow> grows X s s2"
  by (simp add: grows_def) metis

lemma grows_mono: "grows X s s' \<Longrightarrow> X \<subseteq> Y \<Longrightarrow> grows Y s s'"
  by (auto simp: grows_def)

lemma frame_used_bound: "pmm_wf p \<Longrightarrow> frame_used p x \<Longrightarrow> x < 2 ^ 32"
  by (auto simp: pmm_wf_def frame_used_def bit_used_def split: option.splits)

lemma alloc_table_facts:
  assumes inv: "pmm_inv (m_pmm s)" and "alloc_table s = Ret (t, s')"
  shows "pmm_inv (m_pmm s')" "\<not> frame_used (m_pmm s) t" "frame_used (m_pmm s') t" "t < 2 ^ 32" "m_table s' t = (\<lambda>_. 0)"
    "grows {} s s'" "\<And>x. x \<noteq> t \<Longrightarrow> m_table s' x = m_table s x"
proof -
  from assms(2) obtain f p where f: "alloc_frame (m_pmm s) = Some (f, p)" and t: "t = unat f"
    and s': "s' = s\<lparr>m_pmm := p, m_table := (m_table s)(unat f := (\<lambda>_. 0)), m_page := (m_page s)(unat f := (\<lambda>_. 0))\<rparr>"
    by (auto simp: alloc_table_def split: option.splits)
  have wf: "pmm_wf (m_pmm s)" using inv by (simp add: pmm_inv_def)
  note a = alloc_frame_Some [OF wf f]
  show "pmm_inv (m_pmm s')" using frames.invar_alloc [OF inv f] by (simp add: s')
  show "\<not> frame_used (m_pmm s) t" "frame_used (m_pmm s') t" "m_table s' t = (\<lambda>_. 0)" "\<And>x. x \<noteq> t \<Longrightarrow> m_table s' x = m_table s x"
    using a by (auto simp: t s')
  show "t < 2 ^ 32" using unat_bounds(3) [of f] by (simp add: t)
  show "grows {} s s'" using a by (auto simp: grows_def s')
qed

text \<open>Entries that point to a table.\<close>

lemma present_bit: "present e \<longleftrightarrow> bit e 0"
  by (simp add: present_def MMU_PRESENT_def and_one_eq bit_0 mod2_eq_if)

lemma entry_bits:
  assumes "f < 2 ^ 32" "w < 0x1000"
  shows "frame_no (frame_addr f OR w) = f" "present (frame_addr f OR w) = present w"
    "frame_no (frame_addr f) = f"
proof -
  have "f * 4096 < 2 ^ 64" using assms(1) by simp
  then have "unat (frame_addr f) = f * 4096"
    using assms(1) by (simp add: frame_addr_def unat_word_ariths unat_of_nat)
  then have f: "unat (drop_bit 12 (frame_addr f)) = f" by (simp add: drop_bit_eq_div unat_div)
  have "unat w < 4096" using assms(2) by (simp add: word_less_nat_alt)
  then have w: "drop_bit 12 w = 0" by (simp add: drop_bit_eq_div unat_eq_0 [symmetric] unat_div)
  show "frame_no (frame_addr f OR w) = f" "frame_no (frame_addr f) = f"
    using f w by (simp_all add: frame_no_def)
  have fa: "frame_addr f = push_bit 12 (of_nat f)" by (simp add: frame_addr_def push_bit_eq_mult)
  show "present (frame_addr f OR w) = present w"
    by (simp add: present_bit fa bit_or_iff bit_push_bit_iff)
qed

text \<open>A tree that has grown, with every entry a path leads to unchanged.\<close>

definition ext :: "shape \<Rightarrow> mmu \<Rightarrow> nat \<Rightarrow> mmu \<Rightarrow> bool" where
  "ext sh s t s' \<longleftrightarrow> mmu_ok sh s' t \<and> tabs sh s t \<subseteq> tabs sh s' t \<and> (\<forall>x\<in>tabs sh s' t - tabs sh s t. \<not> frame_used (m_pmm s) x) \<and>
     grows (tabs sh s t) s s' \<and> (\<forall>is. path sh is \<longrightarrow> entry_at s' t is = entry_at s t is)"

lemma ext_refl: "mmu_ok sh s t \<Longrightarrow> ext sh s t s"
  by (simp add: ext_def)

lemma ext_trans:
  assumes "ext sh s t s1" "ext sh s1 t s2"
  shows "ext sh s t s2"
proof -
  have new: "\<not> frame_used (m_pmm s) x" if "x \<in> tabs sh s2 t - tabs sh s t" for x
    using that assms by (auto simp: ext_def grows_def)
  have "grows (tabs sh s t) s s2"
    using assms unfolding ext_def grows_def by (metis DiffI subsetD)
  with new assms show ?thesis by (auto simp: ext_def)
qed

lemma mmu_ok_child:
  assumes "mmu_ok (Node f) s t" "i \<in> present_idx s t"
  shows "mmu_ok (f i) s (child s t i)" "t \<notin> tabs (f i) s (child s t i)" "tabs (f i) s (child s t i) \<subseteq> tabs (Node f) s t"
  using assms by (auto simp: mmu_ok_def)

text \<open>A growing subtree.\<close>

lemma ext_child:
  assumes ok: "mmu_ok (Node f) s t" and i: "i \<in> present_idx s t" and e: "ext (f i) s (child s t i) s'"
  shows "ext (Node f) s t s'" "m_table s' t = m_table s t"
proof -
  let ?c = "child s t i"
  have used: "frame_used (m_pmm s) x" if "x \<in> tabs (Node f) s t" for x using ok that unfolding mmu_ok_def by blast
  have grow: "grows (tabs (f i) s ?c) s s'" and okc: "mmu_ok (f i) s' ?c" and new: "\<And>x. x \<in> tabs (f i) s' ?c \<Longrightarrow> x \<notin> tabs (f i) s ?c \<Longrightarrow> \<not> frame_used (m_pmm s) x"
    using e by (auto simp: ext_def)
  have keep: "m_table s' x = m_table s x" if "x \<in> tabs (Node f) s t" "x \<notin> tabs (f i) s ?c" for x
    using grow used [OF that(1)] that(2) by (auto simp: grows_def)
  show tt: "m_table s' t = m_table s t" using keep [of t] mmu_ok_child(2) [OF ok i] by simp
  then have pi: "present_idx s' t = present_idx s t" by (simp add: present_idx_def)
  have other: "tabs (f j) s' (child s t j) = tabs (f j) s (child s t j)" "tree (f j) s' (child s t j)"
    "path (f j) is \<Longrightarrow> entry_at s' (child s t j) is = entry_at s (child s t j) is"
    "tabs (f j) s (child s t j) \<inter> tabs (f i) s ?c = {}" if j: "j \<in> present_idx s t" "j \<noteq> i" for j "is"
  proof -
    show dis: "tabs (f j) s (child s t j) \<inter> tabs (f i) s ?c = {}" using ok i j by (auto simp: mmu_ok_def)
    have "m_table s' x = m_table s x" if "x \<in> tabs (f j) s (child s t j)" for x
      using keep [of x] that dis mmu_ok_child(3) [OF ok j(1)] by blast
    note same = same_tables [OF this]
    show "tabs (f j) s' (child s t j) = tabs (f j) s (child s t j)" by (rule same) auto
    show "tree (f j) s' (child s t j)" using same(2) mmu_ok_child(1) [OF ok j(1)] by (auto simp: mmu_ok_def)
    show "entry_at s' (child s t j) is = entry_at s (child s t j) is" if "path (f j) is" by (rule same(4)) (auto simp: that)
  qed
  have tabs': "tabs (Node f) s' t = insert t (tabs (f i) s' ?c \<union> (\<Union>j\<in>present_idx s t - {i}. tabs (f j) s (child s t j)))"
    using i other(1) by (auto simp: pi tt)
  have sub: "tabs (Node f) s t \<subseteq> tabs (Node f) s' t"
    using e i unfolding tabs' by (auto simp: ext_def)
  have fresh: "\<not> frame_used (m_pmm s) x" if "x \<in> tabs (Node f) s' t - tabs (Node f) s t" for x
    using that new i unfolding tabs' by auto
  have tree: "tree (Node f) s' t"
  proof -
    have ti: "t \<notin> tabs (f i) s' ?c" using new [of t] used [of t] mmu_ok_child(2) [OF ok i] by auto
    have dis: "tabs (f i) s' ?c \<inter> tabs (f j) s (child s t j) = {}" if j: "j \<in> present_idx s t" "j \<noteq> i" for j
      using other(4) [OF j] new used mmu_ok_child(3) [OF ok j(1)] by blast
    have one: "tree (f j) s' (child s t j)" "t \<notin> tabs (f j) s' (child s t j)" if j: "j \<in> present_idx s t" for j
      using ti okc other(1,2) mmu_ok_child(2) [OF ok j] j by (cases "j = i"; simp add: mmu_ok_def)+
    have "tabs (f j) s' (child s t j) \<inter> tabs (f k) s' (child s t k) = {}"
      if j: "j \<in> present_idx s t" and k: "k \<in> present_idx s t" and "j \<noteq> k" for j k
    proof (cases "j = i \<or> k = i")
      case True
      with dis other(1) that show ?thesis by (metis Int_commute)
    next
      case False
      with ok that other(1) show ?thesis by (simp add: mmu_ok_def)
    qed
    with one show ?thesis by (simp add: pi tt)
  qed
  have "frame_used (m_pmm s') x" if "x \<in> tabs (Node f) s' t" for x
    using that okc used grow mmu_ok_child(3) [OF ok] unfolding tabs' by (auto simp: mmu_ok_def grows_def)
  moreover have "entry_at s' t is = entry_at s t is" if p: "path (Node f) is" for "is"
  proof -
    obtain j js where js: "is = j # js" "j < 512" "path (f j) js" using p by auto
    show ?thesis using e other(3) [of j js] js by (cases "j = i") (auto simp: entry_at_Cons tt ext_def present_idx_def)
  qed
  moreover have "grows (tabs (Node f) s t) s s'" using grow mmu_ok_child(3) [OF ok i] by (rule grows_mono)
  ultimately show "ext (Node f) s t s'" using tree okc sub fresh by (auto simp: ext_def mmu_ok_def)
qed

text \<open>One level: the child table exists afterwards.\<close>

lemma entry_user: "frame_no (e OR MMU_USER) = frame_no e" "present (e OR MMU_USER) = present e"
proof -
  have "drop_bit 12 (MMU_USER) = 0" by (simp add: MMU_USER_def)
  then show "frame_no (e OR MMU_USER) = frame_no e" by (simp add: frame_no_def drop_bit_or)
  have "\<not> bit MMU_USER 0" by (simp add: MMU_USER_def)
  then show "present (e OR MMU_USER) = present e" by (simp add: present_bit bit_or_iff)
qed

lemma set_flag_ext:
  assumes ok: "mmu_ok (Node f) s t" and e: "frame_no e = child s t i" "present e = present (m_table s t i)"
  shows "ext (Node f) s t (set_entry t i e s)"
proof -
  let ?s = "set_entry t i e s"
  have c: "child ?s t j = child s t j" "present (m_table ?s t j) = present (m_table s t j)" for j
    using e by auto
  have pi: "present_idx ?s t = present_idx s t" by (simp add: present_idx_def c del: set_entry_table)
  have same: "tabs (f j) ?s (child s t j) = tabs (f j) s (child s t j)" "tree (f j) ?s (child s t j) = tree (f j) s (child s t j)"
    "path (f j) is \<Longrightarrow> entry_at ?s (child s t j) is = entry_at s (child s t j) is" if "j \<in> present_idx s t" for j "is"
    using mmu_ok_child(2) [OF ok that] by (intro same_tables; auto)+
  have "tabs (Node f) ?s t = tabs (Node f) s t" "tree (Node f) ?s t"
    using same ok by (simp_all add: pi c mmu_ok_def del: set_entry_table)
  moreover have "entry_at ?s t is = entry_at s t is" if p: "path (Node f) is" for "is"
  proof -
    obtain j js where js: "is = j # js" "j < 512" "path (f j) js" using p by auto
    show ?thesis using same(3) [of j js] js by (auto simp: entry_at_Cons c present_idx_def simp del: set_entry_table)
  qed
  ultimately show ?thesis using ok tabs_self [of "Node f" t s] by (simp add: ext_def mmu_ok_def grows_def del: tabs.simps tree.simps path.simps)
qed

lemma zero_table:
  assumes "m_table s t = (\<lambda>_. 0)"
  shows "tabs sh s t = (if sh = Skip then {} else {t})" "tree sh s t" "path sh is \<Longrightarrow> entry_at s t is = 0"
proof -
  have "\<not> present 0" by (simp add: present_def)
  then have p: "present_idx s t = {}" and z: "\<not> present (m_table s t i)" for i using assms by (auto simp: present_idx_def)
  show "tabs sh s t = (if sh = Skip then {} else {t})" "tree sh s t" using p by (cases sh; simp)+
  show "entry_at s t is = 0" if "path sh is"
    using that z assms by (cases sh) (auto simp: entry_at_Cons)
qed

lemma new_child_ext:
  assumes ok: "mmu_ok (Node f) s t" and i: "i < 512" "\<not> present (m_table s t i)" "f i \<noteq> Skip"
    and a: "alloc_table s = Ret (c, s1)" and w: "w < 0x1000" "present w"
  shows "ext (Node f) s t (set_entry t i (frame_addr c OR w) s1)"
proof -
  let ?s = "set_entry t i (frame_addr c OR w) s1"
  have used: "frame_used (m_pmm s) x" if "x \<in> tabs (Node f) s t" for x using ok that unfolding mmu_ok_def by blast
  have inv: "pmm_inv (m_pmm s)" using ok by (simp add: mmu_ok_def)
  note f = alloc_table_facts [OF inv a]
  have ct: "c \<noteq> t" using f(2) used [of t] by auto
  have e: "child ?s t i = c" "present (m_table ?s t i)" using entry_bits(1,2) [OF f(4) w(1)] w(2) by simp_all
  have tt: "m_table ?s t j = m_table s t j" if "j \<noteq> i" for j using that ct f(7) [of t] by auto
  have pi: "present_idx ?s t = insert i (present_idx s t)" "i \<notin> present_idx s t"
    using e i tt by (auto simp: present_idx_def simp del: set_entry_table) (metis tt)
  have mt: "m_table ?s x = m_table s x" if "x \<in> tabs (Node f) s t" "x \<noteq> t" for x
    using f(7) [of x] used [OF that(1)] f(2) that(2) by auto
  have same: "tabs (f j) ?s (child s t j) = tabs (f j) s (child s t j)" "tree (f j) ?s (child s t j) = tree (f j) s (child s t j)"
    "path (f j) is \<Longrightarrow> entry_at ?s (child s t j) is = entry_at s (child s t j) is" if "j \<in> present_idx s t" for j "is"
    using mmu_ok_child(2,3) [OF ok that] by (intro same_tables mt; auto)+
  have z: "m_table ?s c = (\<lambda>_. 0)" using ct f(5) by simp
  note z = zero_table [OF z]
  have cj: "child ?s t j = child s t j" "j \<noteq> i" if "j \<in> present_idx s t" for j
  proof -
    show "j \<noteq> i" using that pi(2) by auto
    then show "child ?s t j = child s t j" using tt [of j] by simp
  qed
  have tabs': "tabs (Node f) ?s t = insert c (tabs (Node f) s t)"
    using same(1) cj z(1) e i(3) by (auto simp: pi simp del: set_entry_table)
  have cn: "c \<notin> tabs (Node f) s t" using f(2) used by blast
  have tree: "tree (Node f) ?s t"
  proof -
    have "c \<notin> tabs (f j) s (child s t j)" if "j \<in> present_idx s t" for j
      using cn mmu_ok_child(3) [OF ok that] by blast
    then show ?thesis using ok same cj z e(1) ct pi(2) by (simp add: pi(1) mmu_ok_def del: set_entry_table)
  qed
  have "entry_at ?s t is = entry_at s t is" if p: "path (Node f) is" for "is"
  proof -
    obtain j js where js: "is = j # js" "j < 512" "path (f j) js" using p by auto
    show ?thesis using same(3) [of j js] js z(3) [of "f i" js] e i tt [of j] cj [of j]
      by (cases "j = i") (auto simp: entry_at_Cons present_idx_def simp del: set_entry_table)
  qed
  moreover have "grows (tabs (Node f) s t) s ?s" using f(6) by (auto simp: grows_def)
  moreover have "mmu_ok (Node f) ?s t"
    using f(1,3,6) used tree by (auto simp: mmu_ok_def tabs' grows_def simp del: tabs.simps tree.simps)
  ultimately show ?thesis using f(2) by (auto simp: ext_def tabs' simp del: tabs.simps)
qed

lemma get_or_alloc_ext:
  assumes ok: "mmu_ok (Node f) s t" and i: "i < 512" "f i \<noteq> Skip" and g: "get_or_alloc_table t i flags s = Ret (c, s')"
  shows "ext (Node f) s t s' \<and> i \<in> present_idx s' t \<and> child s' t i = c"
proof (cases "present (m_table s t i)")
  case True
  then show ?thesis using g i set_flag_ext [OF ok, of "m_table s t i OR MMU_USER" i] ext_refl [OF ok]
    by (auto simp: get_or_alloc_table_def Let_def entry_user present_idx_def split: if_splits)
next
  case False
  let ?w = "MMU_PRESENT OR MMU_WRITABLE OR MMU_USER"
  have w: "?w < 0x1000" "present ?w" by (simp_all add: present_def mmu_flags)
  from False g obtain s1 where a: "alloc_table s = Ret (c, s1)" and s': "s' = set_entry t i (frame_addr c OR ?w) s1"
    by (auto simp: get_or_alloc_table_def Let_def obind_Ret_iff or.assoc)
  have "pmm_inv (m_pmm s)" using ok by (simp add: mmu_ok_def)
  note f = alloc_table_facts(4) [OF this a]
  show ?thesis using new_child_ext [OF ok i(1) False i(2) a w] entry_bits [OF f w(1)] w(2) i by (simp add: s' present_idx_def)
qed

lemma make_path_ext:
  "mmu_ok sh s t \<Longrightarrow> path sh is \<Longrightarrow> make_path flags t is s = Ret (p, s') \<Longrightarrow> ext sh s t s' \<and> walk s' t is = Some p"
proof (induction sh arbitrary: t "is" s)
  case (Node f)
  then obtain i j js where "is": "is = i # j # js" "i < 512" "path (f i) (j # js)"
    by (metis neq_Nil_conv path.simps(3) path_not_Nil)
  then have ns: "f i \<noteq> Skip" by (cases "f i") auto
  with Node.prems(3) "is"(1) obtain c s1 where g: "get_or_alloc_table t i flags s = Ret (c, s1)"
    and m: "make_path flags c (j # js) s1 = Ret (p, s')" by (auto simp: obind_Ret_iff)
  have e1: "ext (Node f) s t s1" "i \<in> present_idx s1 t" "child s1 t i = c"
    using get_or_alloc_ext [OF Node.prems(1) "is"(2) ns g] by auto
  then have ok1: "mmu_ok (Node f) s1 t" by (simp add: ext_def)
  have e2: "ext (f i) s1 (child s1 t i) s'" "walk s' c (j # js) = Some p"
    using Node.IH [OF _ _ "is"(3) m] mmu_ok_child(1) [OF ok1 e1(2)] e1(3) by auto
  note e3 = ext_child [OF ok1 e1(2) e2(1)]
  show ?case using ext_trans [OF e1(1) e3(1)] e2(2) e1(2,3) "is"(1) e3(2) by (simp add: present_idx_def)
qed (auto simp: ext_refl)

section \<open>Running out of frames\<close>

text \<open>The frames the search can still find.\<close>

definition room :: "pmm \<Rightarrow> nat" where
  "room p = card {g. g < 32 * (unat (total_frames p) div 32) \<and> kernel_limit p \<le> g \<and> \<not> frame_used p g}"

lemma alloc_frame_room:
  assumes wf: "pmm_wf p" and r: "0 < room p"
  obtains f p' where "alloc_frame p = Some (f, p')" "room p \<le> Suc (room p')"
proof -
  obtain f p1 where ff: "pmm_first_free p = (f, p1)" by fastforce
  let ?F = "\<lambda>p. {g. g < 32 * (unat (total_frames p) div 32) \<and> kernel_limit p \<le> g \<and> \<not> frame_used p g}"
  have "?F p \<noteq> {}" using r unfolding room_def by (metis card.empty less_irrefl)
  then have f: "f \<noteq> 0xFFFFFFFF" using first_free_none [OF wf, of p1] ff by (auto simp: not_le [symmetric])
  note a = first_free_frame [OF wf ff] and b = first_free_found [OF wf ff f]
  let ?p = "pmm_set_frame f p1"
  have "?F p \<subseteq> insert (unat f) (?F ?p)"
    using a(1,3,4) a(7) b(1,2) by (auto simp: set_frame_used kernel_limit_def)
      (metis kernel_limit_def leD)+
  then have "card (?F p) \<le> card (insert (unat f) (?F ?p))" by (intro card_mono) simp_all
  also have "\<dots> \<le> Suc (card (?F ?p))" by (simp add: card_insert_if)
  finally have "room p \<le> Suc (room ?p)" by (simp only: room_def)
  then show thesis using that [of f ?p] ff f by (simp add: alloc_frame_def)
qed

lemma get_or_alloc_room:
  assumes inv: "pmm_inv (m_pmm s)" and r: "0 < room (m_pmm s)"
  obtains c s' where "get_or_alloc_table t i flags s = Ret (c, s')" "pmm_inv (m_pmm s')" "room (m_pmm s) \<le> Suc (room (m_pmm s'))"
proof (cases "present (m_table s t i)")
  case True
  then show thesis using inv that [of "child s t i"] by (simp add: get_or_alloc_table_def Let_def)
next
  case False
  from inv have wf: "pmm_wf (m_pmm s)" by (simp add: pmm_inv_def)
  from alloc_frame_room [OF this r] obtain f p where f: "alloc_frame (m_pmm s) = Some (f, p)" "room (m_pmm s) \<le> Suc (room p)" .
  with frames.invar_alloc [OF inv f(1)] False show thesis
    by (intro that) (auto simp: get_or_alloc_table_def Let_def alloc_table_def)
qed

lemma make_path_room:
  "pmm_inv (m_pmm s) \<Longrightarrow> is \<noteq> [] \<Longrightarrow> length is \<le> Suc (room (m_pmm s)) \<Longrightarrow> \<exists>p s'. make_path flags t is s = Ret (p, s')"
proof (induction flags t "is" s rule: make_path.induct)
  case (3 flags t i j js s)
  from "3.prems" obtain c s1 where g: "get_or_alloc_table t i flags s = Ret (c, s1)" "pmm_inv (m_pmm s1)"
    "room (m_pmm s) \<le> Suc (room (m_pmm s1))"
    using get_or_alloc_room [of s t i flags] by auto
  with "3.IH" "3.prems" show ?case by auto
qed auto

section \<open>Mapping a page\<close>

definition indices :: "u64 \<Rightarrow> nat list" where
  "indices v = [PML4_IDX v, PDPT_IDX v, PD_IDX v, PT_IDX v]"

text \<open>The page an address lies in: bits 12 to 47.\<close>

definition vpn :: "u64 \<Rightarrow> u64" where "vpn v = take_bit 36 (drop_bit 12 v)"

lemma mask9: "x AND 0x1FF = take_bit 9 (x :: u64)"
  by (simp add: take_bit_eq_mask mask_eq_exp_minus_1)

lemma idx_less: "unat (take_bit 9 (x :: u64)) < 512"
proof -
  have "take_bit 9 x < 512" by (simp add: take_bit_eq_mod word_less_nat_alt unat_mod)
  then show ?thesis by (simp add: word_less_nat_alt)
qed

text \<open>A whole address space: three levels of inner tables.\<close>

definition full :: shape where "full = Node (\<lambda>_. Node (\<lambda>_. Node (\<lambda>_. Leaf)))"

lemma indices_less: "\<forall>i\<in>set (indices v). i < 512"
  by (simp add: indices_def PML4_IDX_def PDPT_IDX_def PD_IDX_def PT_IDX_def mask9 idx_less)

lemma path_full: "path full (indices v)"
  using indices_less [of v] by (simp add: full_def indices_def)

lemma same_bits:
  fixes v w :: u64
  assumes "k + m \<le> 64"
  shows "take_bit m (drop_bit k v) = take_bit m (drop_bit k w) \<longleftrightarrow> (\<forall>n. k \<le> n \<and> n < k + m \<longrightarrow> bit v n = bit w n)"
proof -
  have "(\<forall>n<64. (n < m \<and> bit v (k + n)) = (n < m \<and> bit w (k + n))) \<longleftrightarrow> (\<forall>n<m. bit v (k + n) = bit w (k + n))"
    using assms by (metis add_leD2 less_le_trans)
  also have "\<dots> \<longleftrightarrow> (\<forall>n. k \<le> n \<and> n < k + m \<longrightarrow> bit v n = bit w n)"
    by (metis add_less_cancel_left le_add1 le_add_diff_inverse)
  finally show ?thesis by (simp add: bit_eq_iff bit_take_bit_iff bit_drop_bit_eq)
qed

lemma range_split:
  "a \<le> b \<Longrightarrow> b \<le> c \<Longrightarrow> (\<forall>n::nat. a \<le> n \<and> n < c \<longrightarrow> P n) \<longleftrightarrow> (\<forall>n. b \<le> n \<and> n < c \<longrightarrow> P n) \<and> (\<forall>n. a \<le> n \<and> n < b \<longrightarrow> P n)"
  by (meson le_trans less_le_trans not_le)

lemma indices_inject: "indices v = indices w \<longleftrightarrow> vpn v = vpn w"
proof -
  let ?P = "\<lambda>n. bit v n = bit w n"
  have "indices v = indices w \<longleftrightarrow>
    (\<forall>n. 39 \<le> n \<and> n < 48 \<longrightarrow> bit v n = bit w n) \<and> (\<forall>n. 30 \<le> n \<and> n < 39 \<longrightarrow> bit v n = bit w n) \<and>
    (\<forall>n. 21 \<le> n \<and> n < 30 \<longrightarrow> bit v n = bit w n) \<and> (\<forall>n. 12 \<le> n \<and> n < 21 \<longrightarrow> bit v n = bit w n)"
    by (simp add: indices_def PML4_IDX_def PDPT_IDX_def PD_IDX_def PT_IDX_def mask9 word_unat_eq_iff [symmetric] same_bits)
  also have "\<dots> \<longleftrightarrow> (\<forall>n. 12 \<le> n \<and> n < 48 \<longrightarrow> bit v n = bit w n)"
    using range_split [of 12 21 30 ?P] range_split [of 12 30 39 ?P] range_split [of 12 39 48 ?P] by (simp only: conj_assoc)
  finally show ?thesis by (simp add: vpn_def same_bits)
qed

text \<open>The last-level entry of an address, zero where a table is missing.\<close>

definition pte :: "mmu \<Rightarrow> mmu_context \<Rightarrow> u64 \<Rightarrow> u64" where
  "pte s ctx v = (case mmu_get_entry ctx v s of None \<Rightarrow> 0 | Some (t, i) \<Rightarrow> m_table s t i)"

lemma get_entry_walk: "mmu_get_entry ctx v s = walk s ctx (indices v)"
  by (simp add: mmu_get_entry_def indices_def Let_def)

lemma pte_entry: "pte s ctx v = entry_at s ctx (indices v)"
  by (simp add: pte_def get_entry_walk entry_at_def)

lemma map_page_path:
  "mmu_map_page ctx virt phys flags s =
     obind (make_path flags ctx (indices virt) s) (\<lambda>((t, i), s'). Ret (set_entry t i ((phys AND NOT 0xFFF) OR flags OR MMU_PRESENT) s'))"
  by (simp add: mmu_map_page_def indices_def obind_assoc split_def)

lemma get_page_path:
  "get_page v True ctx s =
     (case mmu_get_entry ctx v s of Some p \<Rightarrow> Ret (Some p, s)
      | None \<Rightarrow> obind (make_path (MMU_WRITABLE OR MMU_PRESENT OR MMU_USER) ctx (indices v) s) (\<lambda>(p, s'). Ret (Some p, s')))"
  by (simp add: get_page_def indices_def Let_def obind_assoc split_def split: option.split)

lemma set_leaf:
  assumes ok: "mmu_ok sh s ctx" and p: "path sh (indices virt)" and w: "walk s ctx (indices virt) = Some (t, i)"
  shows "mmu_ok sh (set_entry t i e s) ctx" "tabs sh (set_entry t i e s) ctx = tabs sh s ctx"
    "path sh (indices v) \<Longrightarrow> pte (set_entry t i e s) ctx v = (if vpn v = vpn virt then e else pte s ctx v)"
proof -
  have tr: "tree sh s ctx" using ok by (simp add: mmu_ok_def)
  note a = walk_set_entry [OF tr p p w, of e]
  show "mmu_ok sh (set_entry t i e s) ctx" "tabs sh (set_entry t i e s) ctx = tabs sh s ctx" using a ok by (auto simp: mmu_ok_def)
  show "pte (set_entry t i e s) ctx v = (if vpn v = vpn virt then e else pte s ctx v)" if "path sh (indices v)"
    using entry_set_entry [OF tr p that w, of e] by (simp add: pte_entry indices_inject)
qed

lemma unmap_page_pte:
  assumes ok: "mmu_ok sh s ctx" and p: "path sh (indices virt)" "path sh (indices v)"
  shows "pte (mmu_unmap_page ctx virt s) ctx v = (if vpn v = vpn virt then 0 else pte s ctx v)"
proof (cases "mmu_get_entry ctx virt s")
  case None
  moreover have "pte s ctx v = 0" if "vpn v = vpn virt"
    using that None indices_inject [of v virt] by (simp add: pte_def get_entry_walk)
  ultimately show ?thesis by (simp add: mmu_unmap_page_def)
next
  case (Some q)
  then show ?thesis using set_leaf(3) [OF ok p(1) _ p(2)] by (cases q) (simp add: mmu_unmap_page_def get_entry_walk)
qed

lemma map_page_ext:
  assumes ok: "mmu_ok sh s ctx" and p: "path sh (indices virt)" and m: "mmu_map_page ctx virt phys flags s = Ret s'"
  shows "mmu_ok sh s' ctx" "grows (tabs sh s ctx) s s'" "\<And>x. x \<in> tabs sh s' ctx - tabs sh s ctx \<Longrightarrow> \<not> frame_used (m_pmm s) x"
    "\<And>v. path sh (indices v) \<Longrightarrow> pte s' ctx v = (if vpn v = vpn virt then (phys AND NOT 0xFFF) OR flags OR MMU_PRESENT else pte s ctx v)"
proof -
  let ?e = "(phys AND NOT 0xFFF) OR flags OR MMU_PRESENT"
  from m obtain t i s1 where m: "make_path flags ctx (indices virt) s = Ret ((t, i), s1)" and s': "s' = set_entry t i ?e s1"
    by (auto simp: map_page_path obind_Ret_iff)
  have e: "ext sh s ctx s1" and w: "walk s1 ctx (indices virt) = Some (t, i)"
    using make_path_ext [OF ok p m] by auto
  then have ok1: "mmu_ok sh s1 ctx" by (simp add: ext_def)
  note l = set_leaf [OF ok1 p w, where e = ?e, folded s']
  show "mmu_ok sh s' ctx" by (rule l(1))
  show "\<And>x. x \<in> tabs sh s' ctx - tabs sh s ctx \<Longrightarrow> \<not> frame_used (m_pmm s) x" using e l(2) by (simp add: ext_def)
  show "pte s' ctx v = (if vpn v = vpn virt then ?e else pte s ctx v)" if "path sh (indices v)" for v
    using l(3) [OF that] e that by (simp add: pte_entry ext_def)
  have "t \<in> tabs sh s ctx \<or> \<not> frame_used (m_pmm s) t" using walk_tabs [OF p w] e by (auto simp: ext_def)
  then show "grows (tabs sh s ctx) s s'" using e unfolding s' ext_def grows_def by auto
qed

text \<open>
  C21. Mapping a page in an address space whose tables form a tree of frames in use: it returns if
  three frames can still be found; when it returns, the entry of every address of that page is the new
  one, the entry of every other address is what it was, unmapping it again clears just that entry, the
  tables again form a tree, any new table lies in a frame that was free, and outside the tree no table, no
  page in use and no reference count changed.
\<close>

theorem map_page_maps:
  assumes ok: "mmu_ok full s ctx"
  shows "(3 \<le> room (m_pmm s) \<longrightarrow> (\<exists>s'. mmu_map_page ctx virt phys flags s = Ret s')) \<and>
    (\<forall>s'. mmu_map_page ctx virt phys flags s = Ret s' \<longrightarrow>
      mmu_ok full s' ctx \<and> grows (tabs full s ctx) s s' \<and> (\<forall>x\<in>tabs full s' ctx - tabs full s ctx. \<not> frame_used (m_pmm s) x) \<and>
      (\<forall>v. pte s' ctx v = (if vpn v = vpn virt then (phys AND NOT 0xFFF) OR flags OR MMU_PRESENT else pte s ctx v)) \<and>
      (\<forall>v. pte (mmu_unmap_page ctx virt s') ctx v = (if vpn v = vpn virt then 0 else pte s ctx v)))"
proof (intro conjI impI allI)
  assume "3 \<le> room (m_pmm s)"
  then show "\<exists>s'. mmu_map_page ctx virt phys flags s = Ret s'"
    using make_path_room [of s "indices virt" flags ctx] ok by (auto simp: map_page_path mmu_ok_def indices_def)
next
  fix s' assume "mmu_map_page ctx virt phys flags s = Ret s'"
  note m = map_page_ext [OF ok path_full this]
  show "mmu_ok full s' ctx" "grows (tabs full s ctx) s s'" "\<forall>x\<in>tabs full s' ctx - tabs full s ctx. \<not> frame_used (m_pmm s) x"
    using m(1-3) by blast+
  show "pte s' ctx v = (if vpn v = vpn virt then (phys AND NOT 0xFFF) OR flags OR MMU_PRESENT else pte s ctx v)" for v
    by (rule m(4) [OF path_full])
  show "pte (mmu_unmap_page ctx virt s') ctx v = (if vpn v = vpn virt then 0 else pte s ctx v)" for v
    using unmap_page_pte [OF m(1) path_full path_full, of virt v] m(4) [OF path_full, of v] by simp
qed

definition small_mmu :: mmu where
  "small_mmu = \<lparr>m_pmm = small_pmm, m_table = (\<lambda>_ _. 0), m_page = (\<lambda>_ _. 0)\<rparr>"

lemma small_mmu_ok: "mmu_ok full small_mmu 4" "3 \<le> room (m_pmm small_mmu)"
proof -
  have "frame_used small_pmm 4" by code_simp
  moreover have "m_table small_mmu 4 = (\<lambda>_. 0)" "m_pmm small_mmu = small_pmm" "full \<noteq> Skip" by (simp_all add: small_mmu_def full_def)
  ultimately show "mmu_ok full small_mmu 4"
    using zero_table [of small_mmu 4 full] small_pmm_wf(2) by (simp add: mmu_ok_def)
  have "{7, 8, 9} \<subseteq> {g. g < 32 * (unat (total_frames small_pmm) div 32) \<and> kernel_limit small_pmm \<le> g \<and> \<not> frame_used small_pmm g}"
    by (simp, code_simp)
  then have "card {7::nat, 8, 9} \<le> room small_pmm" unfolding room_def by (intro card_mono) simp_all
  then show "3 \<le> room (m_pmm small_mmu)" by (simp add: small_mmu_def)
qed

theorem map_page_maps_witness:
  "\<exists>s'. mmu_map_page 4 0x80000000 0x9000 7 small_mmu = Ret s' \<and> pte s' 4 0x80000123 = 0x9007 \<and> pte s' 4 0x80001123 = pte small_mmu 4 0x80001123"
proof -
  note m = map_page_maps [OF small_mmu_ok(1), of "0x80000000" "0x9000" 7]
  then obtain s' where s': "mmu_map_page 4 0x80000000 0x9000 7 small_mmu = Ret s'" using small_mmu_ok(2) by blast
  have v: "vpn 0x80000123 = vpn 0x80000000" "vpn 0x80001123 \<noteq> vpn 0x80000000"
    "(0x9000 AND NOT 0xFFF) OR 7 OR MMU_PRESENT = 0x9007" by code_simp+
  from m s' v show ?thesis by auto
qed

end
