(* ===== verification/Cow.thy ===== *)
theory Cow
  imports MmuTree
begin

text \<open>
  Copying an address space.
  The copy of a tree of tables: fresh tables with the same entries, writable user pages of both trees made
  copy-on-write, and one more reference to each frame for every entry that leads to it.
\<close>

section \<open>Copying along a shape\<close>

text \<open>The part of an address space that is copied; the rest is shared with the kernel.\<close>

definition user_part :: shape where
  "user_part = Node (\<lambda>i. if 256 \<le> i then Skip
     else if i = 0 then Node (\<lambda>j. if j = 0 then Node (\<lambda>k. if k < 64 then Skip else Leaf) else Node (\<lambda>_. Leaf))
     else Node (\<lambda>_. Node (\<lambda>_. Leaf)))"

primrec clone_shape :: "shape \<Rightarrow> nat \<Rightarrow> mmu \<Rightarrow> (mmu, nat \<times> mmu) outcome" where
  "clone_shape Skip = share"
| "clone_shape Leaf = clone_table 0 True"
| "clone_shape (Node f) = (\<lambda>src s.
     obind (alloc_table s) (\<lambda>(t, s1).
       obind (clone_children (\<lambda>i. clone_shape (f i)) src t [0..<512] s1) (\<lambda>s2. Ret (t, s2))))"

lemma clone_table_shape:
  "clone_table 1 True = clone_shape (Node (\<lambda>_. Leaf))"
  "clone_table 2 True = clone_shape (Node (\<lambda>_. Node (\<lambda>_. Leaf)))"
  by (simp_all add: numeral_2_eq_2 fun_eq_iff)

lemma mmu_clone_user_shape: "mmu_clone_user = clone_shape user_part"
proof -
  have pd: "clone_first_pd = clone_shape (Node (\<lambda>k. if k < 64 then Skip else Leaf))"
    by (simp add: fun_eq_iff clone_first_pd_def if_distrib [of clone_shape] cong: if_cong)
  have pdpt: "clone_first_pdpt = clone_shape (Node (\<lambda>j. if j = 0 then Node (\<lambda>k. if k < 64 then Skip else Leaf) else Node (\<lambda>_. Leaf)))"
    unfolding fun_eq_iff clone_first_pdpt_def pd clone_table_shape
    by (simp only: clone_shape.simps(3) if_distrib [of clone_shape]) simp
  show ?thesis
    unfolding fun_eq_iff mmu_clone_user_def user_part_def clone_table_shape pdpt
    by (simp only: clone_shape.simps(1,3) if_distrib [of clone_shape]) simp
qed

section \<open>Leaves\<close>

definition leaves :: "shape \<Rightarrow> mmu \<Rightarrow> nat \<Rightarrow> nat \<Rightarrow> nat list set" where
  "leaves sh s t g = {is. path sh is \<and> present (entry_at s t is) \<and> frame_no (entry_at s t is) = g}"

lemma finite_paths: "finite {is. path sh is}"
proof (induction sh)
  case Leaf
  have "{is. path Leaf is} = (\<lambda>i. [i]) ` {..<512}" by auto
  then show ?case by simp
next
  case (Node f)
  have "{is. path (Node f) is} = (\<Union>i<512. (#) i ` {js. path (f i) js})" by auto
  with Node show ?case by auto
qed simp

lemma finite_leaves [simp]: "finite (leaves sh s t g)"
  unfolding leaves_def by (rule finite_subset [OF _ finite_paths [of sh]]) auto

lemma leaves_Node:
  "leaves (Node f) s t g = (\<Union>i\<in>present_idx s t. (#) i ` leaves (f i) s (child s t i) g)"
proof -
  have "\<not> present 0" by (simp add: present_def)
  then show ?thesis by (auto simp: leaves_def present_idx_def entry_at_Cons split: if_splits)
qed

lemma card_leaves_Node:
  "card (leaves (Node f) s t g) = (\<Sum>i\<in>present_idx s t. card (leaves (f i) s (child s t i) g))"
proof -
  have "finite (present_idx s t)" by (simp add: present_idx_def)
  then show ?thesis unfolding leaves_Node by (subst card_UN_disjoint) (auto simp: card_image)
qed

lemma card_leaves_Leaf: "card (leaves Leaf s t g) = card {i \<in> set [0..<512]. present (m_table s t i) \<and> child s t i = g}"
proof -
  have "leaves Leaf s t g = (\<lambda>i. [i]) ` {i \<in> set [0..<512]. present (m_table s t i) \<and> child s t i = g}"
    by (auto simp: leaves_def)
  then show ?thesis by (simp only: card_image inj_on_def) (simp add: card_image inj_on_def)
qed

lemma frame_no_low:
  assumes "w < 0x1000"
  shows "frame_no (e OR w) = frame_no e" "frame_no (e AND NOT w) = frame_no e"
proof -
  have "unat w < 4096" using assms by (simp add: word_less_nat_alt)
  then have w: "drop_bit 12 w = 0" by (simp add: drop_bit_eq_div unat_eq_0 [symmetric] unat_div)
  then show "frame_no (e OR w) = frame_no e" by (simp add: frame_no_def drop_bit_or)
  have "drop_bit 12 (e AND NOT w) = drop_bit 12 e"
    using w by (auto simp: bit_eq_iff bit_drop_bit_eq bit_and_iff bit_not_iff) (drule bit_imp_le_length, simp)
  then show "frame_no (e AND NOT w) = frame_no e" by (simp add: frame_no_def)
qed

lemma cow_entry_bits: "present (cow_entry e) = present e" "frame_no (cow_entry e) = frame_no e"
proof -
  have "MMU_WRITABLE < 0x1000" "MMU_COW < 0x1000" by (simp_all add: mmu_flags)
  then show "frame_no (cow_entry e) = frame_no e" by (simp add: cow_entry_def frame_no_low)
  have "bit (NOT MMU_WRITABLE) 0" "\<not> bit MMU_COW 0" by (simp_all add: mmu_flags bit_not_iff)
  then show "present (cow_entry e) = present e"
    by (simp add: cow_entry_def present_bit bit_or_iff bit_and_iff)
qed

lemma refs_bound: "pmm_wf p \<Longrightarrow> 0 < frame_refs p g \<Longrightarrow> g < unat (total_frames p) \<and> g < 2 ^ 32"
  by (auto simp: frame_refs_def elim!: pmm_wfE split: if_splits)

lemma unat_frame: "g < 2 ^ 32 \<Longrightarrow> unat (of_nat g :: u32) = g"
  by (simp add: unat_of_nat)

lemma add_ref_facts:
  assumes inv: "pmm_inv p" and g: "0 < frame_refs p g" "frame_refs p g < 255"
  shows "frame_refs (frame_add_ref (of_nat g) p) h = frame_refs p h + (if h = g then 1 else 0)"
    "frame_used (frame_add_ref (of_nat g) p) h = frame_used p h"
    "pmm_inv (frame_add_ref (of_nat g) p)"
proof -
  have wf: "pmm_wf p" using inv by (simp add: pmm_inv_def)
  note b = refs_bound [OF wf g(1)]
  have u: "unat (of_nat g :: u32) = g" using b by (simp only: unat_frame)
  show "frame_refs (frame_add_ref (of_nat g) p) h = frame_refs p h + (if h = g then 1 else 0)"
    using add_ref_refs [OF wf, of "of_nat g" h] b g(2) u by simp
  show "frame_used (frame_add_ref (of_nat g) p) h = frame_used p h"
    using add_ref_used [OF wf, of "of_nat g" h] b g(1) u by auto
  show "pmm_inv (frame_add_ref (of_nat g) p)" by (rule add_ref_inv [OF inv])
qed

text \<open>Copying the entries of a last-level table.\<close>

definition leaf_copied :: "nat \<Rightarrow> nat \<Rightarrow> nat set \<Rightarrow> mmu \<Rightarrow> mmu \<Rightarrow> bool" where
  "leaf_copied src t X s s' \<longleftrightarrow>
     pmm_inv (m_pmm s') \<and> frame_used (m_pmm s') = frame_used (m_pmm s) \<and> total_frames (m_pmm s') = total_frames (m_pmm s) \<and>
     m_page s' = m_page s \<and> (\<forall>x. x \<noteq> src \<and> x \<noteq> t \<longrightarrow> m_table s' x = m_table s x) \<and>
     (\<forall>i. m_table s' src i = (if i \<in> X \<and> present (m_table s src i) then cow_entry (m_table s src i) else m_table s src i)) \<and>
     (\<forall>i. m_table s' t i = (if i \<in> X \<and> present (m_table s src i) then cow_entry (m_table s src i) else m_table s t i)) \<and>
     (\<forall>g. frame_refs (m_pmm s') g = frame_refs (m_pmm s) g + card {i \<in> X. present (m_table s src i) \<and> child s src i = g})"

lemma clone_leaf_copied:
  assumes "pmm_inv (m_pmm s)" "src \<noteq> t" "present (m_table s src i)"
    "0 < frame_refs (m_pmm s) (child s src i)" "frame_refs (m_pmm s) (child s src i) < 255"
  shows "leaf_copied src t {i} s (clone_leaf True src t i s)"
proof -
  have "{j. j = i \<and> present (m_table s src j) \<and> child s src j = g} = (if child s src i = g then {i} else {})" for g
    using assms(3) by auto
  then show ?thesis
    using assms add_ref_facts [OF assms(1,4,5)]
    by (auto simp: leaf_copied_def clone_leaf_def Let_def cow_entry_bits fun_eq_iff)
qed

lemma leaf_copied_trans:
  assumes a: "leaf_copied src t X s s1" and b: "leaf_copied src t Y s1 s2" and "X \<inter> Y = {}" "finite X" "finite Y" "src \<noteq> t"
  shows "leaf_copied src t (X \<union> Y) s s2"
proof -
  have "present (m_table s1 src i) = present (m_table s src i)" "child s1 src i = child s src i" for i
    using a by (auto simp: leaf_copied_def cow_entry_bits)
  moreover have "m_table s1 src i = m_table s src i" if "i \<in> Y" for i using a assms(3) that by (auto simp: leaf_copied_def)
  moreover have "card {i \<in> X \<union> Y. P i} = card {i \<in> X. P i} + card {i \<in> Y. P i}" for P
    using assms(3-5) by (subst card_Un_disjoint [symmetric]) (auto intro: arg_cong [of _ _ card])
  ultimately show ?thesis using a b assms(3) unfolding leaf_copied_def by (auto simp: cow_entry_bits)
qed

lemma clone_leaves_copied:
  assumes "pmm_inv (m_pmm s)" "src \<noteq> t" "distinct xs"
    "\<forall>i\<in>set xs. present (m_table s src i) \<longrightarrow> 0 < frame_refs (m_pmm s) (child s src i)"
    "\<forall>g. frame_refs (m_pmm s) g + card {i \<in> set xs. present (m_table s src i) \<and> child s src i = g} \<le> 255"
  shows "leaf_copied src t (set xs) s (clone_leaves True src t xs s)"
  using assms
proof (induction xs arbitrary: s)
  case Nil
  then show ?case by (simp add: leaf_copied_def)
next
  case (Cons a xs)
  define s1 where "s1 = (if present (m_table s src a) then clone_leaf True src t a s else s)"
  have card: "card {i \<in> set (a # xs). P i} = (if P a then 1 else 0) + card {i \<in> set xs. P i}" for P
  proof -
    have "{i \<in> set (a # xs). P i} = (if P a then insert a {i \<in> set xs. P i} else {i \<in> set xs. P i})" by auto
    then show ?thesis using Cons.prems(3) by simp
  qed
  have bound: "frame_refs (m_pmm s) g + (if present (m_table s src a) \<and> child s src a = g then 1 else 0) +
      card {i \<in> set xs. present (m_table s src i) \<and> child s src i = g} \<le> 255" for g
    using Cons.prems(5) [rule_format, of g] unfolding card by simp
  have one: "leaf_copied src t {a} s s1"
  proof (cases "present (m_table s src a)")
    case True
    then show ?thesis using Cons.prems bound [of "child s src a"] unfolding s1_def
      by (simp add: clone_leaf_copied)
  next
    case False
    then have "{i. i = a \<and> present (m_table s src i) \<and> child s src i = g} = {}" for g by auto
    with False Cons.prems(1) show ?thesis by (auto simp: leaf_copied_def s1_def)
  qed
  have rest: "m_table s1 src i = m_table s src i" if "i \<in> set xs" for i
    using one that Cons.prems(3) by (auto simp: leaf_copied_def)
  have refs: "frame_refs (m_pmm s1) g = frame_refs (m_pmm s) g + (if present (m_table s src a) \<and> child s src a = g then 1 else 0)" for g
  proof -
    have "{i. i = a \<and> present (m_table s src i) \<and> child s src i = g} = (if present (m_table s src a) \<and> child s src a = g then {a} else {})" by auto
    then show ?thesis using one by (simp add: leaf_copied_def)
  qed
  have "leaf_copied src t (set xs) s1 (clone_leaves True src t xs s1)"
  proof (rule Cons.IH)
    show "pmm_inv (m_pmm s1)" using one by (simp add: leaf_copied_def)
    show "\<forall>i\<in>set xs. present (m_table s1 src i) \<longrightarrow> 0 < frame_refs (m_pmm s1) (child s1 src i)"
      using Cons.prems(4) by (simp add: rest refs)
    show "\<forall>g. frame_refs (m_pmm s1) g + card {i \<in> set xs. present (m_table s1 src i) \<and> child s1 src i = g} \<le> 255"
      using bound by (simp add: rest refs cong: conj_cong)
  qed (use Cons.prems in auto)
  from leaf_copied_trans [OF one this] Cons.prems(2,3) show ?case by (simp add: s1_def)
qed

section \<open>Copying a tree\<close>

text \<open>What a step may change: nothing in use but the given tables, and it forgets no frame.\<close>

definition touches :: "nat set \<Rightarrow> mmu \<Rightarrow> mmu \<Rightarrow> bool" where
  "touches X s s' \<longleftrightarrow> pmm_inv (m_pmm s') \<and> total_frames (m_pmm s') = total_frames (m_pmm s) \<and>
     (\<forall>x. frame_used (m_pmm s) x \<longrightarrow> frame_used (m_pmm s') x \<and> m_page s' x = m_page s x \<and> (x \<in> X \<or> m_table s' x = m_table s x))"

lemma touches_trans: "touches X s s1 \<Longrightarrow> touches Y s1 s2 \<Longrightarrow> X \<union> Y \<subseteq> Z \<Longrightarrow> touches Z s s2"
  unfolding touches_def by (metis UnI1 UnI2 subsetD)

lemma touchesD:
  "touches X s s' \<Longrightarrow> frame_used (m_pmm s) x \<Longrightarrow> x \<notin> X \<Longrightarrow> m_table s' x = m_table s x"
  "touches X s s' \<Longrightarrow> frame_used (m_pmm s) x \<Longrightarrow> frame_used (m_pmm s') x"
  "touches X s s' \<Longrightarrow> frame_used (m_pmm s) x \<Longrightarrow> m_page s' x = m_page s x"
  by (auto simp: touches_def)

definition cowed :: "u64 \<Rightarrow> u64" where
  "cowed e = (if present e then cow_entry e else e)"

definition copied :: "shape \<Rightarrow> mmu \<Rightarrow> nat \<Rightarrow> nat \<Rightarrow> mmu \<Rightarrow> bool" where
  "copied sh s src t s' \<longleftrightarrow> tree sh s' src \<and> tabs sh s' src = tabs sh s src \<and> tree sh s' t \<and>
     (\<forall>x\<in>tabs sh s' t. \<not> frame_used (m_pmm s) x \<and> frame_used (m_pmm s') x) \<and>
     (\<forall>is. path sh is \<longrightarrow> entry_at s' src is = cowed (entry_at s src is) \<and>
        entry_at s' t is = (if present (entry_at s src is) then cowed (entry_at s src is) else 0))"

lemma copied_later:
  assumes c: "copied sh s src t s1"
    and same: "\<And>x. x \<in> tabs sh s src \<union> tabs sh s1 t \<Longrightarrow> m_table s2 x = m_table s1 x \<and> (frame_used (m_pmm s1) x \<longrightarrow> frame_used (m_pmm s2) x)"
  shows "copied sh s src t s2" "tabs sh s2 t = tabs sh s1 t"
proof -
  have t: "tabs sh s1 src = tabs sh s src" using c by (simp add: copied_def)
  have a: "\<And>x. x \<in> tabs sh s1 src \<Longrightarrow> m_table s2 x = m_table s1 x" using same by (simp add: t)
  have b: "\<And>x. x \<in> tabs sh s1 t \<Longrightarrow> m_table s2 x = m_table s1 x" using same by simp
  note A = same_tables [of sh s1 src s2, OF a] and B = same_tables [of sh s1 t s2, OF b]
  show tt: "tabs sh s2 t = tabs sh s1 t" by (rule B)
  show "copied sh s src t s2"
    using c same t A(1,2,4) B(1,2,4) unfolding copied_def by auto
qed

lemma copied_earlier:
  assumes c: "copied sh s src t s'"
    and same: "\<And>x. x \<in> tabs sh s0 src \<Longrightarrow> m_table s x = m_table s0 x" "\<And>x. frame_used (m_pmm s0) x \<Longrightarrow> frame_used (m_pmm s) x"
  shows "copied sh s0 src t s'"
proof -
  note A = same_tables [of sh s0 src s, OF same(1)]
  show ?thesis using c same(2) unfolding copied_def by (auto simp: A)
qed

definition refs_ok :: "shape \<Rightarrow> mmu \<Rightarrow> nat \<Rightarrow> bool" where
  "refs_ok sh s t \<longleftrightarrow> (\<forall>g. (leaves sh s t g \<noteq> {} \<longrightarrow> 0 < frame_refs (m_pmm s) g) \<and>
     frame_refs (m_pmm s) g + card (leaves sh s t g) \<le> 255)"

definition good_copy :: "shape \<Rightarrow> mmu \<Rightarrow> nat \<Rightarrow> nat \<Rightarrow> mmu \<Rightarrow> bool" where
  "good_copy sh s src t s' \<longleftrightarrow> touches (tabs sh s src) s s' \<and> copied sh s src t s' \<and>
     (\<forall>g. frame_refs (m_pmm s') g = frame_refs (m_pmm s) g + card (leaves sh s src g)) \<and> (sh = Skip \<longrightarrow> t = src)"

text \<open>A table whose children are copied one after the other; \<open>X\<close> are the indices.\<close>

abbreviation kids :: "mmu \<Rightarrow> nat \<Rightarrow> nat set \<Rightarrow> nat set" where
  "kids s src X \<equiv> {i \<in> X. present (m_table s src i)}"

abbreviation kid_tabs :: "(nat \<Rightarrow> shape) \<Rightarrow> mmu \<Rightarrow> nat \<Rightarrow> nat \<Rightarrow> nat set" where
  "kid_tabs f s t i \<equiv> tabs (f i) s (child s t i)"

definition kids_ready :: "(nat \<Rightarrow> shape) \<Rightarrow> nat \<Rightarrow> nat \<Rightarrow> nat set \<Rightarrow> mmu \<Rightarrow> bool" where
  "kids_ready f src t X s \<longleftrightarrow> finite X \<and> pmm_inv (m_pmm s) \<and> frame_used (m_pmm s) t \<and> frame_used (m_pmm s) src \<and> src \<noteq> t \<and>
     (\<forall>i\<in>kids s src X. mmu_ok (f i) s (child s src i) \<and> src \<notin> kid_tabs f s src i \<and> t \<notin> kid_tabs f s src i \<and>
        (\<forall>j\<in>kids s src X. i \<noteq> j \<longrightarrow> kid_tabs f s src i \<inter> kid_tabs f s src j = {}) \<and>
        (\<forall>g. leaves (f i) s (child s src i) g \<noteq> {} \<longrightarrow> 0 < frame_refs (m_pmm s) g)) \<and>
     (\<forall>g. frame_refs (m_pmm s) g + (\<Sum>i\<in>kids s src X. card (leaves (f i) s (child s src i) g)) \<le> 255)"

definition kids_done :: "(nat \<Rightarrow> shape) \<Rightarrow> nat \<Rightarrow> nat \<Rightarrow> nat set \<Rightarrow> mmu \<Rightarrow> mmu \<Rightarrow> bool" where
  "kids_done f src t X s s' \<longleftrightarrow> touches (insert t (\<Union>i\<in>kids s src X. kid_tabs f s src i)) s s' \<and>
     (\<forall>i. i \<notin> kids s src X \<longrightarrow> m_table s' t i = m_table s t i) \<and>
     (\<forall>i\<in>kids s src X. present (m_table s' t i) \<and> copied (f i) s (child s src i) (child s' t i) s' \<and>
        (\<forall>j\<in>kids s src X. i \<noteq> j \<longrightarrow> kid_tabs f s' t i \<inter> kid_tabs f s' t j = {})) \<and>
     (\<forall>g. frame_refs (m_pmm s') g = frame_refs (m_pmm s) g + (\<Sum>i\<in>kids s src X. card (leaves (f i) s (child s src i) g)))"

lemma kids_src:
  assumes "kids_ready f src t X s" "kids_done f src t Y s s'" "Y \<subseteq> X"
  shows "m_table s' src = m_table s src"
proof (rule touchesD(1))
  show "touches (insert t (\<Union>i\<in>kids s src Y. kid_tabs f s src i)) s s'" using assms(2) by (simp add: kids_done_def)
qed (use assms(1,3) in \<open>auto simp: kids_ready_def\<close>)

lemma kids_other:
  assumes r: "kids_ready f src t (X \<union> Y) s" and d: "kids_done f src t X s s'" and "X \<inter> Y = {}" and j: "j \<in> kids s src Y"
  shows "\<And>x. x \<in> kid_tabs f s src j \<Longrightarrow> m_table s' x = m_table s x" "mmu_ok (f j) s' (child s src j)"
    "tabs (f j) s' (child s src j) = kid_tabs f s src j" "leaves (f j) s' (child s src j) g = leaves (f j) s (child s src j) g"
proof -
  have ok: "mmu_ok (f j) s (child s src j)" "t \<notin> kid_tabs f s src j" using r j by (auto simp: kids_ready_def)
  have dis: "kid_tabs f s src i \<inter> kid_tabs f s src j = {}" if "i \<in> kids s src X" for i
    using r j that assms(3) by (auto simp: kids_ready_def)
  show same: "m_table s' x = m_table s x" if "x \<in> kid_tabs f s src j" for x
  proof (rule touchesD(1))
    show "touches (insert t (\<Union>i\<in>kids s src X. kid_tabs f s src i)) s s'" using d by (simp add: kids_done_def)
    show "frame_used (m_pmm s) x" using ok(1) that by (simp add: mmu_ok_def)
    show "x \<notin> insert t (\<Union>i\<in>kids s src X. kid_tabs f s src i)" using ok(2) that dis by blast
  qed
  note st = same_tables [of "f j" s "child s src j" s', OF same]
  show "tabs (f j) s' (child s src j) = kid_tabs f s src j" by (rule st) auto
  then show "mmu_ok (f j) s' (child s src j)" using ok st(2) d by (auto simp: mmu_ok_def kids_done_def touches_def)
  show "leaves (f j) s' (child s src j) g = leaves (f j) s (child s src j) g"
    by (auto simp: leaves_def st)
qed

lemma kids_sum:
  assumes "finite X" "finite Y" "X \<inter> Y = {}"
  shows "(\<Sum>i\<in>kids s src (X \<union> Y). h i) = (\<Sum>i\<in>kids s src X. h i) + (\<Sum>i\<in>kids s src Y. (h i :: nat))"
proof -
  have "kids s src (X \<union> Y) = kids s src X \<union> kids s src Y" "kids s src X \<inter> kids s src Y = {}" using assms(3) by auto
  then show ?thesis using assms by (simp add: sum.union_disjoint)
qed

lemma kids_ready_rest:
  assumes r: "kids_ready f src t (X \<union> Y) s" and d: "kids_done f src t X s s1" and xy: "X \<inter> Y = {}"
  shows "kids_ready f src t Y s1"
proof -
  have src: "m_table s1 src = m_table s src" by (rule kids_src [OF r d]) auto
  have fin: "finite X" "finite Y" using r by (auto simp: kids_ready_def)
  note o = kids_other [OF r d xy]
  have th: "touches (insert t (\<Union>i\<in>kids s src X. kid_tabs f s src i)) s s1" using d by (simp add: kids_done_def)
  have refs: "frame_refs (m_pmm s1) g = frame_refs (m_pmm s) g + (\<Sum>i\<in>kids s src X. card (leaves (f i) s (child s src i) g))" for g
    using d by (simp add: kids_done_def)
  have one: "mmu_ok (f j) s1 (child s src j) \<and> src \<notin> tabs (f j) s1 (child s src j) \<and> t \<notin> tabs (f j) s1 (child s src j) \<and>
      (\<forall>k\<in>kids s src Y. j \<noteq> k \<longrightarrow> tabs (f j) s1 (child s src j) \<inter> tabs (f k) s1 (child s src k) = {}) \<and>
      (\<forall>g. leaves (f j) s1 (child s src j) g \<noteq> {} \<longrightarrow> 0 < frame_refs (m_pmm s1) g)" if j: "j \<in> kids s src Y" for j
    using r j o(2,3,4) by (simp add: kids_ready_def refs) blast
  have "frame_refs (m_pmm s1) g + (\<Sum>i\<in>kids s src Y. card (leaves (f i) s1 (child s src i) g)) \<le> 255" for g
  proof -
    have "(\<Sum>i\<in>kids s src Y. card (leaves (f i) s1 (child s src i) g)) = (\<Sum>i\<in>kids s src Y. card (leaves (f i) s (child s src i) g))"
      by (rule sum.cong) (simp_all add: o(4))
    moreover have "frame_refs (m_pmm s) g + (\<Sum>i\<in>kids s src (X \<union> Y). card (leaves (f i) s (child s src i) g)) \<le> 255"
      using r by (simp add: kids_ready_def)
    ultimately show ?thesis unfolding kids_sum [OF fin xy] by (simp add: refs)
  qed
  moreover have "pmm_inv (m_pmm s1)" using th by (simp add: touches_def)
  moreover have "frame_used (m_pmm s1) t \<and> frame_used (m_pmm s1) src \<and> src \<noteq> t" using r touchesD(2) [OF th] by (auto simp: kids_ready_def)
  ultimately show ?thesis unfolding kids_ready_def src using one fin(2) by blast
qed

lemma kids_doneI:
  "touches (insert t (\<Union>i\<in>kids s src X. kid_tabs f s src i)) s s' \<Longrightarrow>
   (\<And>i. i \<notin> kids s src X \<Longrightarrow> m_table s' t i = m_table s t i) \<Longrightarrow>
   (\<And>i. i \<in> kids s src X \<Longrightarrow> present (m_table s' t i) \<and> copied (f i) s (child s src i) (child s' t i) s') \<Longrightarrow>
   (\<And>i j. i \<in> kids s src X \<Longrightarrow> j \<in> kids s src X \<Longrightarrow> i \<noteq> j \<Longrightarrow> kid_tabs f s' t i \<inter> kid_tabs f s' t j = {}) \<Longrightarrow>
   (\<And>g. frame_refs (m_pmm s') g = frame_refs (m_pmm s) g + (\<Sum>i\<in>kids s src X. card (leaves (f i) s (child s src i) g))) \<Longrightarrow>
   kids_done f src t X s s'"
  by (simp add: kids_done_def)

lemma kids_keep:
  assumes r: "kids_ready f src t (X \<union> Y) s" and d: "kids_done f src t X s s1"
    and th: "touches (insert t (\<Union>i\<in>kids s src Y. kid_tabs f s src i)) s1 s2" and xy: "X \<inter> Y = {}"
    and i: "i \<in> kids s src X" and x: "x \<in> kid_tabs f s src i \<union> kid_tabs f s1 t i"
  shows "m_table s2 x = m_table s1 x \<and> (frame_used (m_pmm s1) x \<longrightarrow> frame_used (m_pmm s2) x)"
proof -
  have used: "frame_used (m_pmm s) x" if "i \<in> kids s src (X \<union> Y)" "x \<in> kid_tabs f s src i" for i x
    using r that by (auto simp: kids_ready_def mmu_ok_def)
  have tt: "frame_used (m_pmm s) t" using r by (simp add: kids_ready_def)
  have c: "copied (f i) s (child s src i) (child s1 t i) s1" using d i by (simp add: kids_done_def)
  have "touches (insert t (\<Union>i\<in>kids s src X. kid_tabs f s src i)) s s1" using d by (simp add: kids_done_def)
  then have u1: "frame_used (m_pmm s1) x" using x c used [of i x] i touchesD(2) by (auto simp: copied_def)
  have "x \<notin> insert t (\<Union>j\<in>kids s src Y. kid_tabs f s src j)"
  proof (cases "x \<in> kid_tabs f s src i")
    case True
    then show ?thesis using r i xy by (auto simp: kids_ready_def)
  next
    case False
    then have "\<not> frame_used (m_pmm s) x" using x c by (auto simp: copied_def)
    then show ?thesis using used tt by blast
  qed
  with u1 show ?thesis using touchesD [OF th] by blast
qed

lemma kids_done_trans:
  assumes r: "kids_ready f src t (X \<union> Y) s" and d: "kids_done f src t X s s1" and e: "kids_done f src t Y s1 s2" and xy: "X \<inter> Y = {}"
  shows "kids_done f src t (X \<union> Y) s s2"
proof -
  have src: "m_table s1 src = m_table s src" by (rule kids_src [OF r d]) auto
  have fin: "finite X" "finite Y" using r by (auto simp: kids_ready_def)
  note o = kids_other [OF r d xy]
  have th: "touches (insert t (\<Union>i\<in>kids s src X. kid_tabs f s src i)) s s1" using d by (simp add: kids_done_def)
  have kt: "(\<Union>i\<in>kids s src Y. tabs (f i) s1 (child s src i)) = (\<Union>i\<in>kids s src Y. kid_tabs f s src i)" using o(3) by simp
  have th2: "touches (insert t (\<Union>i\<in>kids s src Y. kid_tabs f s src i)) s1 s2" using e by (simp add: kids_done_def src kt)
  have ent1: "m_table s2 t i = m_table s1 t i" if "i \<notin> kids s src Y" for i using e that by (simp add: kids_done_def src)
  have ent2: "m_table s1 t i = m_table s t i" if "i \<notin> kids s src X" for i using d that by (simp add: kids_done_def)
  have notX: "i \<notin> kids s src Y" if "i \<in> kids s src X" for i using that xy by auto
  have c1: "copied (f i) s (child s src i) (child s1 t i) s1" "present (m_table s1 t i)" if "i \<in> kids s src X" for i
    using d that by (auto simp: kids_done_def)
  have c2: "copied (f i) s1 (child s src i) (child s2 t i) s2" "present (m_table s2 t i)" if "i \<in> kids s src Y" for i
    using e that by (auto simp: kids_done_def src)
  note keep = kids_keep [OF r d th2 xy]
  have new1: "copied (f i) s (child s src i) (child s2 t i) s2 \<and> present (m_table s2 t i) \<and> kid_tabs f s2 t i = kid_tabs f s1 t i"
    if i: "i \<in> kids s src X" for i
    using copied_later [OF c1(1) [OF i] keep [OF i]] c1(2) [OF i] ent1 [OF notX [OF i]] by simp
  have new2: "copied (f i) s (child s src i) (child s2 t i) s2 \<and> present (m_table s2 t i)" if i: "i \<in> kids s src Y" for i
    using copied_earlier [OF c2(1) [OF i] o(1) [OF i] touchesD(2) [OF th]] c2(2) [OF i] by blast
  have dis: "kid_tabs f s2 t i \<inter> kid_tabs f s2 t j = {}" if "i \<in> kids s src X" "j \<in> kids s src Y" for i j
    using new1 [OF that(1)] c1(1) [OF that(1)] c2(1) [OF that(2)] by (auto simp: copied_def)
  have pair: "kid_tabs f s2 t i \<inter> kid_tabs f s2 t j = {}"
    if "i \<in> kids s src (X \<union> Y)" "j \<in> kids s src (X \<union> Y)" "i \<noteq> j" for i j
  proof -
    have x: "i \<in> kids s src X \<Longrightarrow> j \<in> kids s src X \<Longrightarrow> ?thesis" using d new1 that(3) by (simp add: kids_done_def)
    have y: "i \<in> kids s src Y \<Longrightarrow> j \<in> kids s src Y \<Longrightarrow> ?thesis" using e that(3) by (simp add: kids_done_def src)
    show ?thesis using x y dis that by blast
  qed
  have refs: "frame_refs (m_pmm s2) g = frame_refs (m_pmm s) g + (\<Sum>i\<in>kids s src (X \<union> Y). card (leaves (f i) s (child s src i) g))" for g
    using d e unfolding kids_sum [OF fin xy] by (simp add: kids_done_def src o(4))
  have "touches (insert t (\<Union>i\<in>kids s src (X \<union> Y). kid_tabs f s src i)) s s2" by (rule touches_trans [OF th th2]) auto
  moreover have "m_table s2 t i = m_table s t i" if "i \<notin> kids s src (X \<union> Y)" for i using ent1 [of i] ent2 [of i] that by auto
  moreover have "present (m_table s2 t i) \<and> copied (f i) s (child s src i) (child s2 t i) s2" if "i \<in> kids s src (X \<union> Y)" for i
    using new1 [of i] new2 [of i] that by blast
  ultimately show ?thesis using pair refs by (rule kids_doneI)
qed

lemma copy_entry:
  assumes "c < 2 ^ 52"
  shows "frame_no (frame_addr c OR (e AND 0xFFF)) = c" "present (frame_addr c OR (e AND 0xFFF)) = present e"
proof -
  have u: "unat (frame_addr c) = c * 4096"
    using assms by (simp add: frame_addr_def unat_word_ariths unat_of_nat)
  have low: "e AND 0xFFF < 0x1000" by (simp add: word_less_nat_alt unat_page_offset)
  show "frame_no (frame_addr c OR (e AND 0xFFF)) = c"
    using frame_no_low(1) [OF low, of "frame_addr c"] u by (simp add: frame_no_def drop_bit_eq_div unat_div)
  have "\<not> bit (frame_addr c) 0" "bit (0xFFF :: u64) 0" by (simp_all add: frame_addr_def bit_0)
  then show "present (frame_addr c OR (e AND 0xFFF)) = present e"
    by (simp only: present_bit bit_or_iff bit_and_iff) simp
qed

lemma frame_no_less: "frame_no e < 2 ^ 52"
proof -
  have "unat e < 2 ^ 64" by simp
  then show ?thesis by (simp add: frame_no_def drop_bit_eq_div unat_div less_mult_imp_div_less)
qed

lemma kid_done:
  assumes r: "kids_ready f src t X s" and i: "i \<in> kids s src X" and g: "good_copy (f i) s (child s src i) c s1"
  shows "kids_done f src t {i} s (set_entry t i (frame_addr c OR (m_table s1 src i AND 0xFFF)) s1)"
proof -
  let ?s = "set_entry t i (frame_addr c OR (m_table s1 src i AND 0xFFF)) s1"
  have kid: "src \<notin> kid_tabs f s src i" "t \<notin> kid_tabs f s src i" and u: "frame_used (m_pmm s) src" "frame_used (m_pmm s) t" "src \<noteq> t"
    using r i by (auto simp: kids_ready_def)
  have th: "touches (kid_tabs f s src i) s s1" and cp: "copied (f i) s (child s src i) c s1" using g by (simp_all add: good_copy_def)
  have src: "m_table s1 src = m_table s src" using touchesD(1) [OF th u(1) kid(1)] .
  have tt: "m_table s1 t = m_table s t" using touchesD(1) [OF th u(2) kid(2)] .
  have "c < 2 ^ 52"
  proof (cases "f i = Skip")
    case True
    then show ?thesis using g frame_no_less by (simp add: good_copy_def)
  next
    case False
    then have "frame_used (m_pmm s1) c" using cp tabs_self [of "f i" c s1] by (auto simp: copied_def)
    then have "c < 2 ^ 32" using th frame_used_bound [of "m_pmm s1" c] by (simp add: touches_def pmm_inv_def)
    then show ?thesis by simp
  qed
  note e = copy_entry [OF this, of "m_table s1 src i"]
  have kids: "kids s src {i} = {i}" using i by auto
  have ci: "child ?s t i = c" "present (m_table ?s t i)" using e i by (simp_all add: src)
  have "copied (f i) s (child s src i) c ?s"
    by (rule copied_later(1) [OF cp]) (use kid u cp in \<open>auto simp: copied_def\<close>)
  moreover have "touches (insert t (kid_tabs f s src i)) s ?s"
    using th by (auto simp: touches_def)
  ultimately show ?thesis
    unfolding kids_done_def kids using g ci tt by (simp add: good_copy_def del: set_entry_table) simp
qed

lemma kids_ready_refs:
  assumes r: "kids_ready f src t X s" and i: "i \<in> kids s src X"
  shows "mmu_ok (f i) s (child s src i)" "refs_ok (f i) s (child s src i)"
proof -
  have "card (leaves (f i) s (child s src i) g) \<le> (\<Sum>j\<in>kids s src X. card (leaves (f j) s (child s src j) g))" for g
    by (rule member_le_sum [OF i]) (use r in \<open>auto simp: kids_ready_def\<close>)
  moreover have "frame_refs (m_pmm s) g + (\<Sum>j\<in>kids s src X. card (leaves (f j) s (child s src j) g)) \<le> 255" for g
    using r by (simp add: kids_ready_def)
  ultimately show "refs_ok (f i) s (child s src i)"
    using r i unfolding refs_ok_def kids_ready_def by (meson add_le_mono le_refl le_trans)
  show "mmu_ok (f i) s (child s src i)" using r i by (simp add: kids_ready_def)
qed

lemma clone_children_done:
  assumes cl: "\<And>i src s t s'. mmu_ok (f i) s src \<Longrightarrow> refs_ok (f i) s src \<Longrightarrow> cl i src s = Ret (t, s') \<Longrightarrow> good_copy (f i) s src t s'"
  shows "kids_ready f src t (set xs) s \<Longrightarrow> distinct xs \<Longrightarrow> clone_children cl src t xs s = Ret s' \<Longrightarrow> kids_done f src t (set xs) s s'"
proof (induction xs arbitrary: s)
  case Nil
  then show ?case by (simp add: kids_done_def touches_def kids_ready_def)
next
  case (Cons i xs)
  have un: "set (i # xs) = {i} \<union> set xs" and dj: "{i} \<inter> set xs = {}" using Cons.prems(2) by auto
  note r = Cons.prems(1) [unfolded un]
  obtain s2 where d: "kids_done f src t {i} s s2" and rest: "clone_children cl src t xs s2 = Ret s'"
  proof (cases "present (m_table s src i)")
    case True
    then obtain c s1 where c: "cl i (child s src i) s = Ret (c, s1)"
      and rest: "clone_children cl src t xs (set_entry t i (frame_addr c OR (m_table s1 src i AND 0xFFF)) s1) = Ret s'"
      using Cons.prems(3) by (auto simp: obind_Ret_iff)
    have i: "i \<in> kids s src ({i} \<union> set xs)" using True by simp
    have "good_copy (f i) s (child s src i) c s1" by (rule cl [OF kids_ready_refs [OF r i] c])
    from that [OF kid_done [OF r i this] rest] show thesis .
  next
    case False
    then have k: "kids s src {i} = {}" by auto
    have "pmm_inv (m_pmm s)" using r by (simp add: kids_ready_def)
    then have "kids_done f src t {i} s s" unfolding kids_done_def k by (simp add: touches_def)
    then show thesis using that False Cons.prems(3) by simp
  qed
  have "kids_done f src t (set xs) s2 s'"
    using Cons.IH [OF kids_ready_rest [OF r d dj] _ rest] Cons.prems(2) by simp
  from kids_done_trans [OF r d this dj] show ?case by (simp only: un)
qed

lemma clone_leaf_done:
  assumes ok: "mmu_ok Leaf s src" and refs: "refs_ok Leaf s src" and a: "alloc_table s = Ret (t, s1)"
  shows "leaf_copied src t (set [0..<512]) s1 (clone_leaves True src t [0..<512] s1)"
proof -
  have inv: "pmm_inv (m_pmm s)" and u: "frame_used (m_pmm s) src" using ok by (auto simp: mmu_ok_def)
  note f = alloc_table_facts [OF inv a]
  have st: "src \<noteq> t" using f(2) u by auto
  have src: "m_table s1 src = m_table s src" using f(7) st by simp
  have r1: "frame_refs (m_pmm s1) = frame_refs (m_pmm s)" using f(6) by (simp add: grows_def)
  show ?thesis
  proof (rule clone_leaves_copied [OF f(1) st])
    show "\<forall>i\<in>set [0..<512]. present (m_table s1 src i) \<longrightarrow> 0 < frame_refs (m_pmm s1) (child s1 src i)"
    proof (intro ballI impI)
      fix i assume "i \<in> set [0..<512]" "present (m_table s1 src i)"
      then have "[i] \<in> leaves Leaf s src (child s src i)" by (simp add: leaves_def src)
      with refs show "0 < frame_refs (m_pmm s1) (child s1 src i)" unfolding refs_ok_def src r1 by blast
    qed
    show "\<forall>g. frame_refs (m_pmm s1) g + card {i \<in> set [0..<512]. present (m_table s1 src i) \<and> child s1 src i = g} \<le> 255"
      using refs unfolding refs_ok_def card_leaves_Leaf src r1 by blast
  qed simp
qed

lemma clone_leaf_table:
  assumes ok: "mmu_ok Leaf s src" and refs: "refs_ok Leaf s src" and c: "clone_table 0 True src s = Ret (t, s')"
  shows "good_copy Leaf s src t s'"
proof -
  have inv: "pmm_inv (m_pmm s)" and u: "frame_used (m_pmm s) src" using ok by (auto simp: mmu_ok_def)
  from c obtain s1 where a: "alloc_table s = Ret (t, s1)" and s': "s' = clone_leaves True src t [0..<512] s1"
    by (auto simp: obind_Ret_iff)
  note f = alloc_table_facts [OF inv a]
  have "src \<noteq> t" using f(2) u by auto
  then have src: "m_table s1 src = m_table s src" using f(7) by simp
  have r1: "frame_refs (m_pmm s1) = frame_refs (m_pmm s)" using f(6) by (simp add: grows_def)
  note lc = clone_leaf_done [OF ok refs a, folded s', unfolded leaf_copied_def src r1]
  have "touches {src} s s'"
    using lc f(2,6) unfolding touches_def grows_def by auto
  moreover have "copied Leaf s src t s'"
    using lc f(2,3,5) unfolding copied_def by (auto simp: cowed_def)
  ultimately show ?thesis using lc by (simp add: good_copy_def card_leaves_Leaf)
qed

lemma kids_all: "kids s src {0..<512} = present_idx s src"
  by (auto simp: present_idx_def)

lemma kids_copied:
  assumes ok: "mmu_ok (Node f) s src" and a: "alloc_table s = Ret (t, s1)" and d: "kids_done f src t {0..<512} s1 s'"
    and r: "kids_ready f src t {0..<512} s1" and st: "src \<noteq> t" and src: "m_table s1 src = m_table s src"
  shows "copied (Node f) s src t s'"
proof -
  have inv: "pmm_inv (m_pmm s)" using ok by (simp add: mmu_ok_def)
  note f = alloc_table_facts [OF inv a]
  have src': "m_table s' src = m_table s src" using kids_src [OF r d] src by simp
  have p1: "present_idx s1 src = present_idx s src" "present_idx s' src = present_idx s src" by (simp_all add: present_idx_def src src')
  note k = kids_all [of s1 src, unfolded p1]
  have used: "frame_used (m_pmm s) x" if "x \<in> tabs (Node f) s src" for x using ok that unfolding mmu_ok_def by blast
  have same: "m_table s1 x = m_table s x" if "x \<in> tabs (Node f) s src" for x using f(7) [of x] f(2) used [OF that] by auto
  have c: "present (m_table s' t i)" "copied (f i) s (child s src i) (child s' t i) s'" if i: "i \<in> present_idx s src" for i
  proof -
    have "copied (f i) s1 (child s src i) (child s' t i) s'" using d i unfolding kids_done_def k by (simp add: src)
    then show "copied (f i) s (child s src i) (child s' t i) s'"
    proof (rule copied_earlier)
      show "m_table s1 x = m_table s x" if "x \<in> kid_tabs f s src i" for x
        using same mmu_ok_child(3) [OF ok i] that by blast
      show "frame_used (m_pmm s) x \<Longrightarrow> frame_used (m_pmm s1) x" for x using f(6) by (simp add: grows_def)
    qed
    show "present (m_table s' t i)" using d i unfolding kids_done_def k by simp
  qed
  have z: "m_table s' t i = 0" if "i \<notin> present_idx s src" for i using d that f(5) unfolding kids_done_def k by simp
  have np: "\<not> present 0" by (simp add: present_def)
  have pt: "present_idx s' t = present_idx s src" using c(1) z np by (auto simp: present_idx_def) (metis (mono_tags, lifting) mem_Collect_eq present_idx_def)
  have tabs_src: "tabs (Node f) s' src = tabs (Node f) s src" using c(2) by (simp add: p1 src' copied_def)
  have tree_src: "tree (Node f) s' src" using c(2) ok by (simp add: p1 src' copied_def mmu_ok_def)
  have tn: "t \<notin> kid_tabs f s' t i" if "i \<in> present_idx s src" for i
  proof -
    have "copied (f i) s1 (child s src i) (child s' t i) s'" using d that unfolding kids_done_def k by (simp add: src)
    then show ?thesis using f(3) by (auto simp: copied_def)
  qed
  have tree_t: "tree (Node f) s' t"
    using c(2) tn d unfolding kids_done_def k by (simp add: pt copied_def)
  have new: "\<not> frame_used (m_pmm s) x \<and> frame_used (m_pmm s') x" if "x \<in> tabs (Node f) s' t" for x
    using that c(2) f(2,3) d by (auto simp: pt copied_def kids_done_def touches_def)
  have "entry_at s' src is = cowed (entry_at s src is) \<and> entry_at s' t is = (if present (entry_at s src is) then cowed (entry_at s src is) else 0)"
    if p: "path (Node f) is" for "is"
  proof -
    obtain i js where js: "is = i # js" "i < 512" "path (f i) js" using p by auto
    show ?thesis
    proof (cases "i \<in> present_idx s src")
      case True
      then have "present (m_table s src i)" by (simp add: present_idx_def)
      with c [OF True] js show ?thesis by (simp add: entry_at_Cons src' copied_def)
    next
      case False
      then show ?thesis using js z np by (simp add: entry_at_Cons src' present_idx_def cowed_def)
    qed
  qed
  with tabs_src tree_src tree_t new show ?thesis unfolding copied_def by blast
qed

lemma kids_ready_alloc:
  assumes ok: "mmu_ok (Node f) s src" and refs: "refs_ok (Node f) s src" and a: "alloc_table s = Ret (t, s1)"
  shows "kids_ready f src t {0..<512} s1" "src \<noteq> t" "m_table s1 src = m_table s src"
    "\<And>i g. i \<in> present_idx s src \<Longrightarrow> leaves (f i) s1 (child s src i) g = leaves (f i) s (child s src i) g"
    "\<And>i. i \<in> present_idx s src \<Longrightarrow> tabs (f i) s1 (child s src i) = kid_tabs f s src i"
proof -
  have inv: "pmm_inv (m_pmm s)" using ok by (simp add: mmu_ok_def)
  note f = alloc_table_facts [OF inv a]
  have used: "frame_used (m_pmm s) x" if "x \<in> tabs (Node f) s src" for x using ok that unfolding mmu_ok_def by blast
  show st: "src \<noteq> t" using f(2) used [of src] by auto
  show src: "m_table s1 src = m_table s src" using f(7) [OF st] .
  have same: "m_table s1 x = m_table s x" if "x \<in> tabs (Node f) s src" for x using f(7) [of x] f(2) used [OF that] by auto
  have kid: "tabs (f i) s1 (child s src i) = kid_tabs f s src i" "tree (f i) s1 (child s src i)"
    "leaves (f i) s1 (child s src i) g = leaves (f i) s (child s src i) g" if i: "i \<in> present_idx s src" for i g
  proof -
    have "m_table s1 x = m_table s x" if "x \<in> kid_tabs f s src i" for x using same mmu_ok_child(3) [OF ok i] that by blast
    note A = same_tables [of "f i" s "child s src i" s1, OF this]
    show "tabs (f i) s1 (child s src i) = kid_tabs f s src i" by (rule A)
    show "tree (f i) s1 (child s src i)" using A(2) mmu_ok_child(1) [OF ok i] by (simp add: mmu_ok_def)
    show "leaves (f i) s1 (child s src i) g = leaves (f i) s (child s src i) g" by (auto simp: leaves_def A(4))
  qed
  show "\<And>i g. i \<in> present_idx s src \<Longrightarrow> leaves (f i) s1 (child s src i) g = leaves (f i) s (child s src i) g" by (rule kid(3))
  show "\<And>i. i \<in> present_idx s src \<Longrightarrow> tabs (f i) s1 (child s src i) = kid_tabs f s src i" by (rule kid(1))
  have k: "kids s1 src {0..<512} = present_idx s src" by (auto simp: present_idx_def src)
  have r1: "frame_refs (m_pmm s1) = frame_refs (m_pmm s)" and mono: "\<And>x. frame_used (m_pmm s) x \<Longrightarrow> frame_used (m_pmm s1) x"
    using f(6) by (auto simp: grows_def)
  have sum: "frame_refs (m_pmm s) g + (\<Sum>i\<in>present_idx s src. card (leaves (f i) s1 (child s src i) g)) \<le> 255" for g
    using refs by (simp add: refs_ok_def card_leaves_Node kid(3))
  have ref: "0 < frame_refs (m_pmm s) g" if "i \<in> present_idx s src" "leaves (f i) s (child s src i) g \<noteq> {}" for i g
    using refs that unfolding refs_ok_def leaves_Node by blast
  have one: "mmu_ok (f i) s1 (child s src i) \<and> src \<notin> tabs (f i) s1 (child s src i) \<and> t \<notin> tabs (f i) s1 (child s src i) \<and>
      (\<forall>j\<in>present_idx s src. i \<noteq> j \<longrightarrow> tabs (f i) s1 (child s src i) \<inter> tabs (f j) s1 (child s src j) = {}) \<and>
      (\<forall>g. leaves (f i) s1 (child s src i) g \<noteq> {} \<longrightarrow> 0 < frame_refs (m_pmm s) g)" if i: "i \<in> present_idx s src" for i
  proof -
    have "t \<notin> kid_tabs f s src i" using used f(2) mmu_ok_child(3) [OF ok i] by blast
    then show ?thesis using kid i ref [OF i] mono f(1) ok mmu_ok_child(1,2) [OF ok i] by (simp add: mmu_ok_def)
  qed
  show "kids_ready f src t {0..<512} s1"
    unfolding kids_ready_def k unfolding r1 src using one sum f(1,3) st mono used [of src] by auto
qed

lemma clone_shape_copies:
  "mmu_ok sh s src \<Longrightarrow> refs_ok sh s src \<Longrightarrow> clone_shape sh src s = Ret (t, s') \<Longrightarrow> good_copy sh s src t s'"
proof (induction sh arbitrary: s src t s')
  case Skip
  then show ?case by (simp add: share_def good_copy_def touches_def copied_def mmu_ok_def leaves_def)
next
  case Leaf
  then show ?case by (simp only: clone_shape.simps clone_leaf_table)
next
  case (Node f)
  from Node.prems(3) obtain s1 where a: "alloc_table s = Ret (t, s1)"
    and c: "clone_children (\<lambda>i. clone_shape (f i)) src t [0..<512] s1 = Ret s'" by (auto simp: obind_Ret_iff)
  note k = kids_ready_alloc [OF Node.prems(1,2) a]
  have inv: "pmm_inv (m_pmm s)" using Node.prems(1) by (simp add: mmu_ok_def)
  note al = alloc_table_facts [OF inv a]
  have "kids_done f src t (set [0..<512]) s1 s'"
    by (rule clone_children_done [OF _ _ _ c]) (use Node.IH k(1) in auto)
  then have d: "kids_done f src t {0..<512} s1 s'" by simp
  have kk: "kids s1 src {0..<512} = present_idx s src" by (auto simp: present_idx_def k(3))
  have "frame_refs (m_pmm s') g = frame_refs (m_pmm s) g + card (leaves (Node f) s src g)" for g
    using d al(6) unfolding kids_done_def kk by (simp add: card_leaves_Node k(3,4) grows_def)
  moreover have "touches (tabs (Node f) s src) s s'"
  proof -
    have "touches (insert t (\<Union>i\<in>present_idx s src. kid_tabs f s src i)) s1 s'"
      using d unfolding kids_done_def kk by (simp add: k(3,5))
    then show ?thesis using al(2,6) unfolding touches_def grows_def by auto
  qed
  ultimately show ?case using kids_copied [OF Node.prems(1) a d k(1,2,3)] by (simp add: good_copy_def)
qed

end
