(* ===== verification/Spaces.thy ===== *)
theory Spaces
  imports Cow
begin

text \<open>
  Address spaces that share frames: forking, faulting, storing and releasing behave as if every address
  space had its own copy of every page.
\<close>

section \<open>What user code sees\<close>

definition user_page :: "u64 \<Rightarrow> bool" where
  "user_page v \<longleftrightarrow> path user_part (indices v)"

definition sees :: "mmu \<Rightarrow> mmu_context \<Rightarrow> u64 \<Rightarrow> (nat \<Rightarrow> u8) option" where
  "sees s c v = (if user_page v \<and> present (pte s c v) \<and> pte s c v AND MMU_USER \<noteq> 0 then Some (m_page s (frame_no (pte s c v))) else None)"

definition user_writable :: "u64 \<Rightarrow> bool" where
  "user_writable e \<longleftrightarrow> present e \<and> e AND MMU_USER \<noteq> 0 \<and> e AND MMU_WRITABLE \<noteq> 0"

text \<open>
  The address spaces of the system: separate trees of unreferenced tables; the count of a frame is the
  number of entries that lead to it; a frame that user code can write is mapped once.
\<close>

abbreviation mapped :: "mmu \<Rightarrow> mmu_context \<Rightarrow> nat \<Rightarrow> nat list set" where
  "mapped s c g \<equiv> leaves user_part s c g"

definition spaces :: "mmu_context set \<Rightarrow> mmu \<Rightarrow> bool" where
  "spaces C s \<longleftrightarrow> finite C \<and> pmm_inv (m_pmm s) \<and>
     (\<forall>c\<in>C. mmu_ok user_part s c \<and> (\<forall>x\<in>tabs user_part s c. frame_refs (m_pmm s) x = 0) \<and>
        (\<forall>d\<in>C. c \<noteq> d \<longrightarrow> tabs user_part s c \<inter> tabs user_part s d = {}) \<and>
        (\<forall>is. path user_part is \<and> user_writable (entry_at s c is) \<longrightarrow> frame_refs (m_pmm s) (frame_no (entry_at s c is)) = 1)) \<and>
     (\<forall>g. frame_refs (m_pmm s) g = (\<Sum>c\<in>C. card (mapped s c g)))"

lemma spacesD:
  assumes "spaces C s"
  shows "finite C" "pmm_inv (m_pmm s)" "frame_refs (m_pmm s) g = (\<Sum>c\<in>C. card (mapped s c g))"
    "c \<in> C \<Longrightarrow> mmu_ok user_part s c" "c \<in> C \<Longrightarrow> x \<in> tabs user_part s c \<Longrightarrow> frame_refs (m_pmm s) x = 0"
    "c \<in> C \<Longrightarrow> d \<in> C \<Longrightarrow> c \<noteq> d \<Longrightarrow> tabs user_part s c \<inter> tabs user_part s d = {}"
    "c \<in> C \<Longrightarrow> path user_part is \<Longrightarrow> user_writable (entry_at s c is) \<Longrightarrow> frame_refs (m_pmm s) (frame_no (entry_at s c is)) = 1"
  using assms by (auto simp: spaces_def)

lemma spacesI:
  assumes "finite C" "pmm_inv (m_pmm s)" "\<And>g. frame_refs (m_pmm s) g = (\<Sum>c\<in>C. card (mapped s c g))"
    "\<And>c. c \<in> C \<Longrightarrow> mmu_ok user_part s c" "\<And>c x. c \<in> C \<Longrightarrow> x \<in> tabs user_part s c \<Longrightarrow> frame_refs (m_pmm s) x = 0"
    "\<And>c d. c \<in> C \<Longrightarrow> d \<in> C \<Longrightarrow> c \<noteq> d \<Longrightarrow> tabs user_part s c \<inter> tabs user_part s d = {}"
    "\<And>c is. c \<in> C \<Longrightarrow> path user_part is \<Longrightarrow> user_writable (entry_at s c is) \<Longrightarrow> frame_refs (m_pmm s) (frame_no (entry_at s c is)) = 1"
  shows "spaces C s"
  using assms by (simp add: spaces_def)

lemma mapped_refs:
  assumes s: "spaces C s" and c: "c \<in> C"
  shows "card (mapped s c g) \<le> frame_refs (m_pmm s) g"
    "d \<in> C \<Longrightarrow> c \<noteq> d \<Longrightarrow> card (mapped s c g) + card (mapped s d g) \<le> frame_refs (m_pmm s) g"
proof -
  have fin: "finite C" and r: "frame_refs (m_pmm s) g = (\<Sum>c\<in>C. card (mapped s c g))" using spacesD(1,3) [OF s] .
  show "card (mapped s c g) \<le> frame_refs (m_pmm s) g" unfolding r by (rule member_le_sum [OF c]) (auto simp: fin)
  assume d: "d \<in> C" "c \<noteq> d"
  have "(\<Sum>x\<in>{c, d}. card (mapped s x g)) \<le> (\<Sum>x\<in>C. card (mapped s x g))" by (rule sum_mono2) (use c d fin in auto)
  then show "card (mapped s c g) + card (mapped s d g) \<le> frame_refs (m_pmm s) g" using d(2) by (simp add: r)
qed

lemma mapped_entry:
  assumes s: "spaces C s" and c: "c \<in> C" and p: "path user_part is" "present (entry_at s c is)"
  shows "is \<in> mapped s c (frame_no (entry_at s c is))" "0 < frame_refs (m_pmm s) (frame_no (entry_at s c is))"
proof -
  show m: "is \<in> mapped s c (frame_no (entry_at s c is))" using p by (simp add: leaves_def)
  have "card (mapped s c (frame_no (entry_at s c is))) \<noteq> 0"
    using m finite_leaves [of user_part s c "frame_no (entry_at s c is)"] by (metis card_0_eq empty_iff)
  then show "0 < frame_refs (m_pmm s) (frame_no (entry_at s c is))" using mapped_refs(1) [OF s c, of "frame_no (entry_at s c is)"] by linarith
qed

text \<open>A frame referenced once has one entry.\<close>

lemma mapped_once:
  assumes s: "spaces C s" and c: "c \<in> C" "path user_part is" "present (entry_at s c is)"
    and d: "d \<in> C" "path user_part js" "present (entry_at s d js)"
    and one: "frame_refs (m_pmm s) (frame_no (entry_at s c is)) \<le> 1" and eq: "frame_no (entry_at s d js) = frame_no (entry_at s c is)"
  shows "d = c \<and> js = is"
proof -
  let ?g = "frame_no (entry_at s c is)"
  have m: "is \<in> mapped s c ?g" "js \<in> mapped s d ?g" using c d eq by (simp_all add: leaves_def)
  have ne: "0 < card (mapped s c ?g)" "0 < card (mapped s d ?g)" using m by (auto simp: card_gt_0_iff)
  have "d = c" using mapped_refs(2) [OF s c(1) d(1), of ?g] one ne by (cases "d = c") auto
  moreover have "js = is"
  proof (rule ccontr)
    assume "js \<noteq> is"
    with m \<open>d = c\<close> have "card {is, js} \<le> card (mapped s c ?g)" by (intro card_mono) auto
    with \<open>js \<noteq> is\<close> mapped_refs(1) [OF s c(1), of ?g] one show False by simp
  qed
  ultimately show ?thesis by simp
qed

lemma sees_cong:
  assumes "\<And>v. user_page v \<Longrightarrow> present (pte s' c v) = present (pte s c v) \<and> (present (pte s c v) \<longrightarrow>
      (pte s' c v AND MMU_USER \<noteq> 0 \<longleftrightarrow> pte s c v AND MMU_USER \<noteq> 0) \<and> m_page s' (frame_no (pte s' c v)) = m_page s (frame_no (pte s c v)))"
  shows "sees s' c v = sees s c v"
  using assms [of v] by (auto simp: sees_def)

section \<open>Forking\<close>

lemma cowed_bits:
  "present (cowed e) = present e" "frame_no (cowed e) = frame_no e" "\<not> user_writable (cowed e)"
  "cowed e AND MMU_USER = e AND MMU_USER"
proof -
  have wc: "MMU_COW AND MMU_WRITABLE = 0" "NOT MMU_WRITABLE AND MMU_WRITABLE = 0" by (simp_all add: mmu_flags)
  have uc: "MMU_COW AND MMU_USER = 0" "NOT MMU_WRITABLE AND MMU_USER = MMU_USER" by (simp_all add: mmu_flags)
  show "present (cowed e) = present e" "frame_no (cowed e) = frame_no e" by (simp_all add: cowed_def cow_entry_bits)
  show u: "cowed e AND MMU_USER = e AND MMU_USER"
    by (simp add: cowed_def cow_entry_def bit.conj_disj_distrib2 and.assoc uc)
  have "cow_entry e AND MMU_USER = 0 \<or> cow_entry e AND MMU_WRITABLE = 0"
    by (auto simp: cow_entry_def bit.conj_disj_distrib2 and.assoc wc)
  then show "\<not> user_writable (cowed e)" by (auto simp: user_writable_def cowed_def)
qed

lemma same_mapped:
  assumes "\<And>is. path user_part is \<Longrightarrow> present (entry_at s' d is) = present (entry_at s c is) \<and>
      (present (entry_at s c is) \<longrightarrow> frame_no (entry_at s' d is) = frame_no (entry_at s c is))"
  shows "mapped s' d g = mapped s c g"
  using assms by (auto simp: leaves_def)

lemma clone_user_facts:
  assumes s: "spaces C s" and src: "src \<in> C" and b: "\<And>g. frame_refs (m_pmm s) g + card (mapped s src g) \<le> 255"
    and m: "mmu_clone_user src s = Ret (t, s')"
  shows "good_copy user_part s src t s'" "t \<notin> C" "c \<in> C \<Longrightarrow> c \<noteq> src \<Longrightarrow> x \<in> tabs user_part s c \<Longrightarrow> m_table s' x = m_table s x"
proof -
  have ok: "mmu_ok user_part s src" by (rule spacesD(4) [OF s src])
  have "refs_ok user_part s src"
    unfolding refs_ok_def using b mapped_refs(1) [OF s src] by (metis card_gt_0_iff finite_leaves less_le_trans)
  then show g: "good_copy user_part s src t s'"
    using clone_shape_copies [OF ok] m by (simp add: mmu_clone_user_shape)
  have ns: "user_part \<noteq> Skip" by (simp add: user_part_def)
  have "\<not> frame_used (m_pmm s) t" using g tabs_self [OF ns] by (auto simp: good_copy_def copied_def)
  then show "t \<notin> C" using spacesD(4) [OF s] tabs_self [OF ns] by (auto simp: mmu_ok_def)
  show "m_table s' x = m_table s x" if "c \<in> C" "c \<noteq> src" "x \<in> tabs user_part s c"
  proof (rule touchesD(1))
    show "touches (tabs user_part s src) s s'" using g by (simp add: good_copy_def)
    show "frame_used (m_pmm s) x" using spacesD(4) [OF s that(1)] that(3) by (simp add: mmu_ok_def)
    show "x \<notin> tabs user_part s src" using spacesD(6) [OF s that(1) src that(2)] that(3) by blast
  qed
qed

lemma clone_user_entries:
  assumes s: "spaces C s" and src: "src \<in> C" and b: "\<And>g. frame_refs (m_pmm s) g + card (mapped s src g) \<le> 255"
    and m: "mmu_clone_user src s = Ret (t, s')" and p: "path user_part is"
  shows "entry_at s' src is = cowed (entry_at s src is)"
    "present (entry_at s' t is) = present (entry_at s src is)"
    "present (entry_at s src is) \<Longrightarrow> entry_at s' t is = cowed (entry_at s src is)"
    "c \<in> C \<Longrightarrow> c \<noteq> src \<Longrightarrow> entry_at s' c is = entry_at s c is"
    "c \<in> C \<Longrightarrow> c \<noteq> src \<Longrightarrow> tabs user_part s' c = tabs user_part s c \<and> tree user_part s' c = tree user_part s c"
proof -
  note f = clone_user_facts [OF s src b m]
  have "\<not> present 0" by (simp add: present_def)
  then show "entry_at s' src is = cowed (entry_at s src is)" "present (entry_at s' t is) = present (entry_at s src is)"
    "present (entry_at s src is) \<Longrightarrow> entry_at s' t is = cowed (entry_at s src is)"
    using f(1) p by (auto simp: good_copy_def copied_def cowed_bits)
  assume c: "c \<in> C" "c \<noteq> src"
  note same = same_tables [of user_part s c s', OF f(3) [OF c]]
  show "entry_at s' c is = entry_at s c is" by (rule same(4)) (use p in auto)
  show "tabs user_part s' c = tabs user_part s c \<and> tree user_part s' c = tree user_part s c" using same(1,2) by blast
qed

lemma clone_user_spaces:
  assumes s: "spaces C s" and src: "src \<in> C" and b: "\<And>g. frame_refs (m_pmm s) g + card (mapped s src g) \<le> 255"
    and m: "mmu_clone_user src s = Ret (t, s')"
  shows "spaces (insert t C) s'"
proof -
  note f = clone_user_facts [OF s src b m] and e = clone_user_entries [OF s src b m]
  have th: "touches (tabs user_part s src) s s'" and cp: "copied user_part s src t s'"
    and refs: "\<And>g. frame_refs (m_pmm s') g = frame_refs (m_pmm s) g + card (mapped s src g)" using f(1) by (auto simp: good_copy_def)
  have mt: "mapped s' t g = mapped s src g" for g by (rule same_mapped) (use e(2,3) in \<open>auto simp: cowed_bits\<close>)
  have mc: "mapped s' c g = mapped s c g" if "c \<in> C" for c g
    by (cases "c = src"; rule same_mapped) (use e(1,4) that in \<open>auto simp: cowed_bits\<close>)
  have tabs: "tabs user_part s' c = tabs user_part s c" "tree user_part s' c" if "c \<in> C" for c
  proof -
    have "path user_part [1, 0, 0, 0]" by (simp add: user_part_def)
    then show "tabs user_part s' c = tabs user_part s c" "tree user_part s' c"
      using e(5) [of "[1, 0, 0, 0]" c] that cp spacesD(4) [OF s that] by (cases "c = src"; auto simp: copied_def mmu_ok_def)+
  qed
  have new: "\<not> frame_used (m_pmm s) x" "frame_used (m_pmm s') x" if "x \<in> tabs user_part s' t" for x using cp that by (auto simp: copied_def)
  have fin: "finite C" and inv: "pmm_inv (m_pmm s)" and inv': "pmm_inv (m_pmm s')" using spacesD(1,2) [OF s] th by (auto simp: touches_def)
  show ?thesis
  proof (rule spacesI)
    show "frame_refs (m_pmm s') g = (\<Sum>c\<in>insert t C. card (mapped s' c g))" for g
      using refs [of g] spacesD(3) [OF s, of g] f(2) fin by (simp add: mt mc)
    show "mmu_ok user_part s' c" if "c \<in> insert t C" for c
      using that cp inv' tabs spacesD(4) [OF s] touchesD(2) [OF th] by (auto simp: mmu_ok_def copied_def)
    show "frame_refs (m_pmm s') x = 0" if "c \<in> insert t C" "x \<in> tabs user_part s' c" for c x
    proof -
      have "frame_refs (m_pmm s) x = 0" using that tabs new(1) inv spacesD(5) [OF s] by (auto simp: pmm_inv_def)
      then show ?thesis using refs [of x] mapped_refs(1) [OF s src, of x] by simp
    qed
    show "tabs user_part s' c \<inter> tabs user_part s' d = {}" if "c \<in> insert t C" "d \<in> insert t C" "c \<noteq> d" for c d
    proof -
      have "frame_used (m_pmm s) x" if "c \<in> C" "x \<in> tabs user_part s' c" for c x using that tabs(1) spacesD(4) [OF s] by (auto simp: mmu_ok_def)
      then show ?thesis using that new(1) tabs(1) spacesD(6) [OF s] by (auto; blast)
    qed
    show "frame_refs (m_pmm s') (frame_no (entry_at s' c is)) = 1"
      if c: "c \<in> insert t C" and p: "path user_part is" and w: "user_writable (entry_at s' c is)" for c "is"
    proof -
      have "c \<noteq> src" using w e(1) [OF p] cowed_bits(3) [of "entry_at s src is"] by auto
      moreover have "c \<noteq> t" using w e(2,3) [OF p] cowed_bits(3) [of "entry_at s src is"] by (auto simp: user_writable_def)
      ultimately have "c \<noteq> src" "c \<noteq> t" .
      with c have c: "c \<in> C" "c \<noteq> src" by auto
      note ec = e(4) [OF p c]
      have one: "frame_refs (m_pmm s) (frame_no (entry_at s c is)) = 1" using spacesD(7) [OF s c(1) p] w by (simp add: ec)
      have "0 < card (mapped s c (frame_no (entry_at s c is)))"
        using mapped_entry(1) [OF s c(1) p] w by (auto simp: ec user_writable_def card_gt_0_iff)
      then have "card (mapped s src (frame_no (entry_at s c is))) = 0"
        using mapped_refs(2) [OF s c(1) src c(2), of "frame_no (entry_at s c is)"] one by linarith
      then show ?thesis using one by (simp only: ec refs)
    qed
  qed (use fin inv' in auto)
qed

lemma clone_user_sees:
  assumes s: "spaces C s" and src: "src \<in> C" and b: "\<And>g. frame_refs (m_pmm s) g + card (mapped s src g) \<le> 255"
    and m: "mmu_clone_user src s = Ret (t, s')"
  shows "sees s' t v = sees s src v" "c \<in> C \<Longrightarrow> sees s' c v = sees s c v"
proof -
  note f = clone_user_facts [OF s src b m]
  have e: "present (pte s' t v) = present (pte s src v)" "present (pte s src v) \<Longrightarrow> pte s' t v = cowed (pte s src v)"
    "pte s' src v = cowed (pte s src v)" "c \<in> C \<Longrightarrow> c \<noteq> src \<Longrightarrow> pte s' c v = pte s c v" if "user_page v" for v c
    using clone_user_entries [OF s src b m] that by (simp_all add: pte_entry user_page_def)
  have "touches (tabs user_part s src) s s'" using f(1) by (simp add: good_copy_def)
  note pg = touchesD(3) [OF this]
  have page: "m_page s' (frame_no (pte s c v)) = m_page s (frame_no (pte s c v))" if "c \<in> C" "user_page v" "present (pte s c v)" for c v
    using pg mapped_entry(2) [OF s that(1), of "indices v"] that spacesD(2) [OF s] by (auto simp: pte_entry user_page_def pmm_inv_def)
  show "sees s' t v = sees s src v"
    using e(1,2) [of v] page [OF src, of v] by (auto simp: sees_def cowed_bits)
  show "sees s' c v = sees s c v" if "c \<in> C"
    using e(3,4) [of v] page [OF that, of v] that by (cases "c = src") (auto simp: sees_def cowed_bits)
qed

section \<open>Changing one entry\<close>

lemma one_entry:
  assumes s: "spaces C s" and c: "c \<in> C" and p: "path user_part is" and w: "walk s c is = Some (t, i)"
    and tab: "m_table s' = m_table (set_entry t i e s)" and d: "d \<in> C"
  shows "path user_part js \<Longrightarrow> entry_at s' d js = (if d = c \<and> js = is then e else entry_at s d js)"
    "tabs user_part s' d = tabs user_part s d" "tree user_part s' d"
proof -
  have tr: "tree user_part s d" if "d \<in> C" for d using spacesD(4) [OF s that] by (simp add: mmu_ok_def)
  have eq: "entry_at s' d js = entry_at (set_entry t i e s) d js" "tabs user_part s' d = tabs user_part (set_entry t i e s) d"
    "tree user_part s' d = tree user_part (set_entry t i e s) d" if "path user_part js" for js
    using same_tables [of user_part "set_entry t i e s" d s'] tab that by auto
  have t: "t \<in> tabs user_part s c" using walk_tabs [OF p w] by simp
  have "(path user_part js \<longrightarrow> entry_at s' d js = (if d = c \<and> js = is then e else entry_at s d js)) \<and>
      tabs user_part s' d = tabs user_part s d \<and> tree user_part s' d" for js
  proof (cases "d = c")
    case True
    then show ?thesis using eq(1) eq(2,3) [OF p] walk_set_entry [OF tr [OF c] p p w, of e] entry_set_entry [OF tr [OF c] p _ w, of js e] by simp
  next
    case False
    then have "t \<notin> tabs user_part s d" using t spacesD(6) [OF s c d] by blast
    then have "\<And>x. x \<in> tabs user_part s d \<Longrightarrow> m_table (set_entry t i e s) x = m_table s x" by auto
    note o = same_tables [of user_part s d "set_entry t i e s", OF this]
    show ?thesis using False eq(1) eq(2,3) [OF p] o(1,2,4) tr [OF d] by auto
  qed
  then show "path user_part js \<Longrightarrow> entry_at s' d js = (if d = c \<and> js = is then e else entry_at s d js)"
    "tabs user_part s' d = tabs user_part s d" "tree user_part s' d" by blast+
qed

lemma one_entry_mapped:
  assumes "\<And>js. path user_part js \<Longrightarrow> entry_at s' c js = (if js = is then e else entry_at s c js)" and "path user_part is"
  shows "card (mapped s' c g) + (if present (entry_at s c is) \<and> frame_no (entry_at s c is) = g then 1 else 0) =
    card (mapped s c g) + (if present e \<and> frame_no e = g then 1 else 0)"
proof -
  define R where "R = mapped s c g - {is}"
  have ins: "card (insert is R) = Suc (card R)" unfolding R_def by (rule card_insert_disjoint) auto
  have "mapped s' c g = (if present e \<and> frame_no e = g then insert is R else R)"
    unfolding R_def using assms by (auto simp: leaves_def split: if_splits)
  moreover have "mapped s c g = (if present (entry_at s c is) \<and> frame_no (entry_at s c is) = g then insert is R else R)"
    unfolding R_def using assms(2) by (auto simp: leaves_def)
  ultimately show ?thesis by (simp add: ins)
qed

lemma one_entry_spaces:
  assumes s: "spaces C s" and c: "c \<in> C" and p: "path user_part is" and w: "walk s c is = Some (t, i)"
    and tab: "m_table s' = m_table (set_entry t i e s)" and inv: "pmm_inv (m_pmm s')"
    and used: "\<And>x. frame_used (m_pmm s) x \<Longrightarrow> frame_used (m_pmm s') x"
    and refs: "\<And>g. frame_refs (m_pmm s') g + (if present (entry_at s c is) \<and> frame_no (entry_at s c is) = g then 1 else 0) =
      frame_refs (m_pmm s) g + (if present e \<and> frame_no e = g then 1 else 0)"
    and own: "user_writable e \<Longrightarrow> frame_refs (m_pmm s') (frame_no e) = 1"
    and other: "\<And>d js. present e \<Longrightarrow> d \<in> C \<Longrightarrow> path user_part js \<Longrightarrow> (d, js) \<noteq> (c, is) \<Longrightarrow> user_writable (entry_at s d js) \<Longrightarrow> frame_no e \<noteq> frame_no (entry_at s d js)"
    and notab: "\<And>d. present e \<Longrightarrow> d \<in> C \<Longrightarrow> frame_no e \<notin> tabs user_part s d"
  shows "spaces C s'"
proof (rule spacesI)
  note o = one_entry [OF s c p w tab]
  show fin: "finite C" by (rule spacesD(1) [OF s])
  show "frame_refs (m_pmm s') g = (\<Sum>d\<in>C. card (mapped s' d g))" for g
  proof -
    have "card (mapped s' d g) = card (mapped s d g)" if "d \<in> C - {c}" for d using o(1) that by (intro arg_cong [of _ _ card]) (auto simp: leaves_def)
    then have "(\<Sum>d\<in>C - {c}. card (mapped s' d g)) = (\<Sum>d\<in>C - {c}. card (mapped s d g))" by (rule sum.cong [OF refl])
    moreover have "(\<Sum>d\<in>C. h d) = h c + (\<Sum>d\<in>C - {c}. h d)" for h :: "nat \<Rightarrow> nat" using fin c by (rule sum.remove)
    ultimately show ?thesis
      using one_entry_mapped [of s' c "is" e s g] o(1) [OF c] p refs [of g] spacesD(3) [OF s, of g] by simp
  qed
  show "mmu_ok user_part s' d" if "d \<in> C" for d
    using o(2,3) [OF that] spacesD(4) [OF s that] inv used by (simp add: mmu_ok_def)
  show "frame_refs (m_pmm s') x = 0" if "d \<in> C" "x \<in> tabs user_part s' d" for d x
    using refs [of x] spacesD(5) [OF s that(1), of x] notab [of d] that o(2) [OF that(1)] by (auto split: if_splits)
  show "tabs user_part s' d \<inter> tabs user_part s' b = {}" if "d \<in> C" "b \<in> C" "d \<noteq> b" for d b
    using spacesD(6) [OF s that] o(2) that by simp
  show "frame_refs (m_pmm s') (frame_no (entry_at s' d js)) = 1"
    if d: "d \<in> C" and q: "path user_part js" and u: "user_writable (entry_at s' d js)" for d js
  proof (cases "(d, js) = (c, is)")
    case True
    then show ?thesis using u own o(1) [OF d q] by simp
  next
    case False
    then have e: "entry_at s' d js = entry_at s d js" using o(1) [OF d q] by auto
    then have u: "user_writable (entry_at s d js)" using u by simp
    note one = spacesD(7) [OF s d q u]
    have "\<not> (present (entry_at s c is) \<and> frame_no (entry_at s c is) = frame_no (entry_at s d js))"
      using mapped_once [OF s d q _ c p] one u False by (auto simp: user_writable_def)
    then show ?thesis using refs [of "frame_no (entry_at s d js)"] other [OF _ d q False u] one e by (auto split: if_splits)
  qed
qed (rule inv)

section \<open>Faults and stores\<close>

lemma get_ref_refs: "pmm_wf p \<Longrightarrow> g < 2 ^ 32 \<Longrightarrow> unat (frame_get_ref (of_nat g) p) = frame_refs p g"
  by (auto simp: frame_get_ref_def frame_refs_def ucast_frame_less unat_frame unat_of_nat elim!: pmm_wfE)

lemma cow_done_bits:
  "present ((e AND NOT MMU_COW) OR MMU_WRITABLE) = present e" "frame_no ((e AND NOT MMU_COW) OR MMU_WRITABLE) = frame_no e"
  "((e AND NOT MMU_COW) OR MMU_WRITABLE) AND MMU_USER = e AND MMU_USER" "((e AND NOT MMU_COW) OR MMU_WRITABLE) AND MMU_WRITABLE \<noteq> 0"
proof -
  have "bit (NOT MMU_COW) 0" "\<not> bit MMU_WRITABLE 0" by (simp_all add: mmu_flags bit_not_iff)
  then show "present ((e AND NOT MMU_COW) OR MMU_WRITABLE) = present e"
    by (simp only: present_bit bit_or_iff bit_and_iff) simp
  have "MMU_WRITABLE < 0x1000" "MMU_COW < 0x1000" by (simp_all add: mmu_flags)
  then show "frame_no ((e AND NOT MMU_COW) OR MMU_WRITABLE) = frame_no e" by (simp add: frame_no_low)
  have "MMU_WRITABLE AND MMU_USER = 0" "NOT MMU_COW AND MMU_USER = MMU_USER" by (simp_all add: mmu_flags)
  then show "((e AND NOT MMU_COW) OR MMU_WRITABLE) AND MMU_USER = e AND MMU_USER"
    by (simp add: bit.conj_disj_distrib2 and.assoc)
  have "bit MMU_WRITABLE 1" by (simp add: mmu_flags)
  then have "bit (((e AND NOT MMU_COW) OR MMU_WRITABLE) AND MMU_WRITABLE) 1" by (simp only: bit_or_iff bit_and_iff) simp
  then show "((e AND NOT MMU_COW) OR MMU_WRITABLE) AND MMU_WRITABLE \<noteq> 0" by (metis bit_0_eq bot_apply bot_bool_def)
qed

lemma new_frame_bits:
  assumes "n < 2 ^ 32"
  shows "present ((e AND 0xFFF) OR (frame_addr n AND NOT 0xFFF)) = present e" "frame_no ((e AND 0xFFF) OR (frame_addr n AND NOT 0xFFF)) = n"
    "((e AND 0xFFF) OR (frame_addr n AND NOT 0xFFF)) AND MMU_USER = e AND MMU_USER"
proof -
  have u: "unat (frame_addr n) = n * 4096" using assms by (simp add: frame_addr_def unat_word_ariths unat_of_nat)
  have "unat (frame_addr n AND NOT 0xFFF) = unat (frame_addr n)" by (simp only: unat_page_floor u) simp
  then have f: "frame_addr n AND NOT 0xFFF = frame_addr n" by (simp only: word_unat_eq_iff)
  have c: "(e AND 0xFFF) OR frame_addr n = frame_addr n OR (e AND 0xFFF)" by (rule or.commute)
  show "present ((e AND 0xFFF) OR (frame_addr n AND NOT 0xFFF)) = present e" "frame_no ((e AND 0xFFF) OR (frame_addr n AND NOT 0xFFF)) = n"
    unfolding f c using copy_entry [of n e] assms by simp_all
  have "NOT 0xFFF AND MMU_USER = 0" "0xFFF AND MMU_USER = MMU_USER" by (simp_all add: mmu_flags)
  then show "((e AND 0xFFF) OR (frame_addr n AND NOT 0xFFF)) AND MMU_USER = e AND MMU_USER"
    by (simp add: bit.conj_disj_distrib2 and.assoc)
qed

lemma cow_frames:
  assumes inv: "pmm_inv q" and ff: "pmm_first_free q = (new, p)" and n: "new \<noteq> 0xFFFFFFFF" and old: "1 < frame_refs q old"
    and p': "p' = frame_add_ref new (frame_remove_ref (of_nat old) p)"
  shows "pmm_inv p'" "frame_used q x \<Longrightarrow> frame_used p' x" "\<not> frame_used q (unat new)"
    "frame_refs p' g + (if old = g then 1 else 0) = frame_refs q g + (if unat new = g then 1 else 0)"
proof -
  have wf: "pmm_wf q" using inv by (simp add: pmm_inv_def)
  note a = first_free_frame [OF wf ff] and b = first_free_found [OF wf ff n]
  show nu: "\<not> frame_used q (unat new)" by (rule b(3))
  have ob: "old < unat (total_frames q)" "old < 2 ^ 32" using refs_bound [OF wf, of old] old by auto
  have uo: "unat (of_nat old :: u32) = old" using ob(2) by (simp only: unat_frame)
  have ne: "unat new \<noteq> old" using nu inv old by (auto simp: pmm_inv_def)
  have rn: "frame_refs q (unat new) = 0" using nu inv by (auto simp: pmm_inv_def)
  have pinv: "pmm_inv p" using inv a(1,2,6) by (simp add: pmm_inv_def)
  let ?p1 = "frame_remove_ref (of_nat old) p"
  have wp: "pmm_wf p" by (rule a(1))
  have r1: "frame_refs ?p1 g = (if g = old then frame_refs q g - 1 else frame_refs q g)" for g
    using remove_ref_refs [OF wp, of "of_nat old" g] ob uo a(2,3) by simp
  have u1: "frame_used ?p1 x = frame_used p x" for x
    using remove_ref_used [OF wp, of "of_nat old" x] ob uo a(2,3) old by auto
  have w1: "pmm_wf ?p1" and i1: "pmm_inv ?p1" using wp pinv by (auto intro: kinv)
  show "pmm_inv p'" unfolding p' by (rule add_ref_inv [OF i1])
  have nt: "unat new < unat (total_frames ?p1)" using b(2) a(3) by simp
  show "frame_used p' x" if "frame_used q x"
    unfolding p' using add_ref_used [OF w1 nt, of x] a(6) that u1 by simp
  show "frame_refs p' g + (if old = g then 1 else 0) = frame_refs q g + (if unat new = g then 1 else 0)"
    unfolding p' using add_ref_refs [OF w1 nt, of g] r1 rn ne old by auto
qed

lemma fault_writable:
  assumes "present e" "e AND MMU_USER \<noteq> 0"
  shows "user_writable ((e AND NOT MMU_COW) OR MMU_WRITABLE)"
  using assms cow_done_bits [of e] by (simp add: user_writable_def)

lemma sees_one_entry:
  assumes s: "spaces C s" and c: "c \<in> C" and v: "user_page v" and w: "walk s c (indices v) = Some (t, i)"
    and tab: "m_table s' = m_table (set_entry t i e s)" and d: "d \<in> C"
    and old: "present (pte s c v)" and e: "present e" "e AND MMU_USER \<noteq> 0 \<longleftrightarrow> pte s c v AND MMU_USER \<noteq> 0"
    and page: "m_page s' (frame_no e) = m_page s (frame_no (pte s c v))"
    and used: "\<And>x. frame_used (m_pmm s) x \<Longrightarrow> m_page s' x = m_page s x"
  shows "sees s' d u = sees s d u"
proof (rule sees_cong)
  fix u assume u: "user_page u"
  have pt: "pte s' d u = (if d = c \<and> indices u = indices v then e else pte s d u)"
    using one_entry(1) [OF s c _ w tab d] u v by (simp add: pte_entry user_page_def)
  have "frame_used (m_pmm s) (frame_no (pte s d u))" if "present (pte s d u)"
    using mapped_entry(2) [OF s d, of "indices u"] that u spacesD(2) [OF s] by (simp add: pte_entry user_page_def pmm_inv_def)
  moreover have "pte s d u = pte s c v" if "d = c" "indices u = indices v" using that by (simp add: pte_entry)
  ultimately show "present (pte s' d u) = present (pte s d u) \<and> (present (pte s d u) \<longrightarrow>
      (pte s' d u AND MMU_USER \<noteq> 0 \<longleftrightarrow> pte s d u AND MMU_USER \<noteq> 0) \<and> m_page s' (frame_no (pte s' d u)) = m_page s (frame_no (pte s d u)))"
    using pt old e page used by auto
qed

lemma fault_own:
  assumes s: "spaces C s" and c: "c \<in> C" and v: "user_page v" and w: "walk s c (indices v) = Some (t, i)"
    and e: "e = m_table s t i" "present e" "e AND MMU_USER \<noteq> 0" and one: "frame_refs (m_pmm s) (frame_no e) \<le> 1"
    and s': "s' = set_entry t i ((e AND NOT MMU_COW) OR MMU_WRITABLE) s"
  shows "spaces C s' \<and> (\<forall>d\<in>C. \<forall>u. sees s' d u = sees s d u) \<and> user_writable (pte s' c v)"
proof -
  let ?e = "(e AND NOT MMU_COW) OR MMU_WRITABLE"
  note b = cow_done_bits [of e]
  have p: "path user_part (indices v)" using v by (simp add: user_page_def)
  have ent: "entry_at s c (indices v) = e" using w e(1) by (simp add: entry_at_def)
  have tab: "m_table s' = m_table (set_entry t i ?e s)" by (simp add: s')
  have r1: "frame_refs (m_pmm s) (frame_no e) = 1"
    using mapped_entry(2) [OF s c p] ent e(2) one by simp
  have "spaces C s'"
  proof (rule one_entry_spaces [OF s c p w tab])
    show "frame_no ?e \<noteq> frame_no (entry_at s d js)"
      if "d \<in> C" "path user_part js" "(d, js) \<noteq> (c, indices v)" "user_writable (entry_at s d js)" for d js
      using mapped_once [OF s c p _ that(1,2)] that(3,4) one e(2) ent b(2) by (auto simp: user_writable_def)
    show "frame_no ?e \<notin> tabs user_part s d" if "d \<in> C" for d using spacesD(5) [OF s that] r1 b(2) by fastforce
  qed (use spacesD(2) [OF s] r1 b ent in \<open>auto simp: s'\<close>)
  moreover have "sees s' d u = sees s d u" if "d \<in> C" for d u
    by (rule sees_one_entry [OF s c v w tab that]) (use b e ent in \<open>auto simp: s' pte_entry\<close>)
  moreover have "pte s' c v = ?e" using one_entry(1) [OF s c p w tab c p] by (simp add: pte_entry)
  ultimately show ?thesis using fault_writable [OF e(2,3)] by simp
qed

lemma fault_copy:
  assumes s: "spaces C s" and c: "c \<in> C" and v: "user_page v" and w: "walk s c (indices v) = Some (t, i)"
    and e: "e = m_table s t i" "present e" "e AND MMU_USER \<noteq> 0" and many: "1 < frame_refs (m_pmm s) (frame_no e)"
    and ff: "pmm_first_free (m_pmm s) = (new, p)" "new \<noteq> 0xFFFFFFFF"
    and e': "e' = ((((e AND 0xFFF) OR (frame_addr (unat new) AND NOT 0xFFF)) AND NOT MMU_COW) OR MMU_WRITABLE)"
    and tab: "m_table s' = m_table (set_entry t i e' s)"
    and pg: "m_page s' = (m_page s)(unat new := m_page s (frame_no e))"
    and pm: "m_pmm s' = frame_add_ref new (frame_remove_ref (of_nat (frame_no e)) p)"
  shows "spaces C s' \<and> (\<forall>d\<in>C. \<forall>u. sees s' d u = sees s d u) \<and> user_writable (pte s' c v)"
proof -
  let ?m = "(e AND 0xFFF) OR (frame_addr (unat new) AND NOT 0xFFF)"
  have "unat new < 2 ^ 32" by simp
  note m = new_frame_bits [OF this, of e] and b = cow_done_bits [of ?m, folded e']
  have p: "path user_part (indices v)" using v by (simp add: user_page_def)
  have ent: "entry_at s c (indices v) = e" using w e(1) by (simp add: entry_at_def)
  note f = cow_frames [OF spacesD(2) [OF s] ff many pm]
  have r0: "frame_refs (m_pmm s) (unat new) = 0" using f(3) spacesD(2) [OF s] by (auto simp: pmm_inv_def)
  have ne: "frame_no e \<noteq> unat new" using r0 many by auto
  have r1: "frame_refs (m_pmm s') (unat new) = 1" using f(4) [of "unat new"] r0 ne by simp
  have "spaces C s'"
  proof (rule one_entry_spaces [OF s c p w tab f(1)])
    show "frame_no e' \<noteq> frame_no (entry_at s d js)"
      if "d \<in> C" "path user_part js" "user_writable (entry_at s d js)" for d js
      using mapped_entry(2) [OF s that(1,2)] that(3) r0 b(2) m(2) by (auto simp: user_writable_def)
    show "frame_no e' \<notin> tabs user_part s d" if "d \<in> C" for d
      using spacesD(4) [OF s that] f(3) b(2) m(2) by (auto simp: mmu_ok_def)
    show "frame_refs (m_pmm s') g + (if present (entry_at s c (indices v)) \<and> frame_no (entry_at s c (indices v)) = g then 1 else 0) =
      frame_refs (m_pmm s) g + (if present e' \<and> frame_no e' = g then 1 else 0)" for g
      using f(4) [of g] b(1,2) m(1,2) e(2) by (simp add: ent)
  qed (use f(2) r1 b(2) m(2) in simp_all)
  moreover have "sees s' d u = sees s d u" if "d \<in> C" for d u
    by (rule sees_one_entry [OF s c v w tab that]) (use b m e ent f(3) in \<open>auto simp: pg pte_entry\<close>)
  moreover have "pte s' c v = e'" using one_entry(1) [OF s c p w tab c p] by (simp add: pte_entry)
  ultimately show ?thesis using fault_writable [of ?m] m e by (simp add: e')
qed

lemma walk_tables: "m_table s' = m_table s \<Longrightarrow> walk s' t is = walk s t is"
  by (induction s t "is" rule: walk.induct) auto

lemma tables_cong:
  assumes "m_table s' = m_table s"
  shows "entry_at s' = entry_at s" "tabs sh s' c = tabs sh s c" "tree sh s' c = tree sh s c"
proof -
  show "entry_at s' = entry_at s" unfolding entry_at_def walk_tables [OF assms] assms by (rule refl)
qed (use same_tables [of sh s c s'] assms in auto)

lemma spaces_pmm:
  assumes s: "spaces C s" and "m_table s' = m_table s" "m_page s' = m_page s" "pmm_inv (m_pmm s')"
    "frame_refs (m_pmm s') = frame_refs (m_pmm s)" "\<And>x. frame_used (m_pmm s) x \<Longrightarrow> frame_used (m_pmm s') x"
  shows "spaces C s'" "sees s' = sees s"
proof -
  note e = tables_cong [OF assms(2)]
  show "spaces C s'" using s assms(4-6) unfolding spaces_def mmu_ok_def leaves_def e by auto
  show "sees s' = sees s" by (auto simp: fun_eq_iff sees_def pte_entry e assms(3))
qed

lemma page_fault_cow_spaces:
  assumes s: "spaces C s" and c: "c \<in> C" and v: "user_page v" and pr: "present (pte s c v)"
    and fault: "page_fault_cow c err v s = (r, s')"
  shows "spaces C s' \<and> (\<forall>d\<in>C. \<forall>u. sees s' d u = sees s d u) \<and> (r = Resolved \<longrightarrow> user_writable (pte s' c v))"
proof (cases "err AND 1 = 0 \<or> err AND 2 = 0 \<or> pte s c v AND MMU_COW = 0 \<or> pte s c v AND MMU_USER = 0")
  case True
  then have "r = NotHandled \<and> s' = s"
    using fault by (auto simp: page_fault_cow_def pte_def Let_def split: option.splits if_splits)
  with s show ?thesis by simp
next
  case False
  have p: "path user_part (indices v)" using v by (simp add: user_page_def)
  have "\<not> present 0" by (simp add: present_def)
  with pr obtain t i where w: "walk s c (indices v) = Some (t, i)" and e: "pte s c v = m_table s t i"
    by (auto simp: pte_def get_entry_walk split: option.splits)
  have wf: "pmm_wf (m_pmm s)" using spacesD(2) [OF s] by (simp add: pmm_inv_def)
  have ent: "entry_at s c (indices v) = m_table s t i" using e by (simp add: pte_entry)
  have pos: "0 < frame_refs (m_pmm s) (child s t i)" using mapped_entry(2) [OF s c p] pr by (simp add: pte_entry ent)
  have g: "unat (frame_get_ref (of_nat (child s t i)) (m_pmm s)) = frame_refs (m_pmm s) (child s t i)"
    using get_ref_refs [OF wf] refs_bound [OF wf pos] by simp
  have split: "1 < frame_get_ref (of_nat (child s t i)) (m_pmm s) \<longleftrightarrow> 1 < frame_refs (m_pmm s) (child s t i)"
    by (simp add: word_less_nat_alt g)
  obtain new p1 where ff: "pmm_first_free (m_pmm s) = (new, p1)" by fastforce
  note a = first_free_frame [OF wf ff]
  show ?thesis
  proof (cases "1 < frame_refs (m_pmm s) (child s t i)")
    case True
    show ?thesis
    proof (cases "new = 0xFFFFFFFF")
      case oom: True
      have "r = OutOfMemory" and s': "s' = s\<lparr>m_pmm := p1\<rparr>"
        using fault False True oom e ff w split by (auto simp: page_fault_cow_def get_entry_walk Let_def)
      moreover have "pmm_inv p1" using a(1,2,6) spacesD(2) [OF s] by (simp add: pmm_inv_def)
      ultimately show ?thesis using spaces_pmm [OF s, of s'] a(2,6) by simp
    next
      case ok: False
      let ?e = "((((m_table s t i AND 0xFFF) OR (frame_addr (unat new) AND NOT 0xFFF)) AND NOT MMU_COW) OR MMU_WRITABLE)"
      have tab: "m_table s' = m_table (set_entry t i ?e s)" "m_page s' = (m_page s)(unat new := m_page s (child s t i))"
        "m_pmm s' = frame_add_ref new (frame_remove_ref (of_nat (child s t i)) p1)"
        using fault False True ok e ff w split by (auto simp: page_fault_cow_def get_entry_walk Let_def set_entry_def)
      show ?thesis using fault_copy [OF s c v w refl _ _ True ff ok refl tab] pr False by (simp add: e)
    qed
  next
    case one: False
    have "s' = set_entry t i ((m_table s t i AND NOT MMU_COW) OR MMU_WRITABLE) s"
      using fault False one e w split by (auto simp: page_fault_cow_def get_entry_walk Let_def)
    from fault_own [OF s c v w refl _ _ _ this] pr False one show ?thesis by (simp add: e)
  qed
qed

text \<open>A store by user code, which the processor allows if the page is writable.\<close>

definition user_store :: "mmu_context \<Rightarrow> u64 \<Rightarrow> nat \<Rightarrow> u8 \<Rightarrow> mmu \<Rightarrow> mmu option" where
  "user_store c v off b s =
     (let e = pte s c v in
      if user_writable e then Some (s\<lparr>m_page := (m_page s)(frame_no e := (m_page s (frame_no e))(off := b))\<rparr>) else None)"

lemma user_store_spaces:
  assumes s: "spaces C s" and c: "c \<in> C" and v: "user_page v" and st: "user_store c v off b s = Some s'" and d: "d \<in> C"
  shows "spaces C s'" "sees s' d u = (if d = c \<and> vpn u = vpn v then map_option (\<lambda>pg. pg(off := b)) (sees s c v) else sees s d u)"
proof -
  have u: "user_writable (pte s c v)" and s': "s' = s\<lparr>m_page := (m_page s)(frame_no (pte s c v) := (m_page s (frame_no (pte s c v)))(off := b))\<rparr>"
    using st by (auto simp: user_store_def Let_def split: if_splits)
  have "m_table s' = m_table s" by (simp add: s')
  note e = tables_cong [OF this]
  have pm: "m_pmm s' = m_pmm s" and pg: "m_page s' = (m_page s)(frame_no (pte s c v) := (m_page s (frame_no (pte s c v)))(off := b))"
    by (simp_all add: s')
  have pt: "pte s' d u = pte s d u" for d u by (simp add: pte_entry e)
  show "spaces C s'" using s unfolding spaces_def mmu_ok_def leaves_def e pm .
  have one: "frame_refs (m_pmm s) (frame_no (pte s c v)) \<le> 1" using spacesD(7) [OF s c, of "indices v"] u v by (simp add: pte_entry user_page_def)
  have once: "d = c \<and> vpn u = vpn v" if "user_page u" "present (pte s d u)" "frame_no (pte s d u) = frame_no (pte s c v)"
    using mapped_once [OF s c, of "indices v" d "indices u"] one that v u d
    by (auto simp: pte_entry user_page_def user_writable_def indices_inject)
  have same: "pte s c u = pte s c v \<and> user_page u = user_page v" if "vpn u = vpn v"
    using that by (simp add: pte_entry user_page_def indices_inject [symmetric])
  show "sees s' d u = (if d = c \<and> vpn u = vpn v then map_option (\<lambda>pg. pg(off := b)) (sees s c v) else sees s d u)"
  proof (cases "d = c \<and> vpn u = vpn v")
    case True
    then show ?thesis using same u by (auto simp: sees_def pt pg)
  next
    case False
    then show ?thesis using once by (auto simp: sees_def pt pg)
  qed
qed

section \<open>Releasing\<close>

primrec free_shape :: "shape \<Rightarrow> nat \<Rightarrow> mmu \<Rightarrow> mmu" where
  "free_shape Skip = (\<lambda>t s. s)"
| "free_shape Leaf = free_table 0"
| "free_shape (Node f) = (\<lambda>t s. free_page_table t (each_present (\<lambda>i. free_shape (f i)) t [0..<512] s))"

lemma each_present_append: "each_present f t (xs @ ys) s = each_present f t ys (each_present f t xs s)"
  by (induction xs arbitrary: s) auto

lemma each_present_skip: "(\<And>i c s. i \<in> set xs \<Longrightarrow> f i c s = s) \<Longrightarrow> each_present f t xs s = s"
  by (induction xs arbitrary: s) auto

lemma each_present_cong: "(\<And>i. i \<in> set xs \<Longrightarrow> f i = g i) \<Longrightarrow> each_present f t xs s = each_present g t xs s"
  by (induction xs arbitrary: s) auto

lemma free_table_shape:
  "free_table 1 = free_shape (Node (\<lambda>_. Leaf))" "free_table 2 = free_shape (Node (\<lambda>_. Node (\<lambda>_. Leaf)))"
  by (simp_all add: numeral_2_eq_2 fun_eq_iff)

lemma each_present_part:
  "a \<le> n \<Longrightarrow> (\<And>i c s. i < a \<Longrightarrow> f i c s = s) \<Longrightarrow> each_present f t [0..<n] s = each_present f t [a..<n] s"
  "a \<le> n \<Longrightarrow> (\<And>i c s. a \<le> i \<Longrightarrow> f i c s = s) \<Longrightarrow> each_present f t [0..<n] s = each_present f t [0..<a] s"
proof -
  assume "a \<le> n"
  then have up: "[0..<n] = [0..<a] @ [a..<n]" using upt_add_eq_append [of 0 a "n - a"] by simp
  show "(\<And>i c s. i < a \<Longrightarrow> f i c s = s) \<Longrightarrow> each_present f t [0..<n] s = each_present f t [a..<n] s"
    unfolding up each_present_append using each_present_skip [of "[0..<a]" f t s] by simp
  show "(\<And>i c s. a \<le> i \<Longrightarrow> f i c s = s) \<Longrightarrow> each_present f t [0..<n] s = each_present f t [0..<a] s"
    unfolding up each_present_append using each_present_skip [of "[a..<n]" f t] by simp
qed

lemma free_first_pd_shape: "free_first_pd = free_shape (Node (\<lambda>k. if k < 64 then Skip else Leaf))"
proof (intro ext)
  fix t s
  let ?f = "\<lambda>k. free_shape (if k < 64 then Skip else Leaf)"
  have "each_present ?f t [0..<512] s = each_present ?f t [64..<512] s" by (rule each_present_part(1)) auto
  also have "\<dots> = each_present (\<lambda>_. free_table 0) t [64..<512] s" by (rule each_present_cong) auto
  finally show "free_first_pd t s = free_shape (Node (\<lambda>k. if k < 64 then Skip else Leaf)) t s"
    by (simp only: free_first_pd_def free_shape.simps(3))
qed

lemma free_first_pdpt_shape:
  "free_first_pdpt = free_shape (Node (\<lambda>j. if j = 0 then Node (\<lambda>k. if k < 64 then Skip else Leaf) else Node (\<lambda>_. Leaf)))"
  unfolding fun_eq_iff free_first_pdpt_def free_shape.simps(3) [of "\<lambda>j. if j = 0 then _ j else _"] free_first_pd_shape free_table_shape
    if_distrib [of free_shape] by (intro allI refl)

lemma free_page_directory_shape:
  assumes "dir \<noteq> k"
  shows "free_page_directory k dir s = free_shape user_part dir s"
proof -
  let ?h = "\<lambda>i. if i = 0 then Node (\<lambda>j. if j = 0 then Node (\<lambda>k. if k < 64 then Skip else Leaf) else Node (\<lambda>_. Leaf)) else Node (\<lambda>_. Node (\<lambda>_. Leaf))"
  let ?f = "\<lambda>i :: nat. free_shape (if 256 \<le> i then Skip else ?h i)"
  have "each_present ?f dir [0..<512] s = each_present ?f dir [0..<256] s" by (rule each_present_part(2)) auto
  also have "\<dots> = each_present (\<lambda>i. if i = 0 then free_first_pdpt else free_table 2) dir [0..<256] s"
    unfolding free_first_pdpt_shape free_table_shape by (rule each_present_cong) (simp only: set_upt atLeastLessThan_iff if_distrib [of free_shape], simp)
  finally show ?thesis
    using assms by (simp only: free_page_directory_def user_part_def free_shape.simps(3) if_False)
qed

text \<open>Dropping references changes nothing but the counts, and frees the frames whose count reaches zero.\<close>

definition drops :: "(nat \<Rightarrow> nat) \<Rightarrow> mmu \<Rightarrow> mmu \<Rightarrow> bool" where
  "drops n s s' \<longleftrightarrow> m_table s' = m_table s \<and> m_page s' = m_page s \<and> pmm_inv (m_pmm s') \<and>
     (\<forall>g. frame_refs (m_pmm s') g + n g = frame_refs (m_pmm s) g) \<and>
     (\<forall>x. frame_used (m_pmm s') x \<longleftrightarrow> frame_used (m_pmm s) x \<and> \<not> (0 < frame_refs (m_pmm s) x \<and> frame_refs (m_pmm s') x = 0))"

lemma drops_trans: "drops n s s1 \<Longrightarrow> drops m s1 s2 \<Longrightarrow> drops (\<lambda>g. n g + m g) s s2"
  unfolding drops_def by (auto; metis add_is_0 add.assoc add.commute not_gr0)

lemma drops_none: "pmm_inv (m_pmm s) \<Longrightarrow> drops (\<lambda>g. 0) s s"
  by (auto simp: drops_def)

lemma drop_one:
  assumes inv: "pmm_inv (m_pmm s)" and g: "0 < frame_refs (m_pmm s) f"
  shows "drops (\<lambda>g. if f = g then 1 else 0) s (s\<lparr>m_pmm := frame_remove_ref (of_nat f) (m_pmm s)\<rparr>)"
proof -
  have wf: "pmm_wf (m_pmm s)" using inv by (simp add: pmm_inv_def)
  note b = refs_bound [OF wf g]
  have u: "unat (of_nat f :: u32) = f" using b by (simp only: unat_frame)
  show ?thesis using remove_ref_refs [OF wf, of "of_nat f"] remove_ref_used [OF wf, of "of_nat f"] b u g remove_ref_inv [OF inv, of "of_nat f"]
    by (auto simp: drops_def)
qed

lemma free_page_table_keeps:
  assumes inv: "pmm_inv (m_pmm s)" and t: "frame_refs (m_pmm s) t = 0" "frame_used (m_pmm s) t"
  shows "free_page_table t s = s"
proof -
  have wf: "pmm_wf (m_pmm s)" using inv by (simp add: pmm_inv_def)
  have "t < 2 ^ 32" by (rule frame_used_bound [OF wf t(2)])
  then have "unat (of_nat t :: u32) = t" by (simp only: unat_frame)
  then have "frame_remove_ref (of_nat t) (m_pmm s) = m_pmm s"
    using wf t(1) by (auto simp: frame_remove_ref_def frame_refs_def ucast_frame_less word_gt_0 unat_eq_0 elim!: pmm_wfE split: if_splits)
  then show ?thesis by (simp add: free_page_table_def)
qed

lemma drops_table:
  assumes d: "drops n s s'" and t: "frame_refs (m_pmm s) t = 0" "frame_used (m_pmm s) t"
  shows "free_page_table t s' = s'"
proof (rule free_page_table_keeps)
  have "frame_refs (m_pmm s') t + n t = frame_refs (m_pmm s) t" using d unfolding drops_def by blast
  then show "frame_refs (m_pmm s') t = 0" using t(1) by simp
qed (use d t in \<open>simp_all add: drops_def\<close>)

lemma each_present_drops:
  assumes step: "\<And>i s'. i \<in> set xs \<Longrightarrow> present (m_table s t i) \<Longrightarrow> m_table s' = m_table s \<Longrightarrow> pmm_inv (m_pmm s') \<Longrightarrow>
      (\<And>g. n i g \<le> frame_refs (m_pmm s') g \<and> frame_refs (m_pmm s') g \<le> frame_refs (m_pmm s) g) \<Longrightarrow>
      (\<And>x. frame_used (m_pmm s) x \<Longrightarrow> frame_refs (m_pmm s) x = 0 \<Longrightarrow> frame_used (m_pmm s') x) \<Longrightarrow> drops (n i) s' (f i (child s t i) s')"
    and "distinct xs" "pmm_inv (m_pmm s)" "\<And>g. (\<Sum>i\<in>kids s t (set xs). n i g) \<le> frame_refs (m_pmm s) g"
  shows "drops (\<lambda>g. \<Sum>i\<in>kids s t (set xs). n i g) s (each_present f t xs s)"
  using assms
proof (induction xs rule: rev_induct)
  case Nil
  then show ?case by (simp add: drops_none)
next
  case (snoc i xs)
  let ?s = "each_present f t xs s"
  have un: "kids s t (set (xs @ [i])) = (if present (m_table s t i) then insert i (kids s t (set xs)) else kids s t (set xs))" by auto
  have sum: "(\<Sum>i\<in>kids s t (set (xs @ [i])). n i g) = (\<Sum>i\<in>kids s t (set xs). n i g) + (if present (m_table s t i) then n i g else 0)" for g
    unfolding un using snoc.prems(2) by (simp add: add.commute)
  have d: "drops (\<lambda>g. \<Sum>i\<in>kids s t (set xs). n i g) s ?s"
  proof (rule snoc.IH)
    show "(\<Sum>i\<in>kids s t (set xs). n i g) \<le> frame_refs (m_pmm s) g" for g using snoc.prems(4) [of g] unfolding sum by simp
  qed (use snoc.prems in auto)
  have "drops (\<lambda>g. if present (m_table s t i) then n i g else 0) ?s (each_present f t [i] ?s)"
  proof (cases "present (m_table s t i)")
    case True
    have r: "frame_refs (m_pmm ?s) g + (\<Sum>i\<in>kids s t (set xs). n i g) = frame_refs (m_pmm s) g" for g using d by (simp only: drops_def)
    have "n i g \<le> frame_refs (m_pmm ?s) g" for g using r [of g] snoc.prems(4) [of g] True unfolding sum by simp
    moreover have "frame_refs (m_pmm ?s) g \<le> frame_refs (m_pmm s) g" for g using r [of g] by linarith
    ultimately show ?thesis using True d snoc.prems(1) [of i ?s] by (simp add: drops_def)
  next
    case False
    with d show ?thesis using drops_none [of ?s] by (simp add: drops_def)
  qed
  from drops_trans [OF d this] show ?case unfolding sum each_present_append .
qed

lemma free_shape_drops:
  "mmu_ok sh s t \<Longrightarrow> (\<And>x. x \<in> tabs sh s t \<Longrightarrow> frame_refs (m_pmm s) x = 0) \<Longrightarrow>
   (\<And>g. card (leaves sh s t g) \<le> frame_refs (m_pmm s) g) \<Longrightarrow> drops (\<lambda>g. card (leaves sh s t g)) s (free_shape sh t s)"
proof (induction sh arbitrary: s t)
  case Skip
  then show ?case by (simp add: leaves_def drops_none mmu_ok_def)
next
  case Leaf
  let ?n = "\<lambda>i g. if child s t i = g then 1 else 0 :: nat"
  have card: "card (leaves Leaf s t g) = (\<Sum>i\<in>kids s t (set [0..<512]). ?n i g)" for g
  proof -
    have "(\<Sum>i\<in>kids s t (set [0..<512]). ?n i g) = card {i \<in> kids s t (set [0..<512]). child s t i = g}"
      by (simp add: sum.If_cases Int_def conj_assoc)
    then show ?thesis by (simp add: card_leaves_Leaf conj_assoc)
  qed
  let ?s = "each_present (\<lambda>_ f s. s\<lparr>m_pmm := frame_remove_ref (of_nat f) (m_pmm s)\<rparr>) t [0..<512] s"
  have inv: "pmm_inv (m_pmm s)" "frame_used (m_pmm s) t" using Leaf.prems(1) by (auto simp: mmu_ok_def)
  have d: "drops (\<lambda>g. card (leaves Leaf s t g)) s ?s"
    unfolding card
  proof (rule each_present_drops)
    show "drops (?n i) s' (s'\<lparr>m_pmm := frame_remove_ref (of_nat (child s t i)) (m_pmm s')\<rparr>)"
      if "pmm_inv (m_pmm s')" and "\<And>g. ?n i g \<le> frame_refs (m_pmm s') g \<and> frame_refs (m_pmm s') g \<le> frame_refs (m_pmm s) g" for i s'
      using drop_one [OF that(1), of "child s t i"] that(2) [of "child s t i"] by simp
  qed (use Leaf.prems inv in \<open>auto simp: card [symmetric] simp del: set_upt\<close>)
  have z: "frame_refs (m_pmm s) t = 0" using Leaf.prems(2) by simp
  have "free_page_table t ?s = ?s" by (rule drops_table [OF d z inv(2)])
  with d show ?case by simp
next
  case (Node f)
  let ?n = "\<lambda>i g. card (leaves (f i) s (child s t i) g)"
  let ?s = "each_present (\<lambda>i. free_shape (f i)) t [0..<512] s"
  have inv: "pmm_inv (m_pmm s)" "frame_used (m_pmm s) t" using Node.prems(1) by (auto simp: mmu_ok_def)
  have k: "kids s t (set [0..<512]) = present_idx s t" by (auto simp: present_idx_def)
  have d: "drops (\<lambda>g. card (leaves (Node f) s t g)) s ?s"
    unfolding card_leaves_Node k [symmetric]
  proof (rule each_present_drops)
    fix i and s' :: mmu
    assume i: "i \<in> set [0..<512]" "present (m_table s t i)" and s': "m_table s' = m_table s" "pmm_inv (m_pmm s')"
      and r: "\<And>g. ?n i g \<le> frame_refs (m_pmm s') g \<and> frame_refs (m_pmm s') g \<le> frame_refs (m_pmm s) g"
      and u: "\<And>x. frame_used (m_pmm s) x \<Longrightarrow> frame_refs (m_pmm s) x = 0 \<Longrightarrow> frame_used (m_pmm s') x"
    have pi: "i \<in> present_idx s t" using i by (simp add: present_idx_def)
    have c: "leaves (f i) s' (child s t i) = leaves (f i) s (child s t i)" "tabs (f i) s' (child s t i) = kid_tabs f s t i"
      "tree (f i) s' (child s t i) = tree (f i) s (child s t i)"
      by (simp_all add: leaves_def fun_eq_iff tables_cong [OF s'(1)])
    have z: "frame_refs (m_pmm s) x = 0" if "x \<in> kid_tabs f s t i" for x
      using Node.prems(2) mmu_ok_child(3) [OF Node.prems(1) pi] that by blast
    have "drops (\<lambda>g. card (leaves (f i) s' (child s t i) g)) s' (free_shape (f i) (child s t i) s')"
    proof (rule Node.IH)
      show "mmu_ok (f i) s' (child s t i)"
        using mmu_ok_child(1) [OF Node.prems(1) pi] c s'(2) u z by (simp add: mmu_ok_def)
      show "frame_refs (m_pmm s') x = 0" if "x \<in> tabs (f i) s' (child s t i)" for x using z [of x] r [of x] that c(2) by simp
      show "card (leaves (f i) s' (child s t i) g) \<le> frame_refs (m_pmm s') g" for g using r [of g] c(1) by simp
    qed simp
    then show "drops (?n i) s' (free_shape (f i) (child s t i) s')" by (simp add: c(1))
  qed (use Node.prems(3) inv in \<open>auto simp: card_leaves_Node k simp del: set_upt\<close>)
  have z: "frame_refs (m_pmm s) t = 0" using Node.prems(2) by simp
  have "free_page_table t ?s = ?s" by (rule drops_table [OF d z inv(2)])
  with d show ?case by (simp only: free_shape.simps(3))
qed

lemma free_spaces:
  assumes s: "spaces C s" and c: "c \<in> C" and k: "c \<noteq> k" and s': "s' = free_page_directory k c s"
  shows "spaces (C - {c}) s'" "sees s' = sees s"
    "frame_used (m_pmm s') g \<longleftrightarrow> frame_used (m_pmm s) g \<and> \<not> (mapped s c g \<noteq> {} \<and> (\<forall>d\<in>C - {c}. mapped s d g = {}))"
proof -
  have d: "drops (\<lambda>g. card (mapped s c g)) s s'"
    unfolding s' free_page_directory_shape [OF k] using spacesD(4,5) [OF s c] mapped_refs(1) [OF s c] by (rule free_shape_drops)
  have fin: "finite C" by (rule spacesD(1) [OF s])
  have tab: "m_table s' = m_table s" and pg: "m_page s' = m_page s" and inv: "pmm_inv (m_pmm s')" using d by (auto simp: drops_def)
  note e = tables_cong [OF tab]
  have refs: "frame_refs (m_pmm s') g + card (mapped s c g) = frame_refs (m_pmm s) g" for g using d unfolding drops_def by blast
  have sum: "frame_refs (m_pmm s') g = (\<Sum>d\<in>C - {c}. card (mapped s d g))" for g
    using refs [of g] spacesD(3) [OF s, of g] sum.remove [OF fin c, of "\<lambda>d. card (mapped s d g)"] by simp
  have used: "frame_used (m_pmm s') x \<longleftrightarrow> frame_used (m_pmm s) x \<and> \<not> (0 < frame_refs (m_pmm s) x \<and> frame_refs (m_pmm s') x = 0)" for x
    using d by (simp only: drops_def)
  show "sees s' = sees s" by (auto simp: fun_eq_iff sees_def pte_entry e pg)
  have ml: "mapped s' = mapped s" by (simp add: leaves_def fun_eq_iff e)
  show "spaces (C - {c}) s'"
  proof (rule spacesI)
    show "mmu_ok user_part s' b" if "b \<in> C - {c}" for b
      using spacesD(4,5) [OF s, of b] that inv used by (auto simp: mmu_ok_def e)
    show "frame_refs (m_pmm s') x = 0" if "b \<in> C - {c}" "x \<in> tabs user_part s' b" for b x
      using spacesD(5) [OF s, of b x] that refs [of x] by (simp add: e)
    show "frame_refs (m_pmm s') (frame_no (entry_at s' b is)) = 1"
      if b: "b \<in> C - {c}" and p: "path user_part is" and w: "user_writable (entry_at s' b is)" for b "is"
    proof -
      let ?g = "frame_no (entry_at s b is)"
      have one: "frame_refs (m_pmm s) ?g = 1" using spacesD(7) [OF s _ p] b w by (simp add: e)
      have "0 < card (mapped s b ?g)"
        using mapped_entry(1) [OF s _ p] b w by (auto simp: e user_writable_def card_gt_0_iff)
      then have "card (mapped s c ?g) = 0" using mapped_refs(2) [OF s _ c, of b ?g] b one by (simp del: card_eq_0_iff card_0_eq)
      then show ?thesis using refs [of ?g] one by (simp only: e)
    qed
  qed (use fin inv sum spacesD(6) [OF s] in \<open>simp_all add: e ml\<close>)
  have "frame_refs (m_pmm s') g = 0 \<longleftrightarrow> (\<forall>d\<in>C - {c}. mapped s d g = {})" unfolding sum using fin by simp
  moreover have "0 < frame_refs (m_pmm s) g \<and> frame_refs (m_pmm s') g = 0 \<longleftrightarrow> mapped s c g \<noteq> {} \<and> frame_refs (m_pmm s') g = 0"
    using refs [of g] card_gt_0_iff [of "mapped s c g"] by auto
  ultimately show "frame_used (m_pmm s') g \<longleftrightarrow> frame_used (m_pmm s) g \<and> \<not> (mapped s c g \<noteq> {} \<and> (\<forall>d\<in>C - {c}. mapped s d g = {}))"
    using used [of g] by simp
qed

section \<open>Copy on write is copying\<close>

datatype space_event =
    Fork mmu_context mmu_context
  | Fault mmu_context u64 u64
  | Store mmu_context u64 nat u8
  | Release mmu_context

text \<open>Address spaces that are copied whole: what each context sees at each address.\<close>

type_synonym views = "mmu_context \<Rightarrow> u64 \<Rightarrow> (nat \<Rightarrow> u8) option"

fun eager :: "space_event \<Rightarrow> views \<Rightarrow> views" where
  "eager (Fork src t) A = A(t := A src)"
| "eager (Fault c err v) A = A"
| "eager (Store c v off b) A = A(c := \<lambda>u. if vpn u = vpn v then map_option (\<lambda>pg. pg(off := b)) (A c v) else A c u)"
| "eager (Release c) A = A(c := \<lambda>_. None)"

definition view :: "mmu_context set \<Rightarrow> mmu \<Rightarrow> views" where
  "view C s c = (if c \<in> C then sees s c else (\<lambda>_. None))"

inductive space_step :: "mmu_context \<Rightarrow> mmu_context set \<times> mmu \<Rightarrow> space_event \<Rightarrow> mmu_context set \<times> mmu \<Rightarrow> bool" for k where
  fork: "src \<in> C \<Longrightarrow> \<forall>g. frame_refs (m_pmm s) g + card (mapped s src g) \<le> 255 \<Longrightarrow> mmu_clone_user src s = Ret (t, s') \<Longrightarrow>
    space_step k (C, s) (Fork src t) (insert t C, s')"
| fault: "c \<in> C \<Longrightarrow> user_page v \<Longrightarrow> present (pte s c v) \<Longrightarrow> page_fault_cow c err v s = (r, s') \<Longrightarrow>
    space_step k (C, s) (Fault c err v) (C, s')"
| store: "c \<in> C \<Longrightarrow> user_page v \<Longrightarrow> user_store c v off b s = Some s' \<Longrightarrow> space_step k (C, s) (Store c v off b) (C, s')"
| release: "c \<in> C \<Longrightarrow> c \<noteq> k \<Longrightarrow> space_step k (C, s) (Release c) (C - {c}, free_page_directory k c s)"

inductive space_run :: "mmu_context \<Rightarrow> mmu_context set \<times> mmu \<Rightarrow> space_event list \<Rightarrow> mmu_context set \<times> mmu \<Rightarrow> bool" for k where
  nil: "space_run k x [] x"
| cons: "space_step k x ev y \<Longrightarrow> space_run k y evs z \<Longrightarrow> space_run k x (ev # evs) z"

lemma space_step_refines:
  "space_step k x ev y \<Longrightarrow> spaces (fst x) (snd x) \<Longrightarrow> spaces (fst y) (snd y) \<and> view (fst y) (snd y) = eager ev (view (fst x) (snd x))"
proof (induction rule: space_step.induct)
  case (fork src C s t s')
  then show ?case
    using clone_user_spaces [of C s src t s'] clone_user_sees [of C s src t s'] clone_user_facts(2) [of C s src t s'] by (auto simp: view_def fun_eq_iff)
next
  case (fault c C v s err r s')
  then show ?case using page_fault_cow_spaces [of C s c v err r s'] by (auto simp: view_def fun_eq_iff)
next
  case (store c C v off b s s')
  then show ?case using user_store_spaces [of C s c v off b s'] by (auto simp: view_def fun_eq_iff)
next
  case (release c C s)
  then show ?case using free_spaces [of C s c k] by (auto simp: view_def fun_eq_iff)
qed

lemma space_run_refines:
  "space_run k x evs y \<Longrightarrow> spaces (fst x) (snd x) \<Longrightarrow> spaces (fst y) (snd y) \<and> view (fst y) (snd y) = fold eager evs (view (fst x) (snd x))"
  by (induction rule: space_run.induct) (use space_step_refines in fastforce)+

end
