(* ===== verification/Forking.thy ===== *)
theory Forking
  imports Spaces
begin

text \<open>
  Forking makes progress when there are frames, and a run of forks, faults, stores and releases shows every
  address space what it would see if forks copied.
\<close>

section \<open>Enough frames\<close>

lemma room_cong:
  "frame_used p' = frame_used p \<Longrightarrow> total_frames p' = total_frames p \<Longrightarrow> free_mem_addr p' = free_mem_addr p \<Longrightarrow> room p' = room p"
  by (simp add: room_def kernel_limit_def)

lemma add_ref_free_mem [simp]: "free_mem_addr (frame_add_ref f p) = free_mem_addr p"
  by (auto simp: frame_add_ref_def split: option.splits)

lemma clone_leaves_free_mem: "free_mem_addr (m_pmm (clone_leaves cow src t xs s)) = free_mem_addr (m_pmm s)"
  by (induction cow src t xs s rule: clone_leaves.induct) (simp_all add: clone_leaf_def Let_def)

lemma alloc_table_room:
  assumes "pmm_inv (m_pmm s)" "0 < room (m_pmm s)"
  obtains t s1 where "alloc_table s = Ret (t, s1)" "room (m_pmm s) \<le> Suc (room (m_pmm s1))"
proof -
  have "pmm_wf (m_pmm s)" using assms(1) by (simp add: pmm_inv_def)
  from alloc_frame_room [OF this assms(2)] obtain f p where "alloc_frame (m_pmm s) = Some (f, p)" "room (m_pmm s) \<le> Suc (room p)" .
  then show thesis by (intro that) (auto simp: alloc_table_def)
qed

lemma finite_tabs: "finite (tabs sh s t)"
  by (induction sh arbitrary: t) (auto simp: present_idx_def)

lemma card_tabs_Node:
  assumes "tree (Node f) s t"
  shows "card (tabs (Node f) s t) = Suc (\<Sum>i\<in>present_idx s t. card (kid_tabs f s t i))"
proof -
  have "card (\<Union>i\<in>present_idx s t. kid_tabs f s t i) = (\<Sum>i\<in>present_idx s t. card (kid_tabs f s t i))"
    using assms by (intro card_UN_disjoint) (auto simp: present_idx_def finite_tabs)
  moreover have "t \<notin> (\<Union>i\<in>present_idx s t. kid_tabs f s t i)" using assms by auto
  ultimately show ?thesis by (simp add: finite_tabs present_idx_def)
qed

definition returns_within :: "nat \<Rightarrow> mmu \<Rightarrow> (mmu, nat \<times> mmu) outcome \<Rightarrow> bool" where
  "returns_within n s r \<longleftrightarrow> (\<exists>t s'. r = Ret (t, s') \<and> room (m_pmm s) \<le> room (m_pmm s') + n)"

lemma clone_children_room:
  assumes live: "\<And>i src s. mmu_ok (f i) s src \<Longrightarrow> refs_ok (f i) s src \<Longrightarrow> card (tabs (f i) s src) \<le> room (m_pmm s) \<Longrightarrow>
      returns_within (card (tabs (f i) s src)) s (clone_shape (f i) src s)"
  shows "kids_ready f src t (set xs) s \<Longrightarrow> distinct xs \<Longrightarrow> (\<Sum>i\<in>kids s src (set xs). card (kid_tabs f s src i)) \<le> room (m_pmm s) \<Longrightarrow>
    \<exists>s'. clone_children (\<lambda>i. clone_shape (f i)) src t xs s = Ret s' \<and>
      room (m_pmm s) \<le> room (m_pmm s') + (\<Sum>i\<in>kids s src (set xs). card (kid_tabs f s src i))"
proof (induction xs arbitrary: s)
  case Nil
  then show ?case by simp
next
  case (Cons i xs)
  have un: "set (i # xs) = {i} \<union> set xs" and dj: "{i} \<inter> set xs = {}" using Cons.prems(2) by auto
  note r = Cons.prems(1) [unfolded un]
  show ?case
  proof (cases "present (m_table s src i)")
    case False
    then have k: "kids s src (set (i # xs)) = kids s src (set xs)" by auto
    have "kids_ready f src t (set xs) s"
      using Cons.prems(1) unfolding kids_ready_def k by auto
    with Cons.IH [of s] Cons.prems(2,3) False show ?thesis unfolding k by simp
  next
    case True
    then have i: "i \<in> kids s src ({i} \<union> set xs)" and ki': "{j. j = i \<and> present (m_table s src j)} = {i}" by auto
    have sum: "(\<Sum>j\<in>kids s src (set (i # xs)). h j) = h i + (\<Sum>j\<in>kids s src (set xs). (h j :: nat))" for h
      unfolding un by (subst kids_sum [OF _ _ dj]) (simp_all add: ki')
    have ok: "mmu_ok (f i) s (child s src i)" and refs: "refs_ok (f i) s (child s src i)"
      using kids_ready_refs [OF r i] by auto
    have "card (kid_tabs f s src i) \<le> room (m_pmm s)" using Cons.prems(3) unfolding sum by simp
    from live [OF ok refs this] obtain c s1 where c: "clone_shape (f i) (child s src i) s = Ret (c, s1)"
      and rm: "room (m_pmm s) \<le> room (m_pmm s1) + card (kid_tabs f s src i)" by (auto simp: returns_within_def)
    let ?s = "set_entry t i (frame_addr c OR (m_table s1 src i AND 0xFFF)) s1"
    have d: "kids_done f src t {i} s ?s" by (rule kid_done [OF r i clone_shape_copies [OF ok refs c]])
    note o = kids_other(3) [OF r d dj] and src = kids_src [OF r d]
    have src: "m_table ?s src = m_table s src" by (rule src) simp
    have eq: "(\<Sum>j\<in>kids ?s src (set xs). card (kid_tabs f ?s src j)) = (\<Sum>j\<in>kids s src (set xs). card (kid_tabs f s src j))"
      unfolding src by (rule sum.cong) (simp_all add: o del: set_entry_table)
    have pm: "m_pmm ?s = m_pmm s1" by simp
    have "\<exists>s'. clone_children (\<lambda>i. clone_shape (f i)) src t xs ?s = Ret s' \<and>
        room (m_pmm ?s) \<le> room (m_pmm s') + (\<Sum>j\<in>kids s src (set xs). card (kid_tabs f s src j))"
      using Cons.IH [OF kids_ready_rest [OF r d dj]] Cons.prems(2,3) rm unfolding sum eq pm by simp
    then show ?thesis using True c rm unfolding sum pm by (auto simp del: set_entry_table)
  qed
qed

lemma clone_shape_room:
  "mmu_ok sh s src \<Longrightarrow> refs_ok sh s src \<Longrightarrow> card (tabs sh s src) \<le> room (m_pmm s) \<Longrightarrow>
   returns_within (card (tabs sh s src)) s (clone_shape sh src s)"
proof (induction sh arbitrary: s src)
  case Skip
  then show ?case by (simp add: returns_within_def share_def)
next
  case Leaf
  have inv: "pmm_inv (m_pmm s)" using Leaf.prems(1) by (simp add: mmu_ok_def)
  obtain t s1 where a: "alloc_table s = Ret (t, s1)" and r: "room (m_pmm s) \<le> Suc (room (m_pmm s1))"
    by (rule alloc_table_room [OF inv]) (use Leaf.prems(3) in auto)
  let ?s = "clone_leaves True src t [0..<512] s1"
  have c: "clone_table 0 True src s = Ret (t, ?s)" by (simp add: a)
  have "leaf_copied src t (set [0..<512]) s1 ?s" by (rule clone_leaf_done [OF Leaf.prems(1,2) a])
  then have "room (m_pmm ?s) = room (m_pmm s1)" by (intro room_cong) (simp_all add: leaf_copied_def clone_leaves_free_mem)
  then show ?case using c r by (simp add: returns_within_def)
next
  case (Node f)
  have inv: "pmm_inv (m_pmm s)" and tr: "tree (Node f) s src" using Node.prems(1) by (auto simp: mmu_ok_def)
  note card = card_tabs_Node [OF tr]
  obtain t s1 where a: "alloc_table s = Ret (t, s1)" and r: "room (m_pmm s) \<le> Suc (room (m_pmm s1))"
    by (rule alloc_table_room [OF inv]) (use Node.prems(3) card in auto)
  note k = kids_ready_alloc [OF Node.prems(1,2) a]
  have kk: "kids s1 src (set [0..<512]) = present_idx s src" by (auto simp: present_idx_def k(3))
  have eq: "(\<Sum>i\<in>kids s1 src (set [0..<512]). card (kid_tabs f s1 src i)) = (\<Sum>i\<in>present_idx s src. card (kid_tabs f s src i))"
    unfolding kk by (rule sum.cong) (simp_all add: k(3,5))
  have "\<exists>s'. clone_children (\<lambda>i. clone_shape (f i)) src t [0..<512] s1 = Ret s' \<and>
      room (m_pmm s1) \<le> room (m_pmm s') + (\<Sum>i\<in>kids s1 src (set [0..<512]). card (kid_tabs f s1 src i))"
  proof (rule clone_children_room)
    show "kids_ready f src t (set [0..<512]) s1" using k(1) by simp
    show "(\<Sum>i\<in>kids s1 src (set [0..<512]). card (kid_tabs f s1 src i)) \<le> room (m_pmm s1)"
      using Node.prems(3) r unfolding eq card by simp
  qed (use Node.IH in auto)
  then show ?case using a r card unfolding eq by (auto simp: returns_within_def)
qed

lemma clone_user_returns:
  assumes s: "spaces C s" and src: "src \<in> C" and b: "\<And>g. frame_refs (m_pmm s) g + card (mapped s src g) \<le> 255"
    and r: "card (tabs user_part s src) \<le> room (m_pmm s)"
  shows "\<exists>t s'. mmu_clone_user src s = Ret (t, s')"
proof -
  have "refs_ok user_part s src"
    unfolding refs_ok_def using b mapped_refs(1) [OF s src] by (metis card_gt_0_iff finite_leaves less_le_trans)
  from clone_shape_room [OF spacesD(4) [OF s src] this r] show ?thesis by (auto simp: returns_within_def mmu_clone_user_shape)
qed

lemma room_found:
  assumes wf: "pmm_wf p" and r: "0 < room p"
  shows "fst (pmm_first_free p) \<noteq> 0xFFFFFFFF"
proof -
  from alloc_frame_room [OF wf r] obtain f p' where "alloc_frame p = Some (f, p')" .
  then show ?thesis by (auto simp: alloc_frame_def split: prod.splits if_splits)
qed

lemma fault_resolves:
  assumes s: "spaces C s" and c: "c \<in> C" "user_page v" and e: "present (pte s c v)" "pte s c v AND MMU_COW \<noteq> 0" "pte s c v AND MMU_USER \<noteq> 0"
    and err: "err AND 1 \<noteq> 0" "err AND 2 \<noteq> 0" and r: "0 < room (m_pmm s)"
  obtains s' where "page_fault_cow c err v s = (Resolved, s')"
proof -
  have "pmm_wf (m_pmm s)" using spacesD(2) [OF s] by (simp add: pmm_inv_def)
  from room_found [OF this r] have "fst (page_fault_cow c err v s) = Resolved"
    using e err by (auto simp: page_fault_cow_def pte_def Let_def split: option.splits prod.splits)
  then show thesis using that by (metis prod.collapse)
qed

section \<open>Runs of address spaces\<close>

text \<open>
  C6. Copy on write is copying. Over any sequence of forks, page faults, stores by user code and releases of
  address spaces, what each address space shows at each user address is what it would show if every fork
  copied all pages; and the address spaces stay separate trees with exact frame counts in which a frame that
  user code can write is mapped once. A fork takes part as long as no frame would be mapped more than 255
  times, the range of its counter.
\<close>

theorem cow_refines_copying:
  assumes "spaces C s" "space_run k (C, s) evs (C', s')"
  shows "spaces C' s' \<and> view C' s' = fold eager evs (view C s)"
  using space_run_refines [OF assms(2)] assms(1) by simp

text \<open>
  C22. Forking and writing make progress. A fork returns if the search finds as many frames as the address
  space has tables; and after a write fault on a copy-on-write page, with a frame to be found, the store that
  faulted succeeds.
\<close>

theorem cow_progress:
  assumes s: "spaces C s" and c: "c \<in> C"
  shows "((\<forall>g. frame_refs (m_pmm s) g + card (mapped s c g) \<le> 255) \<and> card (tabs user_part s c) \<le> room (m_pmm s) \<longrightarrow>
      (\<exists>t s'. mmu_clone_user c s = Ret (t, s'))) \<and>
    (user_page v \<and> present (pte s c v) \<and> pte s c v AND MMU_COW \<noteq> 0 \<and> pte s c v AND MMU_USER \<noteq> 0 \<and> 0 < room (m_pmm s) \<longrightarrow>
      (\<exists>s1 s2. page_fault_cow c 7 v s = (Resolved, s1) \<and> user_store c v off b s1 = Some s2))"
proof (intro conjI impI)
  assume "(\<forall>g. frame_refs (m_pmm s) g + card (mapped s c g) \<le> 255) \<and> card (tabs user_part s c) \<le> room (m_pmm s)"
  then show "\<exists>t s'. mmu_clone_user c s = Ret (t, s')" using clone_user_returns [OF s c] by simp
next
  assume a: "user_page v \<and> present (pte s c v) \<and> pte s c v AND MMU_COW \<noteq> 0 \<and> pte s c v AND MMU_USER \<noteq> 0 \<and> 0 < room (m_pmm s)"
  then obtain s1 where f: "page_fault_cow c 7 v s = (Resolved, s1)" using fault_resolves [OF s c, of v 7] by auto
  then have "user_writable (pte s1 c v)" using page_fault_cow_spaces [OF s c _ _ f] a by simp
  then show "\<exists>s1 s2. page_fault_cow c 7 v s = (Resolved, s1) \<and> user_store c v off b s1 = Some s2" using f by (simp add: user_store_def Let_def)
qed

text \<open>
  C23. Releasing an address space frees a frame exactly if this address space mapped it and no other does, and
  leaves what the others show as it was. The frames of its own page tables stay marked as used.
\<close>

theorem release_frees_pages:
  assumes s: "spaces C s" and c: "c \<in> C" and k: "c \<noteq> k" and s': "s' = free_page_directory k c s"
  shows "spaces (C - {c}) s' \<and> (\<forall>d v. sees s' d v = sees s d v) \<and>
    (\<forall>g. frame_used (m_pmm s') g \<longleftrightarrow> frame_used (m_pmm s) g \<and> \<not> (mapped s c g \<noteq> {} \<and> (\<forall>d\<in>C - {c}. mapped s d g = {}))) \<and>
    (\<forall>x\<in>tabs user_part s c. frame_used (m_pmm s') x)"
proof -
  have "frame_used (m_pmm s) x \<and> mapped s c x = {}" if "x \<in> tabs user_part s c" for x
    using spacesD(4) [OF s c] spacesD(5) [OF s c that] mapped_refs(1) [OF s c, of x] that by (simp add: mmu_ok_def)
  then show ?thesis using free_spaces [OF s c k s'] by simp
qed

section \<open>An address space with one page\<close>

definition one_page :: mmu where
  "one_page = \<lparr>m_pmm = \<lparr>frame_bitmap = Some [0x3FF, 0, 0], frame_ref_count = Some (replicate 8 0 @ 1 # replicate 55 0),
       total_frames = 64, free_mem_addr = 0x6800, pmm_is_ready = True\<rparr>,
     m_table = (\<lambda>t i. if (t, i) = (4, 2) then 0x5007 else if (t, i) = (5, 0) then 0x6007
       else if (t, i) = (6, 0) then 0x7007 else if (t, i) = (7, 0) then 0x8007 else 0),
     m_page = (\<lambda>f i. if f = 8 then 65 else 0)\<rparr>"

lemma one_page_table:
  "present_idx one_page 4 = {2}" "present_idx one_page 5 = {0}" "present_idx one_page 6 = {0}" "present_idx one_page 7 = {0}"
  "child one_page 4 2 = 5" "child one_page 5 0 = 6" "child one_page 6 0 = 7" "child one_page 7 0 = 8"
  by (auto simp: present_idx_def one_page_def present_def frame_no_def MMU_PRESENT_def drop_bit_eq_div split: if_splits)

lemma one_page_refs: "frame_refs (m_pmm one_page) g = (if g = 8 then 1 else 0)"
  by (auto simp: frame_refs_def one_page_def nth_append nth_Cons')

lemma one_page_leaves: "mapped one_page 4 g = (if g = 8 then {[2, 0, 0, 0]} else {})"
proof -
  have p: "i < 512 \<and> present (m_table one_page 7 i) \<longleftrightarrow> i = 0" for i
    using one_page_table(4) unfolding present_idx_def by blast
  have "x \<in> leaves Leaf one_page 7 g \<longleftrightarrow> (\<exists>i. x = [i] \<and> (i < 512 \<and> present (m_table one_page 7 i)) \<and> child one_page 7 i = g)" for x
    by (auto simp: leaves_def)
  then have "x \<in> leaves Leaf one_page 7 g \<longleftrightarrow> x = [0] \<and> g = 8" for x
    unfolding p using one_page_table(8) by auto
  then have "leaves Leaf one_page 7 g = (if g = 8 then {[0]} else {})" by auto
  then show ?thesis unfolding user_part_def leaves_Node one_page_table by (simp add: leaves_Node one_page_table)
qed

lemma one_page_tabs: "tabs user_part one_page 4 = {4, 5, 6, 7}" "tree user_part one_page 4"
  by (simp_all add: user_part_def one_page_table)

lemma one_page_spaces: "spaces {4} one_page"
proof (rule spacesI)
  have wf: "pmm_wf (m_pmm one_page)" by (simp add: pmm_wf_def one_page_def)
  have u: "frame_used (m_pmm one_page) 4" "frame_used (m_pmm one_page) 5" "frame_used (m_pmm one_page) 6"
    "frame_used (m_pmm one_page) 7" "frame_used (m_pmm one_page) 8"
    by (simp_all add: one_page_def frame_used_def bit_used_def)
  then show inv: "pmm_inv (m_pmm one_page)" using wf by (simp add: pmm_inv_def one_page_refs)
  show "mmu_ok user_part one_page c" if "c \<in> {4}" for c using that inv u by (simp add: mmu_ok_def one_page_tabs)
  show "frame_refs (m_pmm one_page) (frame_no (entry_at one_page c is)) = 1"
    if "c \<in> {4}" "path user_part is" "user_writable (entry_at one_page c is)" for c "is"
  proof -
    have "is \<in> mapped one_page 4 (frame_no (entry_at one_page 4 is))" using that by (simp add: leaves_def user_writable_def)
    with that(1) show ?thesis by (auto simp: one_page_leaves one_page_refs split: if_splits)
  qed
qed (auto simp: one_page_refs one_page_leaves one_page_tabs)

lemma one_page_pte: "pte one_page 4 0x10000000000 = 0x8007" "user_page 0x10000000000"
proof -
  have i: "indices 0x10000000000 = [2, 0, 0, 0]" by (simp add: indices_def PML4_IDX_def PDPT_IDX_def PD_IDX_def PT_IDX_def drop_bit_eq_div)
  show "user_page 0x10000000000" by (simp add: user_page_def i user_part_def)
  show "pte one_page 4 0x10000000000 = 0x8007"
    by (simp add: pte_entry i entry_at_def one_page_def present_def frame_no_def MMU_PRESENT_def drop_bit_eq_div)
qed

lemma one_page_room: "6 \<le> room (m_pmm one_page)"
proof -
  have "{10, 11, 12, 13, 14, 15} \<subseteq> {g. g < 32 * (unat (total_frames (m_pmm one_page)) div 32) \<and> kernel_limit (m_pmm one_page) \<le> g \<and> \<not> frame_used (m_pmm one_page) g}"
    by (simp add: one_page_def kernel_limit_def frame_used_def bit_used_def)
  then have "card {10::nat, 11, 12, 13, 14, 15} \<le> room (m_pmm one_page)" unfolding room_def by (intro card_mono) simp_all
  then show ?thesis by simp
qed

theorem cow_progress_witness:
  "\<exists>t s'. mmu_clone_user 4 one_page = Ret (t, s')"
  using cow_progress [OF one_page_spaces, of 4] one_page_room
  by (simp add: one_page_refs one_page_leaves one_page_tabs)

theorem release_frees_pages_witness:
  "frame_used (m_pmm one_page) 8 \<and> \<not> frame_used (m_pmm (free_page_directory 3 4 one_page)) 8 \<and>
   frame_used (m_pmm (free_page_directory 3 4 one_page)) 7"
proof -
  have "frame_used (m_pmm one_page) 8" "frame_used (m_pmm one_page) 7" by (simp_all add: one_page_def frame_used_def bit_used_def)
  with release_frees_pages [OF one_page_spaces, of 4 3] show ?thesis by (simp add: one_page_leaves one_page_tabs)
qed

text \<open>Fork, then the parent writes: the child still sees what was there.\<close>

lemma one_page_fork:
  obtains t s1 where "mmu_clone_user 4 one_page = Ret (t, s1)" "space_run 3 ({4}, one_page) [Fork 4 t] ({t, 4}, s1)"
    "t \<noteq> 4" "spaces {t, 4} s1" "pte s1 4 0x10000000000 = cowed 0x8007" "0 < room (m_pmm s1)"
proof -
  have b: "frame_refs (m_pmm one_page) g + card (mapped one_page 4 g) \<le> 255" for g by (simp add: one_page_refs one_page_leaves)
  note ok = spacesD(4) [OF one_page_spaces, of 4]
  have refs: "refs_ok user_part one_page 4" by (simp add: refs_ok_def one_page_refs one_page_leaves)
  have c: "card (tabs user_part one_page 4) = 4" by (simp add: one_page_tabs)
  have "returns_within 4 one_page (clone_shape user_part 4 one_page)"
    using clone_shape_room [OF ok refs] one_page_room unfolding c by simp
  then obtain t s1 where m: "mmu_clone_user 4 one_page = Ret (t, s1)" and r: "room (m_pmm one_page) \<le> room (m_pmm s1) + 4"
    by (auto simp: returns_within_def mmu_clone_user_shape)
  have four: "4 \<in> {4::nat}" by simp
  note e = clone_user_entries(1) [OF one_page_spaces four b m]
  show thesis
  proof (rule that [OF m])
    show "t \<noteq> 4" using clone_user_facts(2) [OF one_page_spaces four b m] by simp
    show "spaces {t, 4} s1" by (rule clone_user_spaces [OF one_page_spaces four b m])
    have "space_step 3 ({4}, one_page) (Fork 4 t) ({t, 4}, s1)" by (rule space_step.fork) (use m b in auto)
    then show "space_run 3 ({4}, one_page) [Fork 4 t] ({t, 4}, s1)" by (blast intro: space_run.intros)
    show "pte s1 4 0x10000000000 = cowed 0x8007" using e [of "indices 0x10000000000"] one_page_pte by (simp add: pte_entry user_page_def)
    show "0 < room (m_pmm s1)" using r one_page_room by simp
  qed
qed

theorem cow_refines_copying_witness:
  "\<exists>t s'. space_run 3 ({4}, one_page) [Fork 4 t, Fault 4 7 0x10000000000, Store 4 0x10000000000 0 66] ({t, 4}, s') \<and>
     t \<noteq> 4 \<and> sees s' t 0x10000000000 = Some (\<lambda>_. 65) \<and> sees s' 4 0x10000000000 = Some ((\<lambda>_. 65)(0 := 66))"
proof -
  let ?v = "0x10000000000 :: u64"
  obtain t s1 where m: "mmu_clone_user 4 one_page = Ret (t, s1)" "t \<noteq> 4" and sp: "spaces {t, 4} s1"
    and pt: "pte s1 4 ?v = cowed 0x8007" and rm: "0 < room (m_pmm s1)" by (rule one_page_fork)
  have fk: "space_step 3 ({4}, one_page) (Fork 4 t) ({t, 4}, s1)"
    by (rule space_step.fork) (use m in \<open>auto simp: one_page_refs one_page_leaves\<close>)
  have pr: "present (pte s1 4 ?v)" "pte s1 4 ?v AND MMU_COW \<noteq> 0" "pte s1 4 ?v AND MMU_USER \<noteq> 0"
    unfolding pt by (simp_all add: cowed_def cow_entry_def present_def mmu_flags)
  obtain s2 where f: "page_fault_cow 4 7 ?v s1 = (Resolved, s2)" using fault_resolves [OF sp _ one_page_pte(2) pr _ _ rm, of 7] by auto
  have w: "user_writable (pte s2 4 ?v)" using page_fault_cow_spaces [OF sp _ one_page_pte(2) pr(1) f] by simp
  then obtain s3 where st: "user_store 4 ?v 0 66 s2 = Some s3" by (simp add: user_store_def Let_def)
  have "space_step 3 ({t, 4}, s1) (Fault 4 7 ?v) ({t, 4}, s2)" by (rule space_step.fault [OF _ one_page_pte(2) pr(1) f]) simp
  moreover have "space_step 3 ({t, 4}, s2) (Store 4 ?v 0 66) ({t, 4}, s3)" by (rule space_step.store [OF _ one_page_pte(2) st]) simp
  ultimately have run: "space_run 3 ({4}, one_page) [Fork 4 t, Fault 4 7 ?v, Store 4 ?v 0 66] ({t, 4}, s3)"
    using fk by (blast intro: space_run.intros)
  have "sees one_page 4 ?v = Some (\<lambda>_. 65)"
    unfolding sees_def one_page_pte(1) by (simp add: one_page_pte(2) present_def mmu_flags frame_no_def drop_bit_eq_div) (simp add: one_page_def)
  then have "view {t, 4} s3 = fold eager [Fork 4 t, Fault 4 7 ?v, Store 4 ?v 0 66] (view {4} one_page)" "view {4} one_page 4 ?v = Some (\<lambda>_. 65)"
    using cow_refines_copying [OF one_page_spaces run] by (simp_all add: view_def)
  then have "view {t, 4} s3 t ?v = Some (\<lambda>_. 65)" "view {t, 4} s3 4 ?v = Some ((\<lambda>_. 65)(0 := 66))" using m(2) by simp_all
  then show ?thesis using run m(2) by (auto simp: view_def)
qed

end
