(* ===== verification/Heap.thy ===== *)
theory Heap
  imports Mmu
begin

text \<open>
  The kernel heap of libc/kheap.c and its wrappers in libc/mem.c: blocks with a header and a footer in
  byte-addressed memory, and an index of the holes ordered by size. Addresses and sizes are numbers; where
  the code computes with 32-bit or 64-bit integers that may wrap the reduction is written out. The memory
  beyond the end of the heap stands for the contents of the frames that growing maps there. The lock and the
  memory of the index array, which lies below the heap, are not part of the state.
\<close>

section \<open>Memory\<close>

type_synonym hmem = "nat \<Rightarrow> u8"

definition rd32 :: "hmem \<Rightarrow> nat \<Rightarrow> nat" where
  "rd32 m a = unat (m a) + 256 * unat (m (a + 1)) + 65536 * unat (m (a + 2)) + 16777216 * unat (m (a + 3))"

definition wr32 :: "nat \<Rightarrow> nat \<Rightarrow> hmem \<Rightarrow> hmem" where
  "wr32 a v m = m(a := of_nat v, a + 1 := of_nat (v div 256), a + 2 := of_nat (v div 65536), a + 3 := of_nat (v div 16777216))"

definition rd64 :: "hmem \<Rightarrow> nat \<Rightarrow> nat" where
  "rd64 m a = rd32 m a + 2 ^ 32 * rd32 m (a + 4)"

definition wr64 :: "nat \<Rightarrow> nat \<Rightarrow> hmem \<Rightarrow> hmem" where
  "wr64 a v m = wr32 (a + 4) (v div 2 ^ 32) (wr32 a v m)"

text \<open>Results of 32-bit and 64-bit arithmetic.\<close>

definition t32 :: "nat \<Rightarrow> nat" where "t32 n = n mod 2 ^ 32"
definition t64 :: "nat \<Rightarrow> nat" where "t64 n = n mod 2 ^ 64"
definition sub64 :: "nat \<Rightarrow> nat \<Rightarrow> nat" where "sub64 a b = t64 (a + 2 ^ 64 - b)"

section \<open>State\<close>

definition KHEAP_START :: nat where "KHEAP_START = 0xFFFFA00000000000"
definition KHEAP_INITIAL_SIZE :: nat where "KHEAP_INITIAL_SIZE = 0x1000000"
definition KHEAP_MAX_ADDR :: nat where "KHEAP_MAX_ADDR = 0xFFFFB00000000000"
definition HEAP_INDEX_SIZE :: nat where "HEAP_INDEX_SIZE = 0x20000"
definition HEAP_MAGIC :: nat where "HEAP_MAGIC = 0x123890AB"
definition HEAP_MIN_SIZE :: nat where "HEAP_MIN_SIZE = 0x70000"

record heap =
  h_mem :: hmem
  h_index :: "nat list"
  h_start :: nat
  h_end :: nat
  h_max :: nat
  h_supervisor :: bool
  h_readonly :: bool
  h_mmu :: mmu

text \<open>The fields of a header (12 bytes) and of a footer (16 bytes).\<close>

abbreviation header_t :: nat where "header_t \<equiv> 12"
abbreviation footer_t :: nat where "footer_t \<equiv> 16"

definition hd_magic :: "hmem \<Rightarrow> nat \<Rightarrow> nat" where "hd_magic m a = rd32 m a"
definition hd_hole :: "hmem \<Rightarrow> nat \<Rightarrow> bool" where "hd_hole m a \<longleftrightarrow> m (a + 4) \<noteq> 0"
definition hd_size :: "hmem \<Rightarrow> nat \<Rightarrow> nat" where "hd_size m a = rd32 m (a + 8)"
definition ft_magic :: "hmem \<Rightarrow> nat \<Rightarrow> nat" where "ft_magic m b = rd32 m b"
definition ft_header :: "hmem \<Rightarrow> nat \<Rightarrow> nat" where "ft_header m b = rd64 m (b + 8)"

definition put_header :: "nat \<Rightarrow> bool \<Rightarrow> nat \<Rightarrow> hmem \<Rightarrow> hmem" where
  "put_header a hole sz m = wr32 (a + 8) sz ((wr32 a HEAP_MAGIC m)(a + 4 := (if hole then 1 else 0)))"

definition put_footer :: "nat \<Rightarrow> nat \<Rightarrow> hmem \<Rightarrow> hmem" where
  "put_footer b a m = wr64 (b + 8) a (wr32 b HEAP_MAGIC m)"

section \<open>The index\<close>

definition header_t_less_than :: "hmem \<Rightarrow> nat \<Rightarrow> nat \<Rightarrow> bool" where
  "header_t_less_than m a b \<longleftrightarrow> hd_size m a < hd_size m b"

definition insert_ordered_array :: "nat \<Rightarrow> heap \<Rightarrow> (heap, heap) outcome" where
  "insert_ordered_array item h =
     (if HEAP_INDEX_SIZE \<le> length (h_index h) then Panic ''Ordered array: index is full (potential heap overflow)''
      else let less = (\<lambda>x. header_t_less_than (h_mem h) x item)
           in Ret (h\<lparr>h_index := takeWhile less (h_index h) @ item # dropWhile less (h_index h)\<rparr>))"

definition remove_ordered_array :: "nat \<Rightarrow> heap \<Rightarrow> heap" where
  "remove_ordered_array i h = h\<lparr>h_index := take i (h_index h) @ drop (Suc i) (h_index h)\<rparr>"

text \<open>The search loops of \<open>free_internal\<close>: drop an address from the index if it is there.\<close>

definition unindex :: "nat \<Rightarrow> heap \<Rightarrow> heap" where
  "unindex a h =
     (let i = length (takeWhile (\<lambda>x. x \<noteq> a) (h_index h))
      in if i < length (h_index h) then remove_ordered_array i h else h)"

fun find_hole :: "hmem \<Rightarrow> nat \<Rightarrow> bool \<Rightarrow> nat list \<Rightarrow> nat \<Rightarrow> nat option" where
  "find_hole m sz page_align [] i = None"
| "find_hole m sz page_align (a # as) i =
     (if page_align then
        let offset = (if (a + header_t) mod 0x1000 \<noteq> 0 then 0x1000 - (a + header_t) mod 0x1000 else 0) in
        if hd_size m a \<le> offset then find_hole m sz page_align as (Suc i)
        else if sz \<le> hd_size m a - offset then Some i
        else find_hole m sz page_align as (Suc i)
      else if sz \<le> hd_size m a then Some i
      else find_hole m sz page_align as (Suc i))"

definition find_smallest_hole :: "nat \<Rightarrow> bool \<Rightarrow> heap \<Rightarrow> nat option" where
  "find_smallest_hole sz page_align h = find_hole (h_mem h) sz page_align (h_index h) 0"

section \<open>Freeing\<close>

text \<open>The two left-over checks that stop the machine when a merged hole spans one address.\<close>

definition spans_pid2 :: "nat \<Rightarrow> nat \<Rightarrow> bool" where
  "spans_pid2 a sz \<longleftrightarrow> a \<le> 0xFFFFA00000104000 \<and> 0xFFFFA00000104000 < a + sz"

definition merge_right :: "nat \<Rightarrow> heap \<Rightarrow> (heap, heap) outcome" where
  "merge_right a h =
     (let m = h_mem h; footer = sub64 (a + hd_size m a) footer_t; next = t64 (footer + footer_t) in
      if h_start h \<le> next \<and> t64 (next + header_t) \<le> h_end h \<and> hd_magic m next = HEAP_MAGIC \<and> hd_hole m next then
        let sz = t32 (hd_size m a + hd_size m next);
            h1 = unindex next (h\<lparr>h_mem := wr32 (a + 8) sz m\<rparr>);
            h2 = h1\<lparr>h_mem := put_footer (sub64 (a + sz) footer_t) a (h_mem h1)\<rparr>
        in if spans_pid2 a (hd_size (h_mem h2) a) then Panic ''HEAP: merge-right spans PID2 stack'' else Ret h2
      else Ret h)"

definition merge_left :: "nat \<Rightarrow> heap \<Rightarrow> (heap, nat \<times> heap) outcome" where
  "merge_left a h =
     (let m = h_mem h; footer = sub64 (a + hd_size m a) footer_t; prev_footer = sub64 a footer_t; prev = ft_header m prev_footer in
      if h_start h \<le> prev_footer \<and> t64 (prev_footer + footer_t) \<le> a \<and> ft_magic m prev_footer = HEAP_MAGIC \<and>
         h_start h \<le> prev \<and> t64 (prev + header_t) \<le> h_end h \<and> hd_magic m prev = HEAP_MAGIC \<and> hd_hole m prev then
        let h1 = unindex prev (h\<lparr>h_mem := wr64 (footer + 8) prev (wr32 (prev + 8) (t32 (hd_size m prev + hd_size m a)) m)\<rparr>)
        in if spans_pid2 prev (hd_size (h_mem h1) prev) then Panic ''HEAP: merge-left spans PID2 stack'' else Ret (prev, h1)
      else Ret (a, h))"

definition free_internal :: "nat \<Rightarrow> heap \<Rightarrow> (heap, heap) outcome" where
  "free_internal p h =
     (if p = 0 then Ret h
      else let a = sub64 p header_t; m = h_mem h; footer = sub64 (a + hd_size m a) footer_t in
        if hd_magic m a \<noteq> HEAP_MAGIC \<or> ft_magic m footer \<noteq> HEAP_MAGIC then Ret h
        else
          obind (merge_right a (h\<lparr>h_mem := m(a + 4 := 1)\<rparr>)) (\<lambda>h1.
          obind (merge_left a h1) (\<lambda>(a2, h2). insert_ordered_array a2 h2)))"

definition free :: "nat \<Rightarrow> heap \<Rightarrow> (heap, heap) outcome" where
  "free p h = (if p = 0 then Ret h else free_internal p h)"

section \<open>Growing\<close>

text \<open>A frame for the next page of the heap.\<close>

definition heap_frame :: "mmu \<Rightarrow> (heap, u64 \<times> mmu) outcome" where
  "heap_frame s =
     (if pmm_is_ready (m_pmm s) then
        case alloc_frame (m_pmm s) of
          None \<Rightarrow> Panic ''Heap expand: Out of physical memory''
        | Some (f, p) \<Rightarrow> Ret (ucast f * 0x1000, s\<lparr>m_pmm := p\<rparr>)
      else case kmalloc_int 0x1000 True (m_pmm s) of
          Ret (phys, p) \<Rightarrow> Ret (phys, s\<lparr>m_pmm := p\<rparr>)
        | Panic e \<Rightarrow> Panic e
        | _ \<Rightarrow> Diverge)"

text \<open>
  The loop over the pages, with a bound on its rounds. Every round takes a frame, and there are fewer than
  \<open>2 ^ 32\<close> of them, so with the frame allocator the loop ends within the bound, by its condition or in a panic.
  With the early allocator, which hands out addresses for ever, a loop that has not ended after that many rounds
  does not end: its 32-bit counter takes at most \<open>2 ^ 20\<close> values.
\<close>

fun expand_pages :: "mmu_context \<Rightarrow> nat \<Rightarrow> nat \<Rightarrow> nat \<Rightarrow> heap \<Rightarrow> (heap, heap) outcome" where
  "expand_pages kernel_directory 0 i new_size h = Diverge"
| "expand_pages kernel_directory (Suc n) i new_size h =
     (if i < new_size then
        case get_page (of_nat (h_start h + i)) True kernel_directory (h_mmu h) of
          Ret (Some p, s1) \<Rightarrow>
            let flags = MMU_PRESENT OR (if h_readonly h then 0 else MMU_WRITABLE) OR (if h_supervisor h then 0 else MMU_USER) in
            obind (heap_frame (PAGE_SET_FLAGS p flags s1)) (\<lambda>(phys, s2).
              expand_pages kernel_directory n (t32 (i + 0x1000)) new_size (h\<lparr>h_mmu := PAGE_SET_FRAME p phys s2\<rparr>))
        | Ret (None, s1) \<Rightarrow> Fault ''page''
        | Panic e \<Rightarrow> Panic e
        | _ \<Rightarrow> Diverge
      else Ret h)"

definition expand :: "mmu_context \<Rightarrow> nat \<Rightarrow> heap \<Rightarrow> (heap, heap) outcome" where
  "expand kernel_directory new_size h =
     (let old_size = h_end h - h_start h in
      if new_size \<le> old_size then Ret h
      else
        let size1 = (if new_size mod 0x1000 \<noteq> 0 then t32 new_size div 0x1000 * 0x1000 + 0x1000 else new_size) in
        if h_max h < t64 (h_start h + size1) then Panic ''Heap expansion exceeded maximum address''
        else
          obind (expand_pages kernel_directory (2 ^ 32 + 1) (t32 old_size) size1 h) (\<lambda>h1.
            let a = h_end h; end1 = t64 (h_start h + size1); sz = t32 (sub64 size1 (a - h_start h));
                m = put_footer (sub64 (a + sz) footer_t) a (put_header a True sz (h_mem h1))
            in free_internal (t64 (a + header_t)) (h1\<lparr>h_end := end1, h_mem := m\<rparr>)))"

definition contract :: "nat \<Rightarrow> heap \<Rightarrow> nat \<times> heap" where
  "contract new_size h =
     (let size1 = (if new_size mod 0x1000 \<noteq> 0 then t64 (new_size div 0x1000 * 0x1000 + 0x1000) else new_size);
          size2 = max size1 HEAP_MIN_SIZE;
          h1 = (if size2 < h_end h - h_start h then h\<lparr>h_end := h_start h + size2\<rparr> else h)
      in (h_end h1 - h_start h1, h1))"

section \<open>Allocating\<close>

text \<open>Carving a block of \<open>new_size\<close> bytes off the hole at \<open>pos\<close>, which has left the index.\<close>

definition carve :: "nat \<Rightarrow> nat \<Rightarrow> nat \<Rightarrow> nat \<Rightarrow> heap \<Rightarrow> (heap, nat \<times> heap) outcome" where
  "carve sz new_size pos hole_size h =
     (let all = sub64 hole_size new_size < header_t + footer_t;
          size1 = (if all then t64 (sz + sub64 hole_size new_size) else sz);
          new1 = (if all then hole_size else new_size);
          m1 = put_footer (t64 (pos + header_t + size1)) pos (put_header pos False (t32 new1) (h_mem h));
          rest = sub64 hole_size new1
      in if 0 < rest then
           let hole = t64 (pos + header_t + size1 + footer_t); hsz = t32 rest; m2 = put_header hole True hsz m1;
               footer = sub64 (hole + hsz) footer_t;
               m3 = (if footer < h_end h then put_footer footer hole m2 else m2)
           in obind (insert_ordered_array hole (h\<lparr>h_mem := m3\<rparr>)) (\<lambda>h1. Ret (pos + header_t, h1))
         else Ret (pos + header_t, h\<lparr>h_mem := m1\<rparr>))"

text \<open>The start of a page-aligned block, after splitting off what lies before it.\<close>

definition align_hole :: "nat \<Rightarrow> nat \<Rightarrow> heap \<Rightarrow> (heap, nat \<times> nat \<times> heap) outcome" where
  "align_hole pos hole_size h =
     (if (pos + header_t) mod 0x1000 \<noteq> 0 then
        let new_header = (pos + header_t + 0xFFF) div 0x1000 * 0x1000 - header_t; prefix = t32 (new_header - pos);
            r = (if header_t + footer_t \<le> prefix
                 then insert_ordered_array pos (h\<lparr>h_mem := put_footer (new_header - footer_t) pos (put_header pos True prefix (h_mem h))\<rparr>)
                 else Ret h)
        in obind r (\<lambda>h1. Ret (new_header, t32 (hole_size + 2 ^ 32 - prefix), h1))
      else Ret (pos, hole_size, h))"

definition alloc_at :: "nat \<Rightarrow> nat \<Rightarrow> bool \<Rightarrow> nat \<Rightarrow> heap \<Rightarrow> (heap, nat \<times> heap) outcome" where
  "alloc_at sz new_size page_align i h =
     (let pos = h_index h ! i; hole_size = hd_size (h_mem h) pos in
      if sub64 (h_max h) (h_start h) < hole_size then Panic ''Heap allocator: Corrupt hole size detected (metadata smashed)''
      else let h1 = remove_ordered_array i h in
        if page_align then
          obind (align_hole pos hole_size h1) (\<lambda>(pos1, size1, h2). carve sz new_size pos1 size1 h2)
        else carve sz new_size pos hole_size h1)"

definition alloc :: "mmu_context \<Rightarrow> nat \<Rightarrow> bool \<Rightarrow> heap \<Rightarrow> (heap, nat \<times> heap) outcome" where
  "alloc kernel_directory sz page_align h =
     (let new_size = t64 (sz + header_t + footer_t) in
      case find_smallest_hole new_size page_align h of
        Some i \<Rightarrow> alloc_at sz new_size page_align i h
      | None \<Rightarrow>
          let old_size = h_end h - h_start h; twice = t64 (old_size * 2); need = t64 (old_size + sz + header_t + footer_t) in
          obind (expand kernel_directory (if twice < need then need else twice) h) (\<lambda>h1.
            case find_smallest_hole new_size page_align h1 of
              None \<Rightarrow> Ret (0, h1)
            | Some i \<Rightarrow> alloc_at sz new_size page_align i h1))"

section \<open>The kernel heap\<close>

text \<open>The descriptor of the heap, 56 bytes, comes from the early allocator.\<close>

definition create_heap :: "nat \<Rightarrow> nat \<Rightarrow> nat \<Rightarrow> bool \<Rightarrow> bool \<Rightarrow> hmem \<Rightarrow> mmu \<Rightarrow> (heap, heap) outcome" where
  "create_heap start fin mx supervisor readonly m s =
     (case kmalloc_int 56 False (m_pmm s) of
        Ret (_, p) \<Rightarrow>
          let start1 = t64 (start + 8 * HEAP_INDEX_SIZE);
              start2 = (if start1 mod 0x1000 \<noteq> 0 then t64 (start1 div 0x1000 * 0x1000 + 0x1000) else start1)
          in insert_ordered_array start2
               \<lparr>h_mem = put_header start2 True (t32 (sub64 fin start2)) m, h_index = [], h_start = start2, h_end = fin, h_max = mx,
                 h_supervisor = supervisor, h_readonly = readonly, h_mmu = s\<lparr>m_pmm := p\<rparr>\<rparr>
      | Panic e \<Rightarrow> Panic e
      | _ \<Rightarrow> Diverge)"

record heap_stats =
  hs_total :: nat
  hs_used :: nat
  hs_free :: nat
  hs_max :: nat

definition get_heap_stats :: "heap \<Rightarrow> heap_stats" where
  "get_heap_stats h =
     (let total = h_end h - h_start h; holes = t64 (sum_list (map (hd_size (h_mem h)) (h_index h)))
      in \<lparr>hs_total = total, hs_used = sub64 total holes, hs_free = holes, hs_max = h_max h\<rparr>)"

text \<open>
  \<open>kmalloc\<close> and \<open>kfree\<close> before and after the heap exists, with the physical address of the block if the caller
  asks for it. Every caller passes 0 or 1 as the alignment.
\<close>

datatype kheap_state = No_kheap mmu | Kheap heap

definition kmalloc :: "mmu_context \<Rightarrow> nat \<Rightarrow> bool \<Rightarrow> bool \<Rightarrow> kheap_state \<Rightarrow> (heap, (nat \<times> u64 option) \<times> kheap_state) outcome" where
  "kmalloc kernel_directory sz align phys_addr k =
     (case k of
        Kheap h \<Rightarrow>
          obind (alloc kernel_directory sz align h) (\<lambda>(a, h1).
            if phys_addr then
              case mmu_get_entry kernel_directory (of_nat a) (h_mmu h1) of
                None \<Rightarrow> Fault ''page''
              | Some (t, i) \<Rightarrow> Ret ((a, Some ((m_table (h_mmu h1) t i AND NOT 0xFFF) + of_nat (a mod 0x1000))), Kheap h1)
            else Ret ((a, None), Kheap h1))
      | No_kheap s \<Rightarrow>
          (case kmalloc_int (of_nat sz) align (m_pmm s) of
             Ret (a, p) \<Rightarrow> Ret ((unat a, if phys_addr then Some a else None), No_kheap (s\<lparr>m_pmm := p\<rparr>))
           | Panic e \<Rightarrow> Panic e
           | _ \<Rightarrow> Diverge))"

definition kfree :: "nat \<Rightarrow> kheap_state \<Rightarrow> (heap, kheap_state) outcome" where
  "kfree p k =
     (case k of
        Kheap h \<Rightarrow> obind (free p h) (\<lambda>h1. Ret (Kheap h1))
      | No_kheap s \<Rightarrow> if p = 0 then Ret k else Fault ''kheap'')"

end
