(* ===== verification/HeapLayout.thy ===== *)
theory HeapLayout
  imports Heap "HOL-Library.Multiset"
begin

text \<open>
  The heap as a row of blocks: reading back what was written, the layout invariant, and what single writes
  and index operations do to it.
\<close>

section \<open>Reading and writing\<close>

definition same_on :: "hmem \<Rightarrow> hmem \<Rightarrow> nat set \<Rightarrow> bool" where
  "same_on m m' X \<longleftrightarrow> (\<forall>x\<in>X. m' x = m x)"

lemma wr32_outside: "x < a \<or> a + 4 \<le> x \<Longrightarrow> wr32 a v m x = m x"
  by (auto simp: wr32_def)

lemma rd32_cong: "same_on m m' {a..<a + 4} \<Longrightarrow> rd32 m' a = rd32 m a"
  by (simp add: same_on_def rd32_def)

lemma digits4:
  fixes r0 r1 r2 r3 q0 q1 q2 q3 v :: nat
  assumes "v = r0 + 256 * q0" "q0 = r1 + 256 * q1" "q1 = r2 + 256 * q2" "q2 = r3 + 256 * q3" "r0 < 256" "r1 < 256" "r2 < 256" "r3 < 256"
  shows "v mod 4294967296 = r0 + 256 * r1 + 65536 * r2 + 16777216 * r3"
proof -
  have "v = (r0 + 256 * r1 + 65536 * r2 + 16777216 * r3) + q3 * 4294967296" using assms(1-4) by simp
  moreover have "r0 + 256 * r1 + 65536 * r2 + 16777216 * r3 < 4294967296" using assms(5-8) by simp
  ultimately show ?thesis by (metis mod_less mod_mult_self1)
qed

lemma byte_split: "v mod 256 + 256 * (v div 256 mod 256) + 65536 * (v div 65536 mod 256) + 16777216 * (v div 16777216 mod 256) = (v :: nat) mod 2 ^ 32"
proof -
  have "v div 65536 = v div 256 div 256" "v div 16777216 = v div 256 div 256 div 256" by (simp_all add: div_mult2_eq [symmetric])
  then show ?thesis
    using digits4 [of v "v mod 256" "v div 256" "v div 256 mod 256" "v div 256 div 256" "v div 256 div 256 mod 256" "v div 256 div 256 div 256"
        "v div 256 div 256 div 256 mod 256" "v div 256 div 256 div 256 div 256"] by simp
qed

lemma rd32_wr32: "rd32 (wr32 a v m) a = v mod 2 ^ 32"
  using byte_split [of v] by (simp add: rd32_def wr32_def unat_of_nat)

lemma rd32_wr32_other: "a + 4 \<le> b \<or> b + 4 \<le> a \<Longrightarrow> rd32 (wr32 a v m) b = rd32 m b"
  by (rule rd32_cong) (auto simp: same_on_def wr32_outside)

lemma wr64_outside: "x < a \<or> a + 8 \<le> x \<Longrightarrow> wr64 a v m x = m x"
  by (auto simp: wr64_def wr32_outside)

lemma rd64_wr64: "v < 2 ^ 64 \<Longrightarrow> rd64 (wr64 a v m) a = v"
proof -
  assume v: "v < 2 ^ 64"
  have lo: "rd32 (wr64 a v m) a = v mod 2 ^ 32" unfolding wr64_def by (simp only: rd32_wr32_other rd32_wr32 le_refl disj_commute simp_thms)
  have "rd32 (wr64 a v m) (a + 4) = v div 2 ^ 32 mod 2 ^ 32" unfolding wr64_def by (rule rd32_wr32)
  also have "\<dots> = v div 2 ^ 32" using v by (simp add: less_mult_imp_div_less)
  finally show ?thesis unfolding rd64_def lo by simp
qed

text \<open>Headers and footers.\<close>

lemma put_header_outside: "x < a \<or> a + 12 \<le> x \<Longrightarrow> put_header a ho n m x = m x"
  by (auto simp: put_header_def wr32_outside)

lemma put_footer_outside: "x < b \<or> b + 16 \<le> x \<Longrightarrow> put_footer b a m x = m x"
  by (auto simp: put_footer_def wr32_outside wr64_outside)

lemma header_cong:
  assumes "same_on m m' {a..<a + 12}"
  shows "hd_magic m' a = hd_magic m a" "hd_hole m' a = hd_hole m a" "hd_size m' a = hd_size m a"
  using assms by (auto simp: hd_magic_def hd_hole_def hd_size_def same_on_def intro!: rd32_cong)

lemma footer_cong:
  assumes "same_on m m' {b..<b + 16}"
  shows "ft_magic m' b = ft_magic m b" "ft_header m' b = ft_header m b"
  using assms rd32_cong [of m m' b] rd32_cong [of m m' "b + 8"] rd32_cong [of m m' "b + 12"]
  by (auto simp: ft_magic_def ft_header_def rd64_def same_on_def add.assoc)

lemma header_put [simp]:
  "hd_magic (put_header a ho n m) a = HEAP_MAGIC" "hd_hole (put_header a ho n m) a = ho" "hd_size (put_header a ho n m) a = n mod 2 ^ 32"
proof -
  have "rd32 (put_header a ho n m) a = rd32 (wr32 a HEAP_MAGIC m) a"
    by (rule rd32_cong) (auto simp: same_on_def put_header_def wr32_outside)
  then show "hd_magic (put_header a ho n m) a = HEAP_MAGIC" by (simp add: hd_magic_def rd32_wr32 HEAP_MAGIC_def)
  show "hd_hole (put_header a ho n m) a = ho" by (simp add: hd_hole_def put_header_def wr32_outside)
  show "hd_size (put_header a ho n m) a = n mod 2 ^ 32" by (simp add: hd_size_def put_header_def rd32_wr32)
qed

lemma footer_put [simp]: "ft_magic (put_footer b a m) b = HEAP_MAGIC" "a < 2 ^ 64 \<Longrightarrow> ft_header (put_footer b a m) b = a"
proof -
  have "rd32 (put_footer b a m) b = rd32 (wr32 b HEAP_MAGIC m) b"
    by (rule rd32_cong) (auto simp: same_on_def put_footer_def wr64_outside)
  then show "ft_magic (put_footer b a m) b = HEAP_MAGIC" by (simp add: ft_magic_def rd32_wr32 HEAP_MAGIC_def)
  show "ft_header (put_footer b a m) b = a" if "a < 2 ^ 64" using that by (simp add: ft_header_def put_footer_def rd64_wr64)
qed

section \<open>The row of blocks\<close>

type_synonym block = "nat \<times> bool \<times> nat"

abbreviation b_addr :: "block \<Rightarrow> nat" where "b_addr \<equiv> fst"
abbreviation b_hole :: "block \<Rightarrow> bool" where "b_hole b \<equiv> fst (snd b)"
abbreviation b_size :: "block \<Rightarrow> nat" where "b_size b \<equiv> snd (snd b)"
abbreviation b_range :: "block \<Rightarrow> nat set" where "b_range b \<equiv> {b_addr b..<b_addr b + b_size b}"

text \<open>The initial hole has no footer; any other block has one that leads back to its header.\<close>

definition block_ok :: "hmem \<Rightarrow> block \<Rightarrow> bool" where
  "block_ok m b \<longleftrightarrow> 28 \<le> b_size b \<and> hd_magic m (b_addr b) = HEAP_MAGIC \<and> hd_hole m (b_addr b) = b_hole b \<and> hd_size m (b_addr b) = b_size b \<and>
     (let f = b_addr b + b_size b - 16 in (ft_magic m f = HEAP_MAGIC \<and> ft_header m f = b_addr b) \<or> (b_hole b \<and> ft_magic m f \<noteq> HEAP_MAGIC))"

fun laid :: "nat \<Rightarrow> block list \<Rightarrow> nat \<Rightarrow> bool" where
  "laid s [] e \<longleftrightarrow> s = e"
| "laid s (b # B) e \<longleftrightarrow> b_addr b = s \<and> laid (s + b_size b) B e"

definition holes :: "block list \<Rightarrow> nat list" where
  "holes B = map b_addr (filter b_hole B)"

text \<open>The rows \<open>B\<close> make up the heap, and the index lists the holes of \<open>J\<close> by size.\<close>

definition heap_inv :: "block list \<Rightarrow> nat list \<Rightarrow> heap \<Rightarrow> bool" where
  "heap_inv B J h \<longleftrightarrow> laid (h_start h) B (h_end h) \<and> (\<forall>b\<in>set B. block_ok (h_mem h) b) \<and>
     mset (h_index h) = mset J \<and> sorted (map (hd_size (h_mem h)) (h_index h)) \<and>
     16 \<le> h_start h \<and> h_end h - h_start h < 2 ^ 32 \<and> h_end h \<le> h_max h \<and> h_max h + 2 ^ 32 < 2 ^ 64 \<and>
     length (h_index h) \<le> HEAP_INDEX_SIZE"

abbreviation heap_ok :: "block list \<Rightarrow> heap \<Rightarrow> bool" where
  "heap_ok B h \<equiv> heap_inv B (holes B) h"

lemma laid_append: "laid s (B @ D) e \<longleftrightarrow> (\<exists>x. laid s B x \<and> laid x D e)"
  by (induction B arbitrary: s) auto

lemma laid_le: "laid s B e \<Longrightarrow> s \<le> e"
  by (induction B arbitrary: s) force+

lemma laid_range: "laid s B e \<Longrightarrow> b \<in> set B \<Longrightarrow> s \<le> b_addr b \<and> b_addr b + b_size b \<le> e"
proof (induction B arbitrary: s)
  case (Cons d B)
  then show ?case using laid_le [of "s + b_size d" B e] by fastforce
qed simp

lemma block_ok_cong:
  assumes "same_on m m' (b_range b)" "block_ok m b"
  shows "block_ok m' b"
proof -
  have n: "28 \<le> b_size b" using assms(2) by (simp add: block_ok_def)
  have "same_on m m' {b_addr b..<b_addr b + 12}" "same_on m m' {b_addr b + b_size b - 16..<b_addr b + b_size b - 16 + 16}"
    using assms(1) n by (auto simp: same_on_def)
  from header_cong [OF this(1)] footer_cong [OF this(2)] assms(2) show ?thesis by (simp add: block_ok_def Let_def)
qed

lemma block_okI:
  assumes "28 \<le> n" "hd_magic m a = HEAP_MAGIC" "hd_hole m a = ho" "hd_size m a = n"
    "ft_magic m (a + n - 16) = HEAP_MAGIC" "ft_header m (a + n - 16) = a"
  shows "block_ok m (a, ho, n)"
  using assms by (simp add: block_ok_def Let_def)

section \<open>The index\<close>

lemma arith_small:
  "n < 2 ^ 32 \<Longrightarrow> t32 n = n" "n < 2 ^ 64 \<Longrightarrow> t64 n = n" "b \<le> a \<Longrightarrow> a < 2 ^ 64 \<Longrightarrow> sub64 a b = a - b"
proof -
  show "n < 2 ^ 32 \<Longrightarrow> t32 n = n" "n < 2 ^ 64 \<Longrightarrow> t64 n = n" by (simp_all add: t32_def t64_def)
  assume "b \<le> a" "a < 2 ^ 64"
  then have "a + 2 ^ 64 - b = a - b + 1 * 2 ^ 64" "a - b < 2 ^ 64" by simp_all
  then show "sub64 a b = a - b" unfolding sub64_def t64_def by (metis mod_less mod_mult_self1)
qed

lemma sorted_insert_pos:
  fixes f :: "'a \<Rightarrow> nat"
  shows "sorted (map f xs) \<Longrightarrow> sorted (map f (takeWhile (\<lambda>y. f y < f x) xs @ x # dropWhile (\<lambda>y. f y < f x) xs))"
proof (induction xs)
  case (Cons y ys)
  then show ?case by (auto dest: set_takeWhileD set_dropWhileD)
qed simp

lemma insert_ordered_Ret:
  assumes "insert_ordered_array item h = Ret h'"
  shows "h' = h\<lparr>h_index := h_index h'\<rparr>" "mset (h_index h') = add_mset item (mset (h_index h))"
    "sorted (map (hd_size (h_mem h)) (h_index h)) \<Longrightarrow> sorted (map (hd_size (h_mem h)) (h_index h'))" "length (h_index h) < HEAP_INDEX_SIZE"
proof -
  let ?l = "\<lambda>x. hd_size (h_mem h) x < hd_size (h_mem h) item"
  have len: "length (h_index h) < HEAP_INDEX_SIZE" and h': "h' = h\<lparr>h_index := takeWhile ?l (h_index h) @ item # dropWhile ?l (h_index h)\<rparr>"
    using assms by (auto simp: insert_ordered_array_def Let_def header_t_less_than_def not_le split: if_splits)
  show "length (h_index h) < HEAP_INDEX_SIZE" by (rule len)
  show "h' = h\<lparr>h_index := h_index h'\<rparr>" by (simp add: h')
  have "mset (takeWhile ?l (h_index h)) + mset (dropWhile ?l (h_index h)) = mset (h_index h)" by (metis mset_append takeWhile_dropWhile_id)
  then show "mset (h_index h') = add_mset item (mset (h_index h))" by (simp add: h')
  show "sorted (map (hd_size (h_mem h)) (h_index h)) \<Longrightarrow> sorted (map (hd_size (h_mem h)) (h_index h'))"
    using sorted_insert_pos [of "hd_size (h_mem h)" "h_index h" item] by (simp add: h')
qed

lemma drop_nth_sorted:
  fixes f :: "'a \<Rightarrow> nat"
  assumes "i < length xs"
  shows "sorted (map f xs) \<Longrightarrow> sorted (map f (take i xs @ drop (Suc i) xs))" "mset (take i xs @ drop (Suc i) xs) = mset xs - {#xs ! i#}"
proof -
  have x: "xs = take i xs @ xs ! i # drop (Suc i) xs" using assms by (rule id_take_nth_drop)
  show "sorted (map f xs) \<Longrightarrow> sorted (map f (take i xs @ drop (Suc i) xs))"
    by (subst (asm) x) (auto simp: sorted_append)
  have "mset xs = mset (take i xs) + add_mset (xs ! i) (mset (drop (Suc i) xs))" by (subst x) simp
  then show "mset (take i xs @ drop (Suc i) xs) = mset xs - {#xs ! i#}" by simp
qed

lemma unindex_remove1: "unindex a h = h\<lparr>h_index := remove1 a (h_index h)\<rparr>"
proof -
  have "(let i = length (takeWhile (\<lambda>x. x \<noteq> a) xs) in if i < length xs then take i xs @ drop (Suc i) xs else xs) = remove1 a xs" for xs :: "nat list"
    by (induction xs) (auto simp: Let_def split: if_splits)
  from this [of "h_index h"] show ?thesis by (auto simp: unindex_def remove_ordered_array_def Let_def split: if_splits)
qed

lemma sorted_remove1_map:
  fixes f :: "'a \<Rightarrow> nat"
  shows "sorted (map f xs) \<Longrightarrow> sorted (map f (remove1 x xs))"
  by (induction xs) (auto dest: set_remove1_subset [THEN subsetD])

definition skip_to_page :: "bool \<Rightarrow> nat \<Rightarrow> nat" where
  "skip_to_page page_align a = (if page_align \<and> (a + header_t) mod 0x1000 \<noteq> 0 then 0x1000 - (a + header_t) mod 0x1000 else 0)"

definition fits :: "hmem \<Rightarrow> nat \<Rightarrow> bool \<Rightarrow> nat \<Rightarrow> bool" where
  "fits m sz page_align a \<longleftrightarrow>
     (page_align \<longrightarrow> skip_to_page page_align a < hd_size m a) \<and> sz \<le> hd_size m a - skip_to_page page_align a"

lemma find_hole_Cons: "find_hole m sz al (a # as) k = (if fits m sz al a then Some k else find_hole m sz al as (Suc k))"
  unfolding find_hole.simps fits_def skip_to_page_def Let_def by (cases al) (simp_all add: not_le)

lemma find_hole_None: "find_hole m sz al as k = None \<longleftrightarrow> (\<forall>j<length as. \<not> fits m sz al (as ! j))"
  by (induction as arbitrary: k) (simp_all add: find_hole_Cons All_less_Suc2 del: find_hole.simps(2))

lemma find_hole_Some:
  "find_hole m sz al as k = Some i \<Longrightarrow> k \<le> i \<and> i - k < length as \<and> fits m sz al (as ! (i - k)) \<and> (\<forall>j<i - k. \<not> fits m sz al (as ! j))"
proof (induction as arbitrary: k)
  case (Cons a as)
  show ?case
  proof (cases "fits m sz al a")
    case False
    then have "Suc k \<le> i \<and> i - Suc k < length as \<and> fits m sz al (as ! (i - Suc k)) \<and> (\<forall>j<i - Suc k. \<not> fits m sz al (as ! j))"
      using Cons by (simp add: find_hole_Cons del: find_hole.simps(2))
    moreover then have "i - k = Suc (i - Suc k)" by linarith
    ultimately show ?thesis using False by (auto simp: less_Suc_eq_0_disj)
  qed (use Cons.prems in \<open>simp add: find_hole_Cons del: find_hole.simps(2)\<close>)
qed simp

lemma find_smallest_hole_Some:
  assumes "find_smallest_hole sz al h = Some i"
  shows "i < length (h_index h)" "fits (h_mem h) sz al (h_index h ! i)" "\<And>j. j < i \<Longrightarrow> \<not> fits (h_mem h) sz al (h_index h ! j)"
  using find_hole_Some [OF assms [unfolded find_smallest_hole_def]] by auto

lemma find_smallest_hole_None:
  "find_smallest_hole sz al h = None \<longleftrightarrow> (\<forall>j<length (h_index h). \<not> fits (h_mem h) sz al (h_index h ! j))"
  by (simp add: find_smallest_hole_def find_hole_None)

end
