(* ===== verification/HeapSafe.thy ===== *)
theory HeapSafe
  imports HeapLayout
begin

text \<open>
  What allocating, freeing and growing do to the row of blocks.
\<close>

section \<open>Rows with a gap\<close>

definition put_block :: "block \<Rightarrow> hmem \<Rightarrow> hmem" where
  "put_block b m = put_footer (b_addr b + b_size b - 16) (b_addr b) (put_header (b_addr b) (b_hole b) (b_size b) m)"

lemma put_block_ok:
  assumes "28 \<le> n" "n < 2 ^ 32" "a < 2 ^ 64"
  shows "block_ok (put_block (a, ho, n) m) (a, ho, n)"
proof (rule block_okI)
  have "same_on (put_header a ho n m) (put_block (a, ho, n) m) {a..<a + 12}"
    using assms(1) by (auto simp: same_on_def put_block_def put_footer_outside)
  note c = header_cong [OF this]
  show "hd_magic (put_block (a, ho, n) m) a = HEAP_MAGIC" "hd_hole (put_block (a, ho, n) m) a = ho" "hd_size (put_block (a, ho, n) m) a = n"
    using c assms(2) by simp_all
  show "ft_magic (put_block (a, ho, n) m) (a + n - 16) = HEAP_MAGIC" "ft_header (put_block (a, ho, n) m) (a + n - 16) = a"
    using assms(3) by (simp_all add: put_block_def)
qed (rule assms(1))

lemma put_block_outside: "28 \<le> b_size b \<Longrightarrow> x \<notin> b_range b \<Longrightarrow> put_block b m x = m x"
  by (auto simp: put_block_def put_footer_outside put_header_outside not_le)

text \<open>As \<open>heap_inv\<close>, but nothing is known of the \<open>n\<close> bytes at \<open>x\<close> between the rows \<open>P\<close> and \<open>S\<close>.\<close>

definition gap_inv :: "block list \<Rightarrow> nat \<Rightarrow> nat \<Rightarrow> block list \<Rightarrow> nat list \<Rightarrow> heap \<Rightarrow> bool" where
  "gap_inv P x n S J h \<longleftrightarrow> laid (h_start h) P x \<and> laid (x + n) S (h_end h) \<and> (\<forall>b\<in>set (P @ S). block_ok (h_mem h) b) \<and>
     mset (h_index h) = mset J \<and> sorted (map (hd_size (h_mem h)) (h_index h)) \<and>
     16 \<le> h_start h \<and> h_end h - h_start h < 2 ^ 32 \<and> h_end h \<le> h_max h \<and> h_max h + 2 ^ 32 < 2 ^ 64 \<and>
     length (h_index h) \<le> HEAP_INDEX_SIZE"

lemma gap_bounds:
  assumes "gap_inv P x n S J h"
  shows "16 \<le> h_start h" "h_start h \<le> x" "x + n \<le> h_end h" "n < 2 ^ 32" "h_end h + 2 ^ 32 < 2 ^ 64" "h_end h \<le> h_max h"
proof -
  have l: "laid (h_start h) P x" "laid (x + n) S (h_end h)" using assms by (simp_all add: gap_inv_def)
  show "h_start h \<le> x" "x + n \<le> h_end h" using laid_le [OF l(1)] laid_le [OF l(2)] by simp_all
  then show "16 \<le> h_start h" "n < 2 ^ 32" "h_end h + 2 ^ 32 < 2 ^ 64" "h_end h \<le> h_max h" using assms by (auto simp: gap_inv_def)
qed

lemma gap_fill:
  "gap_inv P x n S J h \<Longrightarrow> laid x Q (x + n) \<Longrightarrow> (\<And>b. b \<in> set Q \<Longrightarrow> block_ok (h_mem h) b) \<Longrightarrow> heap_inv (P @ Q @ S) J h"
  by (auto simp: gap_inv_def heap_inv_def laid_append)

lemma gap_extend:
  "gap_inv P x n S J h \<Longrightarrow> block_ok (h_mem h) (x, ho, k) \<Longrightarrow> k \<le> n \<Longrightarrow> gap_inv (P @ [(x, ho, k)]) (x + k) (n - k) S J h"
  by (auto simp: gap_inv_def laid_append)

lemma inv_open:
  "heap_inv (P @ Q @ S) J h \<Longrightarrow> laid x Q (x + n) \<Longrightarrow> Q \<noteq> [] \<Longrightarrow> gap_inv P x n S J h"
proof -
  assume a: "heap_inv (P @ Q @ S) J h" "laid x Q (x + n)" "Q \<noteq> []"
  obtain y z where l: "laid (h_start h) P y" "laid y Q z" "laid z S (h_end h)" using a(1) by (auto simp: heap_inv_def laid_append)
  have u: "laid s B e \<Longrightarrow> laid s' B e' \<Longrightarrow> B \<noteq> [] \<Longrightarrow> s = s' \<and> e = e'" for s e s' e' B
    by (induction B arbitrary: s s') (case_tac B; auto)+
  show ?thesis using u [OF l(2) a(2,3)] l a(1) by (auto simp: gap_inv_def heap_inv_def)
qed

lemma inv_gap: "heap_inv B J h \<longleftrightarrow> gap_inv B (h_end h) 0 [] J h"
  by (auto simp: gap_inv_def heap_inv_def)

text \<open>Writing inside the gap, when the index names no address there.\<close>

lemma gap_write:
  assumes g: "gap_inv P x n S J h" and J: "set J \<subseteq> b_addr ` set (P @ S)" and m: "same_on (h_mem h) m (- {x..<x + n})"
  shows "gap_inv P x n S J (h\<lparr>h_mem := m\<rparr>)"
proof -
  have l: "laid (h_start h) P x" "laid (x + n) S (h_end h)" using g by (simp_all add: gap_inv_def)
  have r: "same_on (h_mem h) m (b_range b)" if "b \<in> set (P @ S)" for b
  proof -
    have "b_addr b + b_size b \<le> x \<or> x + n \<le> b_addr b" using that laid_range [OF l(1), of b] laid_range [OF l(2), of b] by auto
    then show ?thesis using m by (auto simp: same_on_def)
  qed
  have ok: "block_ok (h_mem h) b" if "b \<in> set (P @ S)" for b using that g by (simp add: gap_inv_def)
  have ok': "block_ok m b" if "b \<in> set (P @ S)" for b by (rule block_ok_cong [OF r [OF that] ok [OF that]])
  have "hd_size m a = hd_size (h_mem h) a" if "a \<in> set (h_index h)" for a
  proof -
    have "set (h_index h) = set J" using g unfolding gap_inv_def by (metis set_mset_mset)
    then have "a \<in> b_addr ` set (P @ S)" using that J by (simp add: subset_iff)
    then obtain b where b: "b \<in> set (P @ S)" "a = b_addr b" by (rule imageE)
    show ?thesis using ok [OF b(1)] ok' [OF b(1)] by (simp add: block_ok_def b(2))
  qed
  then have "map (hd_size m) (h_index h) = map (hd_size (h_mem h)) (h_index h)" by simp
  then have "sorted (map (hd_size m) (h_index h))" using g by (metis gap_inv_def)
  then show ?thesis using g ok' by (simp add: gap_inv_def)
qed

lemma gap_index:
  assumes "gap_inv P x n S J h" "mset (h_index h') = mset J'" "h' = h\<lparr>h_index := h_index h'\<rparr>"
    "sorted (map (hd_size (h_mem h)) (h_index h'))" "length (h_index h') \<le> HEAP_INDEX_SIZE"
  shows "gap_inv P x n S J' h'"
proof -
  have "h_mem h' = h_mem h" "h_start h' = h_start h" "h_end h' = h_end h" "h_max h' = h_max h" by (subst assms(3), simp)+
  then show ?thesis using assms by (simp add: gap_inv_def)
qed

lemma insert_total: "length (h_index h) < HEAP_INDEX_SIZE \<Longrightarrow> \<exists>h'. insert_ordered_array a h = Ret h'"
  by (simp add: insert_ordered_array_def Let_def)

definition same_frame :: "heap \<Rightarrow> heap \<Rightarrow> bool" where
  "same_frame h h' \<longleftrightarrow> h_start h' = h_start h \<and> h_end h' = h_end h \<and> h_max h' = h_max h \<and> h_supervisor h' = h_supervisor h \<and>
     h_readonly h' = h_readonly h \<and> h_mmu h' = h_mmu h"

lemma insert_frame: "insert_ordered_array a h = Ret h' \<Longrightarrow> h_mem h' = h_mem h \<and> same_frame h h'"
  by (auto simp: insert_ordered_array_def same_frame_def Let_def split: if_splits)

lemma gap_insert:
  assumes "gap_inv P x n S J h" "insert_ordered_array a h = Ret h'"
  shows "gap_inv P x n S (a # J) h'"
proof -
  note i = insert_ordered_Ret [OF assms(2)]
  have "length (h_index h') \<le> HEAP_INDEX_SIZE" using arg_cong [OF i(2), of size] i(4) by simp
  then show ?thesis using i assms(1) by (intro gap_index [OF assms(1)]) (auto simp: gap_inv_def)
qed

lemma gap_unindex:
  assumes "gap_inv P x n S (a # J) h"
  shows "gap_inv P x n S J (unindex a h)"
  using assms by (intro gap_index [OF assms]) (auto simp: gap_inv_def unindex_remove1 length_remove1 intro: sorted_remove1_map)

lemma gap_cong: "gap_inv P x n S J h \<Longrightarrow> mset J = mset J' \<Longrightarrow> gap_inv P x n S J' h"
  by (simp add: gap_inv_def)

lemma holes_append [simp]: "holes (P @ S) = holes P @ holes S"
  by (simp add: holes_def)

lemma holes_Cons [simp]: "holes (b # S) = (if b_hole b then b_addr b # holes S else holes S)" "holes [] = []"
  by (simp_all add: holes_def)

lemma holes_addr: "set (holes B) \<subseteq> b_addr ` set B"
  by (auto simp: holes_def)

section \<open>Allocating\<close>

lemma carve_all:
  assumes g: "gap_inv P x n S J h" and n: "k + 28 \<le> n" "n - (k + 28) < 28"
  shows "carve k (k + 28) x n h = Ret (x + 12, h\<lparr>h_mem := put_block (x, False, n) (h_mem h)\<rparr>)"
proof -
  note b = gap_bounds [OF g]
  have s: "sub64 n (k + 28) = n - (k + 28)" "sub64 n n = 0" "t64 (k + (n - (k + 28))) = n - 28" "t32 n = n"
    using b n by (simp_all add: arith_small)
  have f: "t64 (x + 12 + (n - 28)) = x + n - 16" using b n by (simp add: arith_small)
  show ?thesis unfolding carve_def by (simp add: Let_def s f n(2) put_block_def)
qed

lemma carve_split:
  assumes g: "gap_inv P x n S J h" and n: "k + 28 \<le> n" "28 \<le> n - (k + 28)"
  shows "carve k (k + 28) x n h =
     obind (insert_ordered_array (x + (k + 28)) (h\<lparr>h_mem := put_block (x + (k + 28), True, n - (k + 28)) (put_block (x, False, k + 28) (h_mem h))\<rparr>))
       (\<lambda>h1. Ret (x + 12, h1))"
proof -
  note b = gap_bounds [OF g]
  have s: "sub64 n (k + 28) = n - (k + 28)" "t32 (n - (k + 28)) = n - (k + 28)" "t32 (k + 28) = k + 28"
    "t64 (x + 12 + k) = x + (k + 28) - 16" "t64 (x + 12 + k + 16) = x + (k + 28)"
    "sub64 (x + (k + 28) + (n - (k + 28))) 16 = x + (k + 28) + (n - (k + 28)) - 16"
    using b n by (simp_all add: arith_small)
  have e: "x + (k + 28) + (n - (k + 28)) - 16 < h_end h" "\<not> n - (k + 28) < 28" "0 < n - (k + 28)" using b n by simp_all
  show ?thesis unfolding carve_def by (simp only: Let_def s e put_block_def fst_conv snd_conv if_True if_False HOL.simp_thms add.commute [of 12 16] numeral_plus_numeral add_num_simps refl)
qed

lemma carve_ok:
  assumes g: "gap_inv P x n S (holes (P @ S)) h" and n: "k + 28 \<le> n"
    and room: "n - (k + 28) < 28 \<or> length (h_index h) < HEAP_INDEX_SIZE"
  shows "\<exists>h' l R. carve k (k + 28) x n h = Ret (x + 12, h') \<and> heap_ok (P @ (x, False, l) # R @ S) h' \<and> k + 28 \<le> l \<and>
    laid (x + l) R (x + n) \<and> (\<forall>b\<in>set R. b_hole b) \<and> same_on (h_mem h) (h_mem h') (- {x..<x + n}) \<and>
    same_frame h h' \<and> (28 \<le> n - (k + 28) \<longrightarrow> l = k + 28 \<and> R = [(x + l, True, n - l)])"
proof (cases "n - (k + 28) < 28")
  case True
  note b = gap_bounds [OF g]
  let ?m = "put_block (x, False, n) (h_mem h)"
  have m: "same_on (h_mem h) ?m (- {x..<x + n})" using n by (auto simp: same_on_def put_block_outside)
  have "block_ok ?m (x, False, n)" using b n by (intro put_block_ok) simp_all
  then have "heap_inv (P @ [(x, False, n)] @ S) (holes (P @ S)) (h\<lparr>h_mem := ?m\<rparr>)"
    by (intro gap_fill [OF gap_write [OF g holes_addr m]]) simp_all
  then show ?thesis using carve_all [OF g n True] m n True by (intro exI [of _ "h\<lparr>h_mem := ?m\<rparr>"] exI [of _ n] exI [of _ "[]"]) (simp add: same_frame_def)
next
  case False
  note b = gap_bounds [OF g]
  let ?l = "k + 28" and ?r = "n - (k + 28)"
  let ?m1 = "put_block (x, False, ?l) (h_mem h)"
  let ?m = "put_block (x + ?l, True, ?r) ?m1"
  let ?h = "h\<lparr>h_mem := ?m\<rparr>"
  have m: "same_on (h_mem h) ?m (- {x..<x + n})" using n False by (auto simp: same_on_def put_block_outside)
  have "block_ok ?m1 (x, False, ?l)" using b n by (intro put_block_ok) simp_all
  then have ok1: "block_ok ?m (x, False, ?l)" by (rule block_ok_cong [rotated]) (use False in \<open>auto simp: same_on_def put_block_outside\<close>)
  have ok2: "block_ok ?m (x + ?l, True, ?r)" using b n False by (intro put_block_ok) simp_all
  have "length (h_index ?h) < HEAP_INDEX_SIZE" using room False by simp
  then obtain h' where i: "insert_ordered_array (x + ?l) ?h = Ret h'" using insert_total by blast
  have f: "same_frame h h'" "h_mem h' = ?m" using insert_frame [OF i] by (simp_all add: same_frame_def)
  have "gap_inv P x n S ((x + ?l) # holes (P @ S)) h'" by (rule gap_insert [OF gap_write [OF g holes_addr m] i])
  then have "heap_inv (P @ [(x, False, ?l), (x + ?l, True, ?r)] @ S) ((x + ?l) # holes (P @ S)) h'"
    by (rule gap_fill) (use n ok1 ok2 f(2) in auto)
  then have "heap_ok (P @ (x, False, ?l) # [(x + ?l, True, ?r)] @ S) h'" by (simp add: heap_inv_def)
  then show ?thesis using carve_split [OF g n] False i f m n
    by (intro exI [of _ h'] exI [of _ ?l] exI [of _ "[(x + ?l, True, ?r)]"]) simp
qed

text \<open>Taking the chosen hole out of the index leaves a gap where it was.\<close>

lemma index_hole:
  assumes ok: "heap_ok B h" and i: "i < length (h_index h)"
  obtains P n S where "B = P @ (h_index h ! i, True, n) # S" "hd_size (h_mem h) (h_index h ! i) = n"
    "gap_inv P (h_index h ! i) n S (holes (P @ S)) (remove_ordered_array i h)"
proof -
  let ?x = "h_index h ! i"
  have s: "mset (h_index h) = mset (holes B)" using ok by (simp add: heap_inv_def)
  then have "set (h_index h) = set (holes B)" by (metis set_mset_mset)
  then have "?x \<in> set (holes B)" using nth_mem [OF i] by simp
  then obtain n where "(?x, True, n) \<in> set B" by (auto simp: holes_def)
  then obtain P S where B: "B = P @ (?x, True, n) # S" by (meson split_list)
  have ok1: "block_ok (h_mem h) (?x, True, n)" using ok unfolding heap_inv_def B by simp
  then have n: "hd_size (h_mem h) ?x = n" by (simp add: block_ok_def)
  let ?h = "remove_ordered_array i h"
  have g: "gap_inv P ?x n S (holes B) h" by (rule inv_open [of P "[(?x, True, n)]" S]) (use ok B in auto)
  have m: "mset (h_index ?h) = mset (holes (P @ S))"
    using drop_nth_sorted(2) [OF i] s by (simp add: remove_ordered_array_def B)
  have "sorted (map (hd_size (h_mem h)) (h_index ?h))"
    using drop_nth_sorted(1) [OF i, of "hd_size (h_mem h)"] ok by (simp add: remove_ordered_array_def heap_inv_def)
  moreover have "length (h_index ?h) \<le> HEAP_INDEX_SIZE" using ok i by (auto simp: remove_ordered_array_def heap_inv_def)
  ultimately have "gap_inv P ?x n S (holes (P @ S)) ?h" by (intro gap_index [OF g m]) (simp_all add: remove_ordered_array_def)
  with B n show thesis by (rule that)
qed

lemma add_sub32: "b \<le> a \<Longrightarrow> a < 2 ^ 32 \<Longrightarrow> t32 (a + 2 ^ 32 - b) = (a - b :: nat)"
proof -
  assume "b \<le> a" "a < 2 ^ 32"
  then have "a + 2 ^ 32 - b = a - b + 1 * 2 ^ 32" "a - b < 2 ^ 32" by simp_all
  then show ?thesis unfolding t32_def by (metis mod_less mod_mult_self1)
qed

lemma page_up:
  fixes y :: nat
  assumes "y mod 4096 \<noteq> 0"
  shows "(y + 4095) div 4096 * 4096 = y + (4096 - y mod 4096)"
proof -
  define q r where "q = y div 4096" and "r = y mod 4096"
  have y: "y = 4096 * q + r" "r < 4096" "0 < r" using assms by (simp_all add: q_def r_def)
  have "(y + 4095) div 4096 = q + 1" by (rule div_nat_eqI) (use y in simp_all)
  then show ?thesis using y unfolding r_def [symmetric] by simp
qed

lemma align_hole_ok:
  assumes g: "gap_inv P x n S (holes (P @ S)) h" and n: "skip_to_page True x < n" "skip_to_page True x = 0 \<or> 28 \<le> skip_to_page True x"
    and room: "skip_to_page True x = 0 \<or> length (h_index h) < HEAP_INDEX_SIZE"
  shows "\<exists>h' P'. align_hole x n h = Ret (x + skip_to_page True x, n - skip_to_page True x, h') \<and>
    gap_inv (P @ P') (x + skip_to_page True x) (n - skip_to_page True x) S (holes ((P @ P') @ S)) h' \<and> (\<forall>b\<in>set P'. b_hole b) \<and>
    length (h_index h') \<le> Suc (length (h_index h)) \<and> laid x P' (x + skip_to_page True x) \<and>
    same_on (h_mem h) (h_mem h') (- {x..<x + n}) \<and> same_frame h h'"
proof (cases "(x + 12) mod 0x1000 = 0")
  case True
  then show ?thesis using g by (intro exI [of _ h] exI [of _ "[]"]) (simp add: align_hole_def skip_to_page_def same_on_def same_frame_def)
next
  case False
  let ?p = "skip_to_page True x"
  note b = gap_bounds [OF g]
  have p: "?p = 4096 - (x + 12) mod 4096" using False by (simp add: skip_to_page_def)
  have "(x + 12) mod 4096 < 4096" by simp
  then have p28: "28 \<le> ?p" using n(2) p by linarith
  have "(x + 12 + 4095) div 4096 * 4096 = x + 12 + ?p" unfolding p by (rule page_up) (rule False)
  then have nh: "(x + 12 + 0xFFF) div 0x1000 * 0x1000 - 12 = x + ?p" by linarith
  have t: "t32 (x + ?p - x) = ?p" "t32 (n + 2 ^ 32 - ?p) = n - ?p"
    using b n(1) add_sub32 [of ?p n] by (simp_all add: t32_def)
  let ?m = "put_block (x, True, ?p) (h_mem h)"
  let ?h = "h\<lparr>h_mem := ?m\<rparr>"
  have "length (h_index ?h) < HEAP_INDEX_SIZE" using room p28 by simp
  then obtain h' where i: "insert_ordered_array x ?h = Ret h'" using insert_total by blast
  have r: "align_hole x n h = Ret (x + ?p, n - ?p, h')"
    unfolding align_hole_def Let_def nh t using False p28 i by (simp add: put_block_def)
  have m: "same_on (h_mem h) ?m (- {x..<x + n})" using n p28 by (auto simp: same_on_def put_block_outside)
  have f: "same_frame h h'" "h_mem h' = ?m" using insert_frame [OF i] by (simp_all add: same_frame_def)
  have ok: "block_ok ?m (x, True, ?p)" using b n p28 by (intro put_block_ok) simp_all
  have "gap_inv P x n S (x # holes (P @ S)) h'" by (rule gap_insert [OF gap_write [OF g holes_addr m] i])
  then have "gap_inv (P @ [(x, True, ?p)]) (x + ?p) (n - ?p) S (x # holes (P @ S)) h'"
    by (rule gap_extend) (use f ok n in simp_all)
  then have "gap_inv (P @ [(x, True, ?p)]) (x + ?p) (n - ?p) S (holes ((P @ [(x, True, ?p)]) @ S)) h'"
    by (rule gap_cong) simp
  moreover have "length (h_index h') = Suc (length (h_index h))" using arg_cong [OF insert_ordered_Ret(2) [OF i], of size] by simp
  ultimately show ?thesis using r f m by (intro exI [of _ h'] exI [of _ "[(x, True, ?p)]"]) simp
qed

section \<open>Freeing\<close>

definition block_full :: "hmem \<Rightarrow> block \<Rightarrow> bool" where
  "block_full m b \<longleftrightarrow> block_ok m b \<and> ft_magic m (b_addr b + b_size b - 16) = HEAP_MAGIC"

lemma block_fullD:
  assumes "block_full m (a, ho, n)"
  shows "28 \<le> n" "hd_magic m a = HEAP_MAGIC" "hd_hole m a = ho" "hd_size m a = n"
    "ft_magic m (a + n - 16) = HEAP_MAGIC" "ft_header m (a + n - 16) = a" "block_ok m (a, ho, n)"
  using assms by (auto simp: block_full_def block_ok_def Let_def)

lemma block_fullI:
  assumes "28 \<le> n" "hd_magic m a = HEAP_MAGIC" "hd_hole m a = ho" "hd_size m a = n"
    "ft_magic m (a + n - 16) = HEAP_MAGIC" "ft_header m (a + n - 16) = a"
  shows "block_full m (a, ho, n)"
  using block_okI [OF assms] assms(5) by (simp add: block_full_def)

lemma resize:
  assumes "28 \<le> N" "N < 2 ^ 32"
  shows "hd_magic (wr32 (a + 8) N m) a = hd_magic m a" "hd_hole (wr32 (a + 8) N m) a = hd_hole m a" "hd_size (wr32 (a + 8) N m) a = N"
  using assms by (simp_all add: hd_magic_def hd_hole_def hd_size_def rd32_wr32 rd32_wr32_other wr32_outside)

lemma merged_right:
  assumes "block_full m (a, True, n)" "28 \<le> q" "n + q < 2 ^ 32" "a < 2 ^ 64"
  shows "block_full (put_footer (a + (n + q) - 16) a (wr32 (a + 8) (n + q) m)) (a, True, n + q)" (is "block_full ?m _")
proof -
  note f = block_fullD [OF assms(1)]
  have "same_on (wr32 (a + 8) (n + q) m) ?m {a..<a + 12}" using f(1) assms(2) by (auto simp: same_on_def put_footer_outside)
  note c = header_cong [OF this]
  show ?thesis by (rule block_fullI) (use c f resize [of "n + q" a m] assms in simp_all)
qed

lemma t64_le: "n \<le> k \<Longrightarrow> t64 n \<le> k"
  using mod_less_eq_dividend [of n "2 ^ 64"] by (simp add: t64_def)

lemma merge_right_none:
  assumes ok: "heap_inv (P @ (a, True, n) # S) J h" and f: "block_full (h_mem h) (a, True, n)" and S: "\<And>c q S'. S \<noteq> (c, True, q) # S'"
  shows "merge_right a h = Ret h"
proof -
  note b = gap_bounds [OF inv_open [of P "[(a, True, n)]" S J h a n]] and d = block_fullD [OF f]
  have t: "sub64 (a + n) 16 = a + n - 16" "t64 (a + n - 16 + 16) = a + n" "t64 (a + n + 12) = a + n + 12"
    using b ok d(1) by (simp_all add: arith_small)
  have "\<not> (a + n + 12 \<le> h_end h \<and> hd_hole (h_mem h) (a + n))"
  proof (cases S)
    case Nil
    then show ?thesis using ok by (simp add: heap_inv_def laid_append)
  next
    case (Cons b S')
    then obtain c q where "b = (c, False, q)" using S by (cases b) auto
    then show ?thesis using ok Cons by (auto simp: heap_inv_def laid_append block_ok_def)
  qed
  then show ?thesis unfolding merge_right_def Let_def d t by auto
qed

lemma merge_right_hole:
  assumes ok: "heap_inv (P @ (a, True, n) # (c, True, q) # S) (holes (P @ (c, True, q) # S)) h" and f: "block_full (h_mem h) (a, True, n)"
  shows "\<exists>h'. merge_right a h = (if spans_pid2 a (n + q) then Panic ''HEAP: merge-right spans PID2 stack'' else Ret h') \<and>
    heap_inv (P @ (a, True, n + q) # S) (holes (P @ S)) h' \<and> block_full (h_mem h') (a, True, n + q) \<and>
    same_on (h_mem h) (h_mem h') (- {a..<a + (n + q)}) \<and> same_frame h h' \<and> length (h_index h') \<le> length (h_index h)"
proof -
  have c: "c = a + n" and cok: "block_ok (h_mem h) (c, True, q)" using ok by (auto simp: heap_inv_def laid_append)
  have g: "gap_inv P a (n + q) S (holes (P @ (c, True, q) # S)) h"
    by (rule inv_open [of P "[(a, True, n), (c, True, q)]"]) (use ok c in simp_all)
  note b = gap_bounds [OF g] and d = block_fullD [OF f]
  have q: "28 \<le> q" "hd_size (h_mem h) c = q" "hd_magic (h_mem h) c = HEAP_MAGIC" "hd_hole (h_mem h) c" using cok by (simp_all add: block_ok_def)
  have t: "sub64 (a + n) 16 = a + n - 16" "t64 (a + n - 16 + 16) = c" "t32 (n + q) = n + q" "sub64 (a + (n + q)) 16 = a + (n + q) - 16"
    using b d(1) c by (simp_all add: arith_small)
  let ?m = "put_footer (a + (n + q) - 16) a (wr32 (a + 8) (n + q) (h_mem h))"
  let ?h = "(unindex c h)\<lparr>h_mem := ?m\<rparr>"
  have full: "block_full ?m (a, True, n + q)" by (rule merged_right [OF f]) (use b q in simp_all)
  have m: "same_on (h_mem h) ?m (- {a..<a + (n + q)})" using d(1) q(1) by (auto simp: same_on_def put_footer_outside wr32_outside)
  have in_heap: "h_start h \<le> c" "t64 (c + 12) \<le> h_end h" using b c q(1) by (simp_all add: t64_le)
  have "(unindex c (h\<lparr>h_mem := M\<rparr>))\<lparr>h_mem := M'\<rparr> = (unindex c h)\<lparr>h_mem := M'\<rparr>" "h_mem (unindex c h) = h_mem h"
    "h_mem (unindex c (h\<lparr>h_mem := M\<rparr>)) = M" for M M'
    by (simp_all add: unindex_remove1)
  then have r: "merge_right a h = (if spans_pid2 a (n + q) then Panic ''HEAP: merge-right spans PID2 stack'' else Ret ?h)"
    unfolding merge_right_def Let_def d t q using in_heap q block_fullD(4) [OF full] by simp
  have "gap_inv P a (n + q) S (c # holes (P @ S)) h" by (rule gap_cong [OF g]) simp
  then have "gap_inv P a (n + q) S (holes (P @ S)) (unindex c h)" by (rule gap_unindex)
  then have "gap_inv P a (n + q) S (holes (P @ S)) ?h" by (rule gap_write [OF _ holes_addr]) (use m in \<open>simp add: unindex_remove1\<close>)
  then have "heap_inv (P @ [(a, True, n + q)] @ S) (holes (P @ S)) ?h" by (rule gap_fill) (use full in \<open>simp_all add: block_full_def\<close>)
  then show ?thesis using r full m by (intro exI [of _ ?h]) (simp add: same_frame_def unindex_remove1 length_remove1)
qed

lemma merged_left:
  assumes "block_full m (a, True, n)" "28 \<le> q" "a = c + q" "hd_magic m c = HEAP_MAGIC" "hd_hole m c" "q + n < 2 ^ 32" "c < 2 ^ 64"
  shows "block_full (wr64 (a + n - 16 + 8) c (wr32 (c + 8) (q + n) m)) (c, True, q + n)" (is "block_full ?m _")
proof -
  note f = block_fullD [OF assms(1)]
  let ?w = "wr32 (c + 8) (q + n) m"
  have "same_on ?w ?m {c..<c + 12}" using f(1) assms(2,3) by (auto simp: same_on_def wr64_outside)
  note h = header_cong [OF this]
  have "rd32 ?m (a + n - 16) = rd32 ?w (a + n - 16)" using f(1)
    by (intro rd32_cong) (unfold same_on_def, intro ballI wr64_outside, simp, linarith)
  also have "\<dots> = rd32 m (a + n - 16)" using f(1) assms(2,3) by (intro rd32_wr32_other) linarith
  finally have g: "ft_magic ?m (a + n - 16) = HEAP_MAGIC" using f(5) by (simp add: ft_magic_def)
  have e: "ft_header ?m (a + n - 16) = c" unfolding ft_header_def by (rule rd64_wr64) (rule assms(7))
  have eq: "c + (q + n) - 16 = a + n - 16" using assms(3) by simp
  show ?thesis by (rule block_fullI) (use h g e eq f(1) resize [of "q + n" c m] assms in simp_all)
qed

lemma merge_left_none:
  assumes ok: "heap_inv (P @ (a, True, n) # S) J h" and P: "\<And>P' b. P = P' @ [b] \<Longrightarrow> b_hole b \<Longrightarrow> ft_magic (h_mem h) (a - 16) \<noteq> HEAP_MAGIC"
  shows "merge_left a h = Ret (a, h)"
proof -
  note b = gap_bounds [OF inv_open [of P "[(a, True, n)]" S J h a n]]
  have l: "laid (h_start h) P a" "\<And>b. b \<in> set P \<Longrightarrow> block_ok (h_mem h) b" using ok by (auto simp: heap_inv_def laid_append)
  have t: "sub64 a 16 = a - 16" using b ok by (simp add: arith_small)
  have "\<not> (h_start h \<le> a - 16 \<and> ft_magic (h_mem h) (a - 16) = HEAP_MAGIC \<and> hd_hole (h_mem h) (ft_header (h_mem h) (a - 16)))"
  proof (cases P rule: rev_cases)
    case Nil
    then show ?thesis using l ok by (auto simp: heap_inv_def)
  next
    case (snoc P' p)
    then have pok: "block_ok (h_mem h) p" and e: "b_addr p + b_size p = a" using l by (auto simp: laid_append)
    show ?thesis
    proof (cases "b_hole p")
      case False
      then show ?thesis using pok e by (auto simp: block_ok_def Let_def)
    qed (use P snoc in blast)
  qed
  then show ?thesis unfolding merge_left_def Let_def t by auto
qed

lemma merge_left_hole:
  assumes ok: "heap_inv (P @ (c, True, q) # (a, True, n) # S) (holes (P @ (c, True, q) # S)) h" and f: "block_full (h_mem h) (a, True, n)"
    and p: "ft_magic (h_mem h) (a - 16) = HEAP_MAGIC"
  shows "\<exists>h'. merge_left a h = (if spans_pid2 c (q + n) then Panic ''HEAP: merge-left spans PID2 stack'' else Ret (c, h')) \<and>
    heap_inv (P @ (c, True, q + n) # S) (holes (P @ S)) h' \<and> block_full (h_mem h') (c, True, q + n) \<and>
    same_on (h_mem h) (h_mem h') (- {c..<c + (q + n)}) \<and> same_frame h h' \<and> length (h_index h') \<le> length (h_index h)"
proof -
  have a: "a = c + q" and cok: "block_ok (h_mem h) (c, True, q)" using ok by (auto simp: heap_inv_def laid_append)
  have g: "gap_inv P c (q + n) S (holes (P @ (c, True, q) # S)) h"
    by (rule inv_open [of P "[(c, True, q), (a, True, n)]"]) (use ok a in simp_all)
  note b = gap_bounds [OF g] and d = block_fullD [OF f]
  have q: "28 \<le> q" "hd_size (h_mem h) c = q" "hd_magic (h_mem h) c = HEAP_MAGIC" "hd_hole (h_mem h) c" "ft_header (h_mem h) (a - 16) = c"
    using cok p a by (auto simp: block_ok_def Let_def)
  have t: "sub64 (a + n) 16 = a + n - 16" "sub64 a 16 = a - 16" "t32 (q + n) = q + n"
    using b d(1) q(1) a by (simp_all add: arith_small)
  let ?m = "wr64 (a + n - 16 + 8) c (wr32 (c + 8) (q + n) (h_mem h))"
  let ?h = "(unindex c h)\<lparr>h_mem := ?m\<rparr>"
  have full: "block_full ?m (c, True, q + n)" by (rule merged_left [OF f]) (use b q a in simp_all)
  have m: "same_on (h_mem h) ?m (- {c..<c + (q + n)})" using d(1) q(1) a by (auto simp: same_on_def wr64_outside wr32_outside)
  have in_heap: "h_start h \<le> a - 16" "a - 16 + 16 \<le> a" "h_start h \<le> c" "t64 a \<le> a" "t64 (c + 12) \<le> h_end h" using b a q(1) by (simp_all add: t64_le)
  have u: "unindex c (h\<lparr>h_mem := M\<rparr>) = (unindex c h)\<lparr>h_mem := M\<rparr>" "h_mem (unindex c h) = h_mem h" for M
    by (simp_all add: unindex_remove1)
  have r: "merge_left a h = (if spans_pid2 c (q + n) then Panic ''HEAP: merge-left spans PID2 stack'' else Ret (c, ?h))"
    unfolding merge_left_def Let_def d t q p u using in_heap q(4) block_fullD(4) [OF full] by simp
  have "gap_inv P c (q + n) S (c # holes (P @ S)) h" by (rule gap_cong [OF g]) simp
  then have "gap_inv P c (q + n) S (holes (P @ S)) (unindex c h)" by (rule gap_unindex)
  then have "gap_inv P c (q + n) S (holes (P @ S)) ?h" by (rule gap_write [OF _ holes_addr]) (use m in \<open>simp add: unindex_remove1\<close>)
  then have "heap_inv (P @ [(c, True, q + n)] @ S) (holes (P @ S)) ?h" by (rule gap_fill) (use full in \<open>simp_all add: block_full_def\<close>)
  then show ?thesis using r full m by (intro exI [of _ ?h]) (simp add: same_frame_def unindex_remove1 length_remove1)
qed

definition live :: "block list \<Rightarrow> block list" where
  "live B = filter (\<lambda>b. \<not> b_hole b) B"

lemma live_simps [simp]: "live [] = []" "live (b # B) = (if b_hole b then live B else b # live B)" "live (B @ D) = live B @ live D"
  by (simp_all add: live_def)

lemma same_on_refl [simp]: "same_on m m X"
  by (simp add: same_on_def)

lemma same_frame_refl [simp]: "same_frame h h"
  by (simp add: same_frame_def)

lemma inv_end: "heap_inv (P @ (a, ho, n) # S) J h \<Longrightarrow> h_start h \<le> a \<and> a + n \<le> h_end h"
  using gap_bounds(2,3) [OF inv_open [of P "[(a, ho, n)]" S J h a n]] by simp

lemma merge_right_ok:
  assumes ok: "heap_inv (P @ (a, True, n) # S) (holes (P @ S)) h" and f: "block_full (h_mem h) (a, True, n)"
  shows "(\<exists>h' n' S'. merge_right a h = Ret h' \<and> heap_inv (P @ (a, True, n') # S') (holes (P @ S')) h' \<and>
      block_full (h_mem h') (a, True, n') \<and> live S' = live S \<and> n \<le> n' \<and>
      same_on (h_mem h) (h_mem h') (- {a..<a + n'}) \<and> same_frame h h' \<and> length (h_index h') \<le> length (h_index h)) \<or>
    (\<exists>n' S'. merge_right a h = Panic ''HEAP: merge-right spans PID2 stack'' \<and> spans_pid2 a n' \<and> n \<le> n' \<and> laid (a + n') S' (h_end h) \<and> live S' = live S)"
proof (cases "\<exists>c q S'. S = (c, True, q) # S'")
  case True
  then obtain c q S' where S: "S = (c, True, q) # S'" by blast
  have c: "c = a + n" "28 \<le> q" using ok S by (auto simp: heap_inv_def laid_append block_ok_def)
  show ?thesis
  proof (cases "spans_pid2 a (n + q)")
    case True
    have "laid (a + (n + q)) S' (h_end h)" using ok S c by (auto simp: heap_inv_def laid_append add.assoc)
    with True merge_right_hole [OF ok [unfolded S] f] show ?thesis by (intro disjI2 exI [of _ "n + q"] exI [of _ S']) (auto simp: S)
  next
    case False
    obtain h' where "merge_right a h = Ret h'" "heap_inv (P @ (a, True, n + q) # S') (holes (P @ S')) h'" "block_full (h_mem h') (a, True, n + q)"
      "same_on (h_mem h) (h_mem h') (- {a..<a + (n + q)})" "same_frame h h'" "length (h_index h') \<le> length (h_index h)"
      using merge_right_hole [OF ok [unfolded S] f] False by auto
    then show ?thesis by (intro disjI1 exI [of _ h'] exI [of _ "n + q"] exI [of _ S']) (simp add: S)
  qed
next
  case False
  then have "merge_right a h = Ret h" by (intro merge_right_none [OF ok f]) blast
  then show ?thesis using ok f by (intro disjI1 exI [of _ h] exI [of _ n] exI [of _ S]) simp
qed

lemma merge_left_ok:
  assumes ok: "heap_inv (P @ (a, True, n) # S) (holes (P @ S)) h" and f: "block_full (h_mem h) (a, True, n)"
  shows "(\<exists>h' x l P'. merge_left a h = Ret (x, h') \<and> heap_inv (P' @ (x, True, l) # S) (holes (P' @ S)) h' \<and>
      live P' = live P \<and> x \<le> a \<and> x + l = a + n \<and>
      same_on (h_mem h) (h_mem h') (- {x..<x + l}) \<and> same_frame h h' \<and> length (h_index h') \<le> length (h_index h)) \<or>
    (\<exists>x l P'. merge_left a h = Panic ''HEAP: merge-left spans PID2 stack'' \<and> spans_pid2 x l \<and> x \<le> a \<and> x + l = a + n \<and>
      laid (h_start h) P' x \<and> live P' = live P)"
proof (cases "\<exists>c q P'. P = P' @ [(c, True, q)] \<and> ft_magic (h_mem h) (a - 16) = HEAP_MAGIC")
  case True
  then obtain c q P' where P: "P = P' @ [(c, True, q)]" and p: "ft_magic (h_mem h) (a - 16) = HEAP_MAGIC" by blast
  have ok': "heap_inv (P' @ (c, True, q) # (a, True, n) # S) (holes (P' @ (c, True, q) # S)) h" using ok P by simp
  have c: "a = c + q" "28 \<le> q" using ok' by (auto simp: heap_inv_def laid_append block_ok_def)
  have s: "laid (h_start h) P' c" using ok' by (auto simp: heap_inv_def laid_append)
  show ?thesis
  proof (cases "spans_pid2 c (q + n)")
    case True
    with merge_left_hole [OF ok' f p] c s show ?thesis by (intro disjI2 exI [of _ c] exI [of _ "q + n"] exI [of _ P']) (auto simp: P)
  next
    case False
    obtain h' where "merge_left a h = Ret (c, h')" "heap_inv (P' @ (c, True, q + n) # S) (holes (P' @ S)) h'"
      "same_on (h_mem h) (h_mem h') (- {c..<c + (q + n)})" "same_frame h h'" "length (h_index h') \<le> length (h_index h)"
      using merge_left_hole [OF ok' f p] False by auto
    then show ?thesis using c by (intro disjI1 exI [of _ h'] exI [of _ c] exI [of _ "q + n"] exI [of _ P']) (simp add: P)
  qed
next
  case False
  then have "merge_left a h = Ret (a, h)" by (intro merge_left_none [OF ok]) (metis prod.collapse)
  then show ?thesis using ok by (intro disjI1 exI [of _ h] exI [of _ a] exI [of _ n] exI [of _ P]) simp
qed

lemma mark_hole:
  assumes ok: "heap_inv (P @ (a, ho, n) # S) (holes (P @ S)) h" and f: "block_full (h_mem h) (a, ho, n)"
  defines "h1 \<equiv> h\<lparr>h_mem := (h_mem h)(a + 4 := 1)\<rparr>"
  shows "heap_inv (P @ (a, True, n) # S) (holes (P @ S)) h1" "block_full (h_mem h1) (a, True, n)"
proof -
  note d = block_fullD [OF f]
  let ?m = "(h_mem h)(a + 4 := 1)"
  have "same_on (h_mem h) ?m {a + n - 16..<a + n - 16 + 16}" using d(1) by (auto simp: same_on_def)
  note c = footer_cong [OF this]
  have r: "rd32 ?m a = rd32 (h_mem h) a" "rd32 ?m (a + 8) = rd32 (h_mem h) (a + 8)" by (rule rd32_cong, simp add: same_on_def)+
  have full: "block_full ?m (a, True, n)"
    by (rule block_fullI) (use d c r in \<open>simp_all add: hd_magic_def hd_hole_def hd_size_def\<close>)
  then show "block_full (h_mem h1) (a, True, n)" by (simp add: h1_def)
  have m: "same_on (h_mem h) ?m (- {a..<a + n})" using d(1) by (auto simp: same_on_def)
  have "gap_inv P a n S (holes (P @ S)) h" by (rule inv_open [of P "[(a, ho, n)]"]) (use ok in simp_all)
  then have "gap_inv P a n S (holes (P @ S)) h1" unfolding h1_def by (rule gap_write [OF _ holes_addr m])
  then have "heap_inv (P @ [(a, True, n)] @ S) (holes (P @ S)) h1" by (rule gap_fill) (use full in \<open>simp_all add: block_full_def h1_def\<close>)
  then show "heap_inv (P @ (a, True, n) # S) (holes (P @ S)) h1" by simp
qed

lemma same_on_trans:
  "same_on m m' (- X) \<Longrightarrow> same_on m' m'' (- Y) \<Longrightarrow> X \<subseteq> Z \<Longrightarrow> Y \<subseteq> Z \<Longrightarrow> same_on m m'' (- Z)"
  unfolding same_on_def by (metis ComplD ComplI subsetD)

lemma same_frame_trans: "same_frame h h' \<Longrightarrow> same_frame h' h'' \<Longrightarrow> same_frame h h''"
  by (simp add: same_frame_def)

text \<open>The block and free space around it, up to live blocks, make a hole that spans the address.\<close>

definition merge_spans :: "block list \<Rightarrow> nat \<Rightarrow> nat \<Rightarrow> block list \<Rightarrow> heap \<Rightarrow> bool" where
  "merge_spans P a n S h \<longleftrightarrow> (\<exists>x l P' S'. spans_pid2 x l \<and> x \<le> a \<and> a + n \<le> x + l \<and>
     laid (h_start h) P' x \<and> live P' = live P \<and> laid (x + l) S' (h_end h) \<and> live S' = live S)"

lemma left_insert:
  assumes ok: "heap_inv (P @ (a, True, n) # S) (holes (P @ S)) h" and f: "block_full (h_mem h) (a, True, n)"
  defines "r \<equiv> obind (merge_left a h) (\<lambda>(a2, h2). insert_ordered_array a2 h2)"
  shows "(\<exists>h' P' x l. r = Ret h' \<and> heap_ok (P' @ (x, True, l) # S) h' \<and> live P' = live P \<and> x \<le> a \<and> x + l = a + n \<and>
      same_on (h_mem h) (h_mem h') (- {x..<x + l}) \<and> same_frame h h') \<or>
    ((\<exists>e. r = Panic e) \<and> ((\<exists>x l P'. spans_pid2 x l \<and> x \<le> a \<and> x + l = a + n \<and> laid (h_start h) P' x \<and> live P' = live P) \<or> HEAP_INDEX_SIZE \<le> length (h_index h)))"
  using merge_left_ok [OF ok f]
proof (elim disjE exE conjE)
  fix x l P'
  assume "merge_left a h = Panic ''HEAP: merge-left spans PID2 stack''" "spans_pid2 x l" "x \<le> a" "x + l = a + n"
    "laid (h_start h) P' x" "live P' = live P"
  then show ?thesis unfolding r_def by auto
next
  fix h2 x l P'
  assume q: "merge_left a h = Ret (x, h2)" and ok2: "heap_inv (P' @ (x, True, l) # S) (holes (P' @ S)) h2" and l2: "live P' = live P"
    and x: "x \<le> a" "x + l = a + n" and m2: "same_on (h_mem h) (h_mem h2) (- {x..<x + l})" and f2: "same_frame h h2"
    and len: "length (h_index h2) \<le> length (h_index h)"
  show ?thesis
  proof (cases "HEAP_INDEX_SIZE \<le> length (h_index h2)")
    case True
    then show ?thesis unfolding r_def q using len by (simp add: insert_ordered_array_def)
  next
    case False
    then obtain h3 where i: "insert_ordered_array x h2 = Ret h3" using insert_total [of h2 x] by auto
    have "heap_inv (P' @ (x, True, l) # S) (x # holes (P' @ S)) h3"
      using gap_insert [OF ok2 [unfolded inv_gap] i] insert_frame [OF i] by (simp add: inv_gap same_frame_def)
    then have "heap_ok (P' @ (x, True, l) # S) h3" by (simp add: heap_inv_def)
    moreover have "r = Ret h3" unfolding r_def q using i by simp
    ultimately show ?thesis using l2 x m2 insert_frame [OF i] same_frame_trans [OF f2]
      by (intro disjI1 exI [of _ h3] exI [of _ P'] exI [of _ x] exI [of _ l]) simp
  qed
qed

lemma free_block:
  assumes ok: "heap_inv (P @ (a, ho, n) # S) (holes (P @ S)) h" and f: "block_full (h_mem h) (a, ho, n)"
  shows "(\<exists>h' P' x l S'. free_internal (a + 12) h = Ret h' \<and> heap_ok (P' @ (x, True, l) # S') h' \<and> live P' = live P \<and> live S' = live S \<and>
      x \<le> a \<and> a + n \<le> x + l \<and> same_on (h_mem h) (h_mem h') (- {x..<x + l}) \<and> same_frame h h') \<or>
    ((\<exists>e. free_internal (a + 12) h = Panic e) \<and> (merge_spans P a n S h \<or> HEAP_INDEX_SIZE \<le> length (h_index h)))"
proof -
  let ?h = "h\<lparr>h_mem := (h_mem h)(a + 4 := 1)\<rparr>"
  let ?r = "\<lambda>h1. obind (merge_left a h1) (\<lambda>(a2, h2). insert_ordered_array a2 h2)"
  note d = block_fullD [OF f] and i = inv_end [OF ok] and mk = mark_hole [OF ok f]
  have "h_end h + 2 ^ 32 < 2 ^ 64" using ok by (simp add: heap_inv_def)
  then have t: "sub64 (a + 12) 12 = a" "sub64 (a + n) 16 = a + n - 16" using i d(1) by (simp_all add: arith_small)
  have fi: "free_internal (a + 12) h = obind (merge_right a ?h) ?r" unfolding free_internal_def Let_def t d by simp
  have m0: "same_on (h_mem h) (h_mem ?h) (- {a..<a + n})" using d(1) by (auto simp: same_on_def)
  have f0: "same_frame h ?h" by (simp add: same_frame_def)
  from merge_right_ok [OF mk] show ?thesis
  proof (elim disjE exE conjE)
    fix n' S'
    assume "merge_right a ?h = Panic ''HEAP: merge-right spans PID2 stack''" "spans_pid2 a n'" "n \<le> n'" "laid (a + n') S' (h_end ?h)" "live S' = live S"
    moreover have "laid (h_start h) P a" using ok by (auto simp: heap_inv_def laid_append)
    ultimately show ?thesis unfolding fi merge_spans_def by (intro disjI2 conjI disjI1 exI [of _ a] exI [of _ n'] exI [of _ P] exI [of _ S']) auto
  next
    fix h1 n1 S1
    assume r: "merge_right a ?h = Ret h1" and ok1: "heap_inv (P @ (a, True, n1) # S1) (holes (P @ S1)) h1" and full1: "block_full (h_mem h1) (a, True, n1)"
      and l1: "live S1 = live S" and n1: "n \<le> n1" and m1: "same_on (h_mem ?h) (h_mem h1) (- {a..<a + n1})" and f1: "same_frame ?h h1"
      and len1: "length (h_index h1) \<le> length (h_index ?h)"
    have e: "free_internal (a + 12) h = ?r h1" unfolding fi r by simp
    from left_insert [OF ok1 full1] show ?thesis
    proof (elim disjE exE conjE)
      fix x l P' e
      assume "?r h1 = Panic e" "spans_pid2 x l" "x \<le> a" "x + l = a + n1" "laid (h_start h1) P' x" "live P' = live P"
      moreover have "laid (a + n1) S1 (h_end h1)" using ok1 by (auto simp: heap_inv_def laid_append)
      ultimately show ?thesis using n1 f1 l1 unfolding e merge_spans_def
        by (intro disjI2 conjI disjI1 exI [of _ x] exI [of _ l] exI [of _ P'] exI [of _ S1]) (auto simp: same_frame_def)
    next
      fix h3 P2 x l
      assume "?r h1 = Ret h3" "heap_ok (P2 @ (x, True, l) # S1) h3" "live P2 = live P" and x: "x \<le> a" "x + l = a + n1"
        and m3: "same_on (h_mem h1) (h_mem h3) (- {x..<x + l})" and "same_frame h1 h3"
      moreover have "same_on (h_mem h) (h_mem h1) (- {x..<x + l})" by (rule same_on_trans [OF m0 m1]) (use x n1 in auto)
      then have "same_on (h_mem h) (h_mem h3) (- {x..<x + l})" using m3 by (simp add: same_on_def)
      ultimately show ?thesis using l1 n1 same_frame_trans [OF same_frame_trans [OF f0 f1]] unfolding e
        by (intro disjI1 exI [of _ h3] exI [of _ P2] exI [of _ x] exI [of _ l] exI [of _ S1]) simp
    qed (use len1 e in auto)
  qed
qed

end
