(* ===== verification/HeapUse.thy ===== *)
theory HeapUse
  imports HeapSafe
begin

text \<open>
  The live blocks of the heap after allocating, freeing and growing.
\<close>

section \<open>Live blocks\<close>

lemma row_apart:
  assumes "laid s (P @ (y, ho, n) # S) e" "b \<in> set (P @ S)"
  shows "b_addr b + b_size b \<le> y \<or> y + n \<le> b_addr b"
proof -
  have "laid s P y" "laid (y + n) S e" using assms(1) by (auto simp: laid_append)
  then show ?thesis using laid_range [of s P y b] laid_range [of "y + n" S e b] assms(2) by auto
qed

lemma live_untouched:
  assumes "laid s (P @ (y, ho, n) # S) e" "same_on m m' (- {y..<y + n})" "b \<in> set (live P @ live S)"
  shows "same_on m m' (b_range b)"
proof -
  have "b \<in> set (P @ S)" using assms(3) by (auto simp: live_def)
  from row_apart [OF assms(1) this] assms(2) show ?thesis by (auto simp: same_on_def)
qed

lemma skip_to_page_page: "skip_to_page True x = 0 \<longleftrightarrow> (x + 12) mod 4096 = 0"
proof -
  have "(x + 12) mod 4096 < 4096" by simp
  then show ?thesis unfolding skip_to_page_def by (simp, linarith)
qed

lemma skip_aligned: "4096 dvd x + skip_to_page True x + 12"
proof (cases "(x + 12) mod 4096 = 0")
  case False
  then have "x + skip_to_page True x + 12 = (x + 12 + 4095) div 4096 * 4096" using page_up [of "x + 12"] by (simp add: skip_to_page_def)
  then show ?thesis by (simp only: dvd_triv_right)
qed (simp add: skip_to_page_def mod_eq_0_iff_dvd)

lemma all_holes_live: "(\<forall>b\<in>set B. b_hole b) \<Longrightarrow> live B = []"
  by (simp add: live_def)

lemma alloc_at_ok:
  assumes ok: "heap_ok B h" and i: "find_smallest_hole (k + 28) al h = Some i"
    and skip: "skip_to_page al (h_index h ! i) = 0 \<or> 28 \<le> skip_to_page al (h_index h ! i) \<and> length (h_index h) < HEAP_INDEX_SIZE"
  defines "x \<equiv> h_index h ! i + skip_to_page al (h_index h ! i)"
  shows "\<exists>h' B' l. alloc_at k (k + 28) al i h = Ret (x + 12, h') \<and> heap_ok B' h' \<and> k + 28 \<le> l \<and>
    mset (live B') = add_mset (x, False, l) (mset (live B)) \<and> (\<forall>b\<in>set (live B). same_on (h_mem h) (h_mem h') (b_range b)) \<and> same_frame h h'"
proof -
  note s = find_smallest_hole_Some [OF i]
  let ?y = "h_index h ! i" and ?r = "remove_ordered_array i h" and ?p = "skip_to_page al (h_index h ! i)"
  obtain P n S where B: "B = P @ (?y, True, n) # S" and n: "hd_size (h_mem h) ?y = n" and g: "gap_inv P ?y n S (holes (P @ S)) ?r"
    using index_hole [OF ok s(1)] by blast
  have l: "laid (h_start h) (P @ (?y, True, n) # S) (h_end h)" using ok by (simp add: heap_inv_def B)
  have r: "h_mem ?r = h_mem h" "same_frame h ?r" "Suc (length (h_index ?r)) = length (h_index h)"
    using s(1) by (auto simp: remove_ordered_array_def same_frame_def)
  have len: "length (h_index h) \<le> HEAP_INDEX_SIZE" using ok by (simp add: heap_inv_def)
  have fit: "k + 28 \<le> n - ?p" "al \<Longrightarrow> ?p < n" using s(2) n by (auto simp: fits_def)
  have "n \<le> h_max h - h_start h" using gap_bounds [OF g] r(2) by (simp add: same_frame_def)
  moreover have "sub64 (h_max h) (h_start h) = h_max h - h_start h" using gap_bounds [OF g] ok r(2) by (intro arith_small) (auto simp: same_frame_def heap_inv_def)
  ultimately have at: "alloc_at k (k + 28) al i h =
      (if al then obind (align_hole ?y n ?r) (\<lambda>(pos1, size1, h2). carve k (k + 28) pos1 size1 h2) else carve k (k + 28) ?y n ?r)"
    by (simp add: alloc_at_def n Let_def)
  obtain h2 L where h2: "alloc_at k (k + 28) al i h = carve k (k + 28) x (n - ?p) h2" "gap_inv (P @ L) x (n - ?p) S (holes ((P @ L) @ S)) h2"
    "\<forall>b\<in>set L. b_hole b" "length (h_index h2) < HEAP_INDEX_SIZE" "same_on (h_mem h) (h_mem h2) (- {?y..<?y + n})" "same_frame h h2"
  proof (cases "?p = 0")
    case True
    then have "al \<Longrightarrow> align_hole ?y n ?r = Ret (?y, n, ?r)" by (simp add: align_hole_def skip_to_page_page)
    then show thesis using that [of ?r "[]"] True at g r len by (simp add: x_def)
  next
    case False
    then have al: "al" by (cases al) (simp_all add: skip_to_page_def)
    with False skip have q: "28 \<le> skip_to_page True ?y" "length (h_index h) < HEAP_INDEX_SIZE" by auto
    obtain h2 L where "align_hole ?y n ?r = Ret (x, n - ?p, h2)" "gap_inv (P @ L) x (n - ?p) S (holes ((P @ L) @ S)) h2"
      "\<forall>b\<in>set L. b_hole b" "length (h_index h2) \<le> Suc (length (h_index ?r))" "same_on (h_mem ?r) (h_mem h2) (- {?y..<?y + n})" "same_frame ?r h2"
      using align_hole_ok [OF g] fit(2) q r al unfolding x_def by force
    then show thesis using that [of h2 L] al at r same_frame_trans [OF r(2)] q(2) by simp
  qed
  obtain h' l R where h': "carve k (k + 28) x (n - ?p) h2 = Ret (x + 12, h')" "heap_ok ((P @ L) @ (x, False, l) # R @ S) h'" "k + 28 \<le> l"
    "\<forall>b\<in>set R. b_hole b" "same_on (h_mem h2) (h_mem h') (- {x..<x + (n - ?p)})" "same_frame h2 h'"
    using carve_ok [OF h2(2) fit(1)] h2(4) by blast
  have p: "?p \<le> n" using fit(2) by (cases al) (auto simp: skip_to_page_def)
  have m: "same_on (h_mem h) (h_mem h') (- {?y..<?y + n})" by (rule same_on_trans [OF h2(5) h'(5)]) (use p in \<open>auto simp: x_def\<close>)
  have "live L = []" "live R = []" "live B = live P @ live S"
    using h2(3) h'(4) by (simp_all add: all_holes_live B)
  then show ?thesis using h2(1) h' same_frame_trans [OF h2(6) h'(6)] live_untouched [OF l m]
    by (intro exI [of _ h'] exI [of _ "(P @ L) @ (x, False, l) # R @ S"] exI [of _ l]) simp
qed

section \<open>Growing\<close>

lemma expand_pages_frame:
  "expand_pages kd f i size1 h = Ret h' \<Longrightarrow> h' = h\<lparr>h_mmu := h_mmu h'\<rparr>"
proof (induction kd f i size1 h rule: expand_pages.induct)
  case (2 kd n i size1 h)
  show ?case
  proof (cases "i < size1")
    case True
    with 2(2) obtain p s1 s2 phys where g: "get_page (of_nat (h_start h + i)) True kd (h_mmu h) = Ret (Some p, s1)"
      and f: "heap_frame (PAGE_SET_FLAGS p (MMU_PRESENT OR (if h_readonly h then 0 else MMU_WRITABLE) OR (if h_supervisor h then 0 else MMU_USER)) s1) = Ret (phys, s2)"
      and r: "expand_pages kd n (t32 (i + 0x1000)) size1 (h\<lparr>h_mmu := PAGE_SET_FRAME p phys s2\<rparr>) = Ret h'"
      by (auto simp: obind_Ret_iff Let_def split: outcome.splits option.splits)
    have "h' = h\<lparr>h_mmu := PAGE_SET_FRAME p phys s2\<rparr>\<lparr>h_mmu := h_mmu h'\<rparr>" by (rule 2(1) [OF True g refl refl refl r])
    then show ?thesis by simp
  qed (use 2(2) in simp)
qed simp

lemma round_page: "n + 4096 < 2 ^ 32 \<Longrightarrow> n \<le> (if n mod 4096 \<noteq> 0 then t32 n div 4096 * 4096 + 4096 else n) \<and>
    (if n mod 4096 \<noteq> 0 then t32 n div 4096 * 4096 + 4096 else n) \<le> n + 4096"
proof -
  assume "n + 4096 < 2 ^ 32"
  then have t: "t32 n = n" by (simp add: arith_small)
  have "n = n div 4096 * 4096 + n mod 4096" "n mod 4096 < 4096" by simp_all
  then show ?thesis unfolding t by auto
qed

lemma expand_row:
  fixes s :: mmu
  assumes ok: "heap_ok B h" and sz: "h_end h - h_start h + 28 \<le> size1" "size1 < 2 ^ 32" "h_start h + size1 \<le> h_max h"
  defines "n \<equiv> size1 - (h_end h - h_start h)"
  defines "h1 \<equiv> h\<lparr>h_mmu := s, h_end := h_start h + size1, h_mem := put_block (h_end h, True, n) (h_mem h)\<rparr>"
  shows "heap_inv (B @ [(h_end h, True, n)]) (holes B) h1" "block_full (h_mem h1) (h_end h, True, n)"
    "h_end h + n = h_start h + size1" "\<And>b. b \<in> set B \<Longrightarrow> same_on (h_mem h) (h_mem h1) (b_range b)"
proof -
  have b: "h_start h \<le> h_end h" "h_max h + 2 ^ 32 < 2 ^ 64" "laid (h_start h) B (h_end h)" "h_end h \<le> h_max h"
    using ok laid_le [of "h_start h" B "h_end h"] by (auto simp: heap_inv_def)
  show e: "h_end h + n = h_start h + size1" using sz b by (simp add: n_def)
  have n: "28 \<le> n" "n < 2 ^ 32" using sz by (auto simp: n_def)
  have full: "block_ok (put_block (h_end h, True, n) (h_mem h)) (h_end h, True, n)" using n b by (intro put_block_ok) simp_all
  then show "block_full (h_mem h1) (h_end h, True, n)" by (simp add: block_full_def h1_def put_block_def)
  have m: "same_on (h_mem h) (put_block (h_end h, True, n) (h_mem h)) (- {h_end h..<h_end h + n})"
    using n by (auto simp: same_on_def put_block_outside)
  have g: "gap_inv B (h_end h) n [] (holes B) (h\<lparr>h_mmu := s, h_end := h_start h + size1\<rparr>)"
    using ok sz e by (auto simp: heap_inv_def gap_inv_def)
  have "gap_inv B (h_end h) n [] (holes B) h1"
    using gap_write [OF g, of "put_block (h_end h, True, n) (h_mem h)"] m holes_addr by (simp add: h1_def)
  then have "heap_inv (B @ [(h_end h, True, n)] @ []) (holes B) h1" by (rule gap_fill) (use full in \<open>simp_all add: h1_def\<close>)
  then show "heap_inv (B @ [(h_end h, True, n)]) (holes B) h1" by simp
  show "same_on (h_mem h) (h_mem h1) (b_range b)" if "b \<in> set B" for b
    using laid_range [OF b(3) that] m by (auto simp: same_on_def h1_def)
qed

lemma expand_ok:
  assumes ok: "heap_ok B h" and sz: "h_end h - h_start h + 28 \<le> new_size" "new_size + 4096 < 2 ^ 32" and r: "expand kd new_size h = Ret h'"
  shows "\<exists>B'. heap_ok B' h' \<and> live B' = live B \<and> (\<forall>b\<in>set (live B). same_on (h_mem h) (h_mem h') (b_range b)) \<and>
    (\<exists>b\<in>set B'. b_hole b \<and> new_size - (h_end h - h_start h) \<le> b_size b) \<and>
    h_start h' = h_start h \<and> h_end h < h_end h' \<and> h_max h' = h_max h"
proof -
  let ?old = "h_end h - h_start h"
  define size1 where "size1 = (if new_size mod 4096 \<noteq> 0 then t32 new_size div 4096 * 4096 + 4096 else new_size)"
  have s1: "new_size \<le> size1" "size1 < 2 ^ 32" using round_page [OF sz(2)] sz(2) by (simp_all add: size1_def)
  have b: "h_start h \<le> h_end h" "h_max h + 2 ^ 32 < 2 ^ 64" "h_end h \<le> h_max h" using ok laid_le [of "h_start h" B "h_end h"] by (auto simp: heap_inv_def)
  have t: "t64 (h_start h + size1) = h_start h + size1" "sub64 size1 ?old = size1 - ?old" "t32 (size1 - ?old) = size1 - ?old"
    "t64 (h_end h + 12) = h_end h + 12" "sub64 (h_end h + (size1 - ?old)) 16 = h_end h + (size1 - ?old) - 16"
    using b s1 sz by (simp_all add: arith_small)
  let ?h = "\<lambda>s. h\<lparr>h_mmu := s, h_end := h_start h + size1, h_mem := put_block (h_end h, True, size1 - ?old) (h_mem h)\<rparr>"
  have mx: "h_start h + size1 \<le> h_max h" and "\<exists>h1. expand_pages kd (2 ^ 32 + 1) (t32 ?old) size1 h = Ret h1 \<and>
      free_internal (h_end h + 12) (h1\<lparr>h_end := h_start h + size1, h_mem := put_block (h_end h, True, size1 - ?old) (h_mem h1)\<rparr>) = Ret h'"
    using r sz(1) unfolding expand_def Let_def size1_def [symmetric] t put_block_def by (auto simp: obind_Ret_iff split: if_splits)
  then obtain h1 where e1: "expand_pages kd (2 ^ 32 + 1) (t32 ?old) size1 h = Ret h1" and
      f1: "free_internal (h_end h + 12) (h1\<lparr>h_end := h_start h + size1, h_mem := put_block (h_end h, True, size1 - ?old) (h_mem h1)\<rparr>) = Ret h'"
    by (elim exE conjE)
  obtain s where h1: "h1 = h\<lparr>h_mmu := s\<rparr>" using expand_pages_frame [OF e1] by (rule that)
  have f: "free_internal (h_end h + 12) (?h s) = Ret h'" using f1 by (simp add: h1)
  have sz1: "?old + 28 \<le> size1" using sz(1) s1 by simp
  note row = expand_row [OF ok sz1 s1(2) mx]
  from free_block [of B "h_end h" True "size1 - ?old" "[]" "?h  s"] row(1,2) f
  obtain P' x l S' where q: "heap_ok (P' @ (x, True, l) # S') h'" "live P' = live B" "live S' = []" "x \<le> h_end h" "h_end h + (size1 - ?old) \<le> x + l"
    "same_on (h_mem (?h  s)) (h_mem h') (- {x..<x + l})" "same_frame (?h  s) h'" by auto
  have "laid (h_start h') (P' @ (x, True, l) # S') (h_end h')" using q(1) by (simp add: heap_inv_def)
  note u = live_untouched [OF this q(6)]
  have "same_on (h_mem h) (h_mem h') (b_range b)" if "b \<in> set (live B)" for b
  proof -
    have "same_on (h_mem (?h s)) (h_mem h') (b_range b)" using u [of b] that q(2) by simp
    moreover have "same_on (h_mem h) (h_mem (?h s)) (b_range b)" by (rule row(4)) (use that in \<open>simp add: live_def\<close>)
    ultimately show ?thesis by (simp add: same_on_def)
  qed
  moreover have "new_size - ?old \<le> l" using q(4,5) s1(1) by linarith
  ultimately show ?thesis using q b sz1 by (intro exI [of _ "P' @ (x, True, l) # S'"]) (auto simp: same_frame_def)
qed

section \<open>Allocating and freeing\<close>

lemma fits_plain: "fits m sz False a \<longleftrightarrow> sz \<le> hd_size m a"
  by (simp add: fits_def skip_to_page_def)

lemma skip_plain [simp]: "skip_to_page False x = 0"
  by (simp add: skip_to_page_def)

lemma hole_found:
  assumes ok: "heap_ok B h" and b: "b \<in> set B" "b_hole b" "sz \<le> b_size b"
  obtains i where "find_smallest_hole sz False h = Some i"
proof (cases "find_smallest_hole sz False h")
  case None
  have "b_addr b \<in> set (holes B)" using b by (auto simp: holes_def)
  moreover have "set (h_index h) = set (holes B)" using ok unfolding heap_inv_def by (metis set_mset_mset)
  ultimately obtain j where j: "j < length (h_index h)" "h_index h ! j = b_addr b" by (metis in_set_conv_nth)
  have "hd_size (h_mem h) (b_addr b) = b_size b" using ok b(1) by (auto simp: heap_inv_def block_ok_def)
  then show thesis using None j b(3) by (auto simp: find_smallest_hole_None fits_plain)
qed (rule that)

text \<open>What a client may rely on when it asks for \<open>k\<close> bytes.\<close>

definition align_clean :: "nat \<Rightarrow> bool \<Rightarrow> heap \<Rightarrow> bool" where
  "align_clean k al h \<longleftrightarrow> (\<not> al \<or>
     (case find_smallest_hole (k + 28) True h of
        None \<Rightarrow> False
      | Some i \<Rightarrow> skip_to_page True (h_index h ! i) = 0 \<or> 28 \<le> skip_to_page True (h_index h ! i) \<and> length (h_index h) < HEAP_INDEX_SIZE))"

lemma alloc_fit:
  assumes ok: "heap_ok B h" and i: "find_smallest_hole (k + 28) al h = Some i" and cl: "align_clean k al h" and k: "k + 28 < 2 ^ 64"
  shows "\<exists>h' B' l x. alloc kd k al h = Ret (x + 12, h') \<and> x = h_index h ! i + skip_to_page al (h_index h ! i) \<and> heap_ok B' h' \<and> k + 28 \<le> l \<and>
    mset (live B') = add_mset (x, False, l) (mset (live B)) \<and> (\<forall>b\<in>set (live B). same_on (h_mem h) (h_mem h') (b_range b)) \<and> same_frame h h'"
proof -
  have c: "skip_to_page al (h_index h ! i) = 0 \<or> 28 \<le> skip_to_page al (h_index h ! i) \<and> length (h_index h) < HEAP_INDEX_SIZE"
    using cl i by (cases al) (auto simp: align_clean_def)
  have "t64 (k + 12 + 16) = k + 28" using k by (simp add: arith_small)
  then have "alloc kd k al h = alloc_at k (k + 28) al i h" unfolding alloc_def Let_def by (simp add: i)
  then show ?thesis using alloc_at_ok [OF ok i c] by metis
qed

lemma alloc_Ret:
  assumes ok: "heap_ok B h" and cl: "align_clean k al h" and k: "2 * (h_end h - h_start h) + k + 28 + 4096 < 2 ^ 32"
    and r: "alloc kd k al h = Ret (p, h')"
  shows "\<exists>B' l x. p = x + 12 \<and> (al \<longrightarrow> 4096 dvd p) \<and> heap_ok B' h' \<and> k + 28 \<le> l \<and> mset (live B') = add_mset (x, False, l) (mset (live B)) \<and>
    (\<forall>b\<in>set (live B). same_on (h_mem h) (h_mem h') (b_range b))"
proof (cases "find_smallest_hole (k + 28) al h")
  case (Some i)
  have "al \<longrightarrow> 4096 dvd h_index h ! i + skip_to_page al (h_index h ! i) + 12" using skip_aligned by (cases al) simp_all
  then show ?thesis using alloc_fit [OF ok Some cl, of kd] k r by auto
next
  case None
  then have al: "\<not> al" using cl by (cases al) (auto simp: align_clean_def)
  let ?old = "h_end h - h_start h" and ?n = "max (2 * (h_end h - h_start h)) (h_end h - h_start h + k + 28)"
  have t: "t64 (k + 12 + 16) = k + 28" "t64 (?old * 2) = 2 * ?old" "t64 (?old + k + 12 + 16) = ?old + k + 28"
    using k by (simp_all add: arith_small)
  have mx: "(if 2 * ?old < ?old + k + 28 then ?old + k + 28 else 2 * ?old) = ?n" by simp
  have "obind (expand kd ?n h) (\<lambda>h1. case find_smallest_hole (k + 28) al h1 of None \<Rightarrow> Ret (0, h1) | Some i \<Rightarrow> alloc_at k (k + 28) al i h1) = Ret (p, h')"
    using r unfolding alloc_def Let_def t None option.case mx .
  then obtain h1 where e: "expand kd ?n h = Ret h1"
    and a: "(case find_smallest_hole (k + 28) al h1 of None \<Rightarrow> Ret (0, h1) | Some i \<Rightarrow> alloc_at k (k + 28) al i h1) = Ret (p, h')"
    unfolding obind_Ret_iff by (elim exE conjE)
  have n: "?old + 28 \<le> ?n" "?n + 4096 < 2 ^ 32" "k + 28 \<le> ?n - ?old" using k by simp_all
  obtain B1 b where ok1: "heap_ok B1 h1" and l1: "live B1 = live B" and m1: "\<forall>b\<in>set (live B). same_on (h_mem h) (h_mem h1) (b_range b)"
    and b: "b \<in> set B1" "b_hole b" "?n - ?old \<le> b_size b"
    using expand_ok [OF ok n(1,2) e] by blast
  have "k + 28 \<le> b_size b" using b(3) n(3) by linarith
  then obtain i where i: "find_smallest_hole (k + 28) False h1 = Some i" using hole_found [OF ok1 b(1,2)] by blast
  obtain B' l x where "p = x + 12" "heap_ok B' h'" "k + 28 \<le> l" "mset (live B') = add_mset (x, False, l) (mset (live B1))"
    "\<forall>b\<in>set (live B1). same_on (h_mem h1) (h_mem h') (b_range b)"
    using alloc_at_ok [OF ok1 i] a i al by auto
  moreover then have "\<forall>b\<in>set (live B). same_on (h_mem h) (h_mem h') (b_range b)" using m1 l1 by (simp add: same_on_def)
  ultimately show ?thesis using l1 al by auto
qed

text \<open>The block at \<open>a\<close> and free space around it would make a hole that spans the address.\<close>

definition spans_free :: "block list \<Rightarrow> nat \<Rightarrow> nat \<Rightarrow> bool" where
  "spans_free B a n \<longleftrightarrow> (\<exists>x l. spans_pid2 x l \<and> x \<le> a \<and> a + n \<le> x + l \<and>
     (\<forall>b\<in>set (live B). b_addr b = a \<or> b_addr b + b_size b \<le> x \<or> x + l \<le> b_addr b))"

lemma merge_spans_free: "merge_spans P a n S h \<Longrightarrow> spans_free (P @ (a, False, n) # S) a n"
proof -
  assume "merge_spans P a n S h"
  then obtain x l P' S' where x: "spans_pid2 x l" "x \<le> a" "a + n \<le> x + l"
    and P: "laid (h_start h) P' x" "live P' = live P" and S: "laid (x + l) S' (h_end h)" "live S' = live S"
    unfolding merge_spans_def by blast
  have "b_addr b + b_size b \<le> x" if "b \<in> set (live P)" for b
    using laid_range [OF P(1), of b] that unfolding P(2) [symmetric] by (simp add: live_def)
  moreover have "x + l \<le> b_addr b" if "b \<in> set (live S)" for b
    using laid_range [OF S(1), of b] that unfolding S(2) [symmetric] by (simp add: live_def)
  ultimately show ?thesis unfolding spans_free_def using x by (intro exI [of _ x] exI [of _ l]) auto
qed

lemma free_live:
  assumes ok: "heap_ok B h" and b: "(a, False, n) \<in> set B"
  shows "(\<exists>h' B'. free (a + 12) h = Ret h' \<and> heap_ok B' h' \<and> mset (live B') = mset (live B) - {#(a, False, n)#} \<and>
      (\<forall>b\<in>#mset (live B'). same_on (h_mem h) (h_mem h') (b_range b)) \<and> same_frame h h') \<or>
    ((\<exists>e. free (a + 12) h = Panic e) \<and> (spans_free B a n \<or> HEAP_INDEX_SIZE \<le> length (h_index h)))"
proof -
  obtain P S where B: "B = P @ (a, False, n) # S" using b by (meson split_list)
  have inv: "heap_inv (P @ (a, False, n) # S) (holes (P @ S)) h" using ok by (simp add: B)
  have f: "block_full (h_mem h) (a, False, n)" using ok b by (auto simp: heap_inv_def block_full_def block_ok_def Let_def)
  have fr: "free (a + 12) h = free_internal (a + 12) h" by (simp add: free_def)
  from free_block [OF inv f] show ?thesis unfolding fr
  proof (elim disjE exE conjE)
    fix h' P' x l S'
    assume q: "free_internal (a + 12) h = Ret h'" "heap_ok (P' @ (x, True, l) # S') h'" "live P' = live P" "live S' = live S"
      "same_on (h_mem h) (h_mem h') (- {x..<x + l})" "same_frame h h'"
    have "laid (h_start h') (P' @ (x, True, l) # S') (h_end h')" using q(2) by (simp add: heap_inv_def)
    note u = live_untouched [OF this q(5)]
    have "\<forall>b\<in>#mset (live (P' @ (x, True, l) # S')). same_on (h_mem h) (h_mem h') (b_range b)" using u by auto
    then show "(\<exists>h' B'. free_internal (a + 12) h = Ret h' \<and> heap_ok B' h' \<and> mset (live B') = mset (live B) - {#(a, False, n)#} \<and>
      (\<forall>b\<in>#mset (live B'). same_on (h_mem h) (h_mem h') (b_range b)) \<and> same_frame h h') \<or>
      ((\<exists>e. free_internal (a + 12) h = Panic e) \<and> (spans_free B a n \<or> HEAP_INDEX_SIZE \<le> length (h_index h)))"
      using q by (intro disjI1 exI [of _ h'] exI [of _ "P' @ (x, True, l) # S'"]) (simp add: B)
  qed (use merge_spans_free [of P a n S h] in \<open>auto simp: B\<close>)
qed

end
