(* ===== verification/HeapRun.thy ===== *)
theory HeapRun
  imports HeapUse
begin

text \<open>
  The heap as its clients see it: whole runs of allocations, releases and stores, from the creation of the heap.
\<close>

section \<open>Clients\<close>

text \<open>
  What clients do: allocate, free what they own, store into what they own. \<open>own\<close> maps the pointers they hold to
  the sizes they asked for.
\<close>

datatype heap_op = Alloc nat bool | Free nat | Store nat u8

type_synonym owned = "nat \<rightharpoonup> nat"

definition payload :: "owned \<Rightarrow> nat set" where
  "payload own = {x. \<exists>p n. own p = Some n \<and> p \<le> x \<and> x < p + n}"

fun op_ok :: "heap_op \<Rightarrow> heap \<times> owned \<Rightarrow> bool" where
  "op_ok (Alloc n al) (h, own) \<longleftrightarrow> 2 * (h_end h - h_start h) + n + 28 + 4096 < 2 ^ 32 \<and> align_clean n al h"
| "op_ok (Free p) (h, own) \<longleftrightarrow> own p \<noteq> None"
| "op_ok (Store x v) (h, own) \<longleftrightarrow> x \<in> payload own"

fun heap_step :: "mmu_context \<Rightarrow> heap_op \<Rightarrow> heap \<times> owned \<Rightarrow> (heap, heap \<times> owned) outcome" where
  "heap_step kd (Alloc n al) (h, own) = obind (alloc kd n al h) (\<lambda>(p, h'). Ret (h', own(p \<mapsto> n)))"
| "heap_step kd (Free p) (h, own) = obind (free p h) (\<lambda>h'. Ret (h', own(p := None)))"
| "heap_step kd (Store x v) (h, own) = Ret (h\<lparr>h_mem := (h_mem h)(x := v)\<rparr>, own)"

text \<open>
  The ideal heap keeps no bookkeeping in memory: a new block is disjoint from all others, and only stores
  change what owned blocks contain.
\<close>

fun spec_step :: "heap_op \<Rightarrow> owned \<times> hmem \<Rightarrow> owned \<times> hmem \<Rightarrow> bool" where
  "spec_step (Alloc n al) (own, m) (own', m') \<longleftrightarrow>
     (\<exists>p. 0 < p \<and> (al \<longrightarrow> 4096 dvd p) \<and> own p = None \<and> own' = own(p \<mapsto> n) \<and> {p..<p + n} \<inter> payload own = {} \<and> same_on m m' (payload own))"
| "spec_step (Free p) (own, m) (own', m') \<longleftrightarrow> own' = own(p := None) \<and> same_on m m' (payload own')"
| "spec_step (Store x v) (own, m) (own', m') \<longleftrightarrow> own' = own \<and> m' = m(x := v)"

text \<open>
  When an operation may fail to return: an allocation, when no hole fits and the heap has to grow; a release,
  when the index is full, or when the block and free space around it span the address \<open>free_internal\<close> guards.
\<close>

fun may_stop :: "heap_op \<Rightarrow> heap \<times> owned \<Rightarrow> bool" where
  "may_stop (Alloc n al) (h, own) \<longleftrightarrow> find_smallest_hole (n + 28) al h = None"
| "may_stop (Free p) (h, own) \<longleftrightarrow> HEAP_INDEX_SIZE \<le> length (h_index h) \<or>
     (\<exists>x l. spans_pid2 x l \<and> x < p \<and> p < x + l \<and> (\<forall>q n. own q = Some n \<and> q \<noteq> p \<longrightarrow> q + n \<le> x \<or> x + l \<le> q))"
| "may_stop (Store x v) (h, own) \<longleftrightarrow> False"

definition owns :: "block list \<Rightarrow> heap \<Rightarrow> owned \<Rightarrow> bool" where
  "owns B h own \<longleftrightarrow> heap_ok B h \<and>
     (\<forall>p n. own p = Some n \<longrightarrow> 12 \<le> p \<and> (\<exists>l. (p - 12, False, l) \<in> set B \<and> n + 28 \<le> l)) \<and>
     (\<forall>b\<in>set B. \<not> b_hole b \<longrightarrow> own (b_addr b + 12) \<noteq> None)"

lemma live_set: "(a, False, l) \<in> set (live B) \<longleftrightarrow> (a, False, l) \<in> set B" "b \<in> set (live B) \<longleftrightarrow> b \<in> set B \<and> \<not> b_hole b"
  by (auto simp: live_def)

lemma ok_apart:
  assumes ok: "heap_ok B h" and b: "b \<in> set B" "d \<in> set B" "b \<noteq> d"
  shows "b_addr b + b_size b \<le> b_addr d \<or> b_addr d + b_size d \<le> b_addr b"
proof -
  obtain P S where B: "B = P @ d # S" using b(2) by (meson split_list)
  have "laid (h_start h) (P @ (b_addr d, b_hole d, b_size d) # S) (h_end h)" using ok by (simp add: heap_inv_def B)
  then show ?thesis by (rule row_apart) (use b B in auto)
qed

lemma ok_distinct: "heap_ok B h \<Longrightarrow> distinct B"
proof -
  have "laid s B e \<Longrightarrow> \<forall>b\<in>set B. 28 \<le> b_size b \<Longrightarrow> distinct B" for s e
  proof (induction B arbitrary: s)
    case (Cons b B)
    then have l: "laid (s + b_size b) B e" "b_addr b = s" by simp_all
    have "b \<notin> set B" using laid_range [OF l(1), of b] l(2) Cons.prems(2) by fastforce
    then show ?case using Cons.IH [OF l(1)] Cons.prems(2) by simp
  qed simp
  moreover assume "heap_ok B h"
  ultimately show ?thesis by (fastforce simp: heap_inv_def block_ok_def)
qed

lemma ownsI:
  assumes "heap_ok B h" "\<And>p n. own p = Some n \<Longrightarrow> 12 \<le> p \<and> (\<exists>l. (p - 12, False, l) \<in> set (live B) \<and> n + 28 \<le> l)"
    "\<And>b. b \<in> set (live B) \<Longrightarrow> own (b_addr b + 12) \<noteq> None"
  shows "owns B h own"
  unfolding owns_def using assms by (simp add: live_set)

lemma owns_hold: "owns B h own \<Longrightarrow> b \<in> set (live B) \<Longrightarrow> own (b_addr b + 12) \<noteq> None"
  unfolding owns_def by (auto simp: live_set)

lemma owns_block:
  assumes "owns B h own" "own p = Some n"
  obtains l where "(p - 12, False, l) \<in> set B" "12 \<le> p" "n + 28 \<le> l"
proof -
  have "12 \<le> p \<and> (\<exists>l. (p - 12, False, l) \<in> set B \<and> n + 28 \<le> l)" using assms unfolding owns_def by blast
  then show thesis by (elim conjE exE) (rule that)
qed

lemma payload_range:
  assumes "owns B h own" "x \<in> payload own"
  obtains p n l where "own p = Some n" "p \<le> x" "x < p + n" "(p - 12, False, l) \<in> set (live B)" "12 \<le> p" "n + 28 \<le> l" "x \<in> b_range (p - 12, False, l)"
proof -
  obtain p n where p: "own p = Some n" "p \<le> x" "x < p + n" using assms(2) by (auto simp: payload_def)
  obtain l where "(p - 12, False, l) \<in> set B" "12 \<le> p" "n + 28 \<le> l" by (rule owns_block [OF assms(1) p(1)])
  with p show thesis by (intro that) (auto simp: live_set)
qed

lemma owns_inside:
  assumes o: "owns B h own" and p: "own p = Some n"
  shows "h_start h \<le> p \<and> p + n \<le> h_end h"
proof -
  obtain l where b: "(p - 12, False, l) \<in> set B" "12 \<le> p" "n + 28 \<le> l" by (rule owns_block [OF o p])
  have "laid (h_start h) B (h_end h)" using o by (simp add: owns_def heap_inv_def)
  from laid_range [OF this b(1)] b(2,3) show ?thesis by auto
qed

lemma alloc_step_ok:
  assumes o: "owns B h own" and ok: "op_ok (Alloc n al) (h, own)" and r: "alloc kd n al h = Ret (p, h')"
  shows "\<exists>B'. owns B' h' (own(p \<mapsto> n)) \<and> spec_step (Alloc n al) (own, h_mem h) (own(p \<mapsto> n), h_mem h')"
proof -
  have hok: "heap_ok B h" using o by (simp add: owns_def)
  obtain B' l x where p: "p = x + 12" "al \<longrightarrow> 4096 dvd p" and ok': "heap_ok B' h'" and l: "n + 28 \<le> l"
    and ms: "mset (live B') = add_mset (x, False, l) (mset (live B))" and m: "\<forall>b\<in>set (live B). same_on (h_mem h) (h_mem h') (b_range b)"
    using alloc_Ret [OF hok _ _ r] ok by auto
  have st: "set (live B') = insert (x, False, l) (set (live B))" using arg_cong [OF ms, of set_mset] by simp
  have "distinct (live B')" using ok_distinct [OF ok'] by (simp add: live_def)
  then have "count (mset (live B')) (x, False, l) = 1" using st by (simp add: distinct_count_atmost_1)
  then have new: "(x, False, l) \<notin> set (live B)" unfolding ms by (simp add: count_eq_zero_iff)
  have apart: "y + k \<le> x \<or> x + l \<le> y" if "(y, False, k) \<in> set (live B)" for y k
  proof -
    have "(y, False, k) \<in> set B'" "(x, False, l) \<in> set B'" "(y, False, k) \<noteq> (x, False, l)" using that st new by (auto simp: live_set)
    then show ?thesis using ok_apart [OF ok', of "(y, False, k)" "(x, False, l)"] by simp
  qed
  have fresh: "own p = None"
  proof (rule ccontr)
    assume "own p \<noteq> None"
    then obtain k where "own p = Some k" by auto
    then obtain q where "(p - 12, False, q) \<in> set B" "12 \<le> p" "k + 28 \<le> q" by (rule owns_block [OF o])
    then show False using apart [of x q] p(1) l by (simp add: live_set)
  qed
  have "y \<notin> {p..<p + n}" if "y \<in> payload own" for y
    using that apart p(1) l by (elim payload_range [OF o]) fastforce
  then have disj: "{p..<p + n} \<inter> payload own = {}" by blast
  have "same_on (h_mem h) (h_mem h') (payload own)" unfolding same_on_def
    using m by (auto elim!: payload_range [OF o] simp: same_on_def)
  with fresh disj p have "spec_step (Alloc n al) (own, h_mem h) (own(p \<mapsto> n), h_mem h')" by (auto intro!: exI [of _ p])
  moreover have "owns B' h' (own(p \<mapsto> n))"
  proof (rule ownsI [OF ok'])
    fix q k
    assume q: "(own(p \<mapsto> n)) q = Some k"
    show "12 \<le> q \<and> (\<exists>l. (q - 12, False, l) \<in> set (live B') \<and> k + 28 \<le> l)"
    proof (cases "q = p")
      case False
      with q have "own q = Some k" by simp
      then obtain j where "(q - 12, False, j) \<in> set B" "12 \<le> q" "k + 28 \<le> j" by (rule owns_block [OF o])
      then show ?thesis unfolding st by (auto simp: live_set)
    qed (use q p(1) l st in auto)
  next
    fix b
    assume "b \<in> set (live B')"
    then show "(own(p \<mapsto> n)) (b_addr b + 12) \<noteq> None" using owns_hold [OF o, of b] p(1) unfolding st by auto
  qed
  ultimately show ?thesis by blast
qed


lemma owns_spans:
  assumes o: "owns B h own" and p: "own p = Some n" and b: "(p - 12, False, l) \<in> set B" and s: "spans_free B (p - 12) l"
  shows "may_stop (Free p) (h, own)"
proof -
  have hok: "heap_ok B h" using o by (simp add: owns_def)
  then have l: "28 \<le> l" using b by (auto simp: heap_inv_def block_ok_def)
  have p12: "12 \<le> p" by (rule owns_block [OF o p])
  obtain x k where x: "spans_pid2 x k" "x \<le> p - 12" "p - 12 + l \<le> x + k"
    and a: "\<And>b. b \<in> set (live B) \<Longrightarrow> b_addr b = p - 12 \<or> b_addr b + b_size b \<le> x \<or> x + k \<le> b_addr b"
    using s unfolding spans_free_def by blast
  have "q + m \<le> x \<or> x + k \<le> q" if q: "own q = Some m" "q \<noteq> p" for q m
  proof -
    obtain j where j: "(q - 12, False, j) \<in> set B" "12 \<le> q" "m + 28 \<le> j" by (rule owns_block [OF o q(1)])
    then have "q - 12 + j \<le> x \<or> x + k \<le> q - 12" using a [of "(q - 12, False, j)"] q(2) p12 by (auto simp: live_set)
    then show ?thesis using j(2,3) by linarith
  qed
  moreover have "x < p" "p < x + k" using x(2,3) p12 l by linarith+
  ultimately show ?thesis using x(1) unfolding may_stop.simps by blast
qed

lemma free_step_ok:
  assumes o: "owns B h own" and p: "own p = Some n"
  shows "(\<exists>h' B'. free p h = Ret h' \<and> owns B' h' (own(p := None)) \<and> spec_step (Free p) (own, h_mem h) (own(p := None), h_mem h')) \<or>
    (\<exists>e. free p h = Panic e) \<and> may_stop (Free p) (h, own)"
proof -
  have hok: "heap_ok B h" using o by (simp add: owns_def)
  obtain l where b: "(p - 12, False, l) \<in> set B" and l: "12 \<le> p" "n + 28 \<le> l" by (rule owns_block [OF o p])
  have p12: "p - 12 + 12 = p" using l(1) by simp
  from free_live [OF hok b] show ?thesis unfolding p12
  proof (elim disjE exE conjE)
    fix h' B'
    assume r: "free p h = Ret h'" and ok': "heap_ok B' h'" and ms: "mset (live B') = mset (live B) - {#(p - 12, False, l)#}"
      and m: "\<forall>b\<in>#mset (live B'). same_on (h_mem h) (h_mem h') (b_range b)"
    have "distinct (live B)" using ok_distinct [OF hok] by (simp add: live_def)
    then have st: "set (live B') = set (live B) - {(p - 12, False, l)}"
      using arg_cong [OF ms, of set_mset] by (metis mset_remove1 set_mset_mset set_remove1_eq)
    have o': "owns B' h' (own(p := None))"
    proof (rule ownsI [OF ok'])
      fix q k
      assume q: "(own(p := None)) q = Some k"
      then have "q \<noteq> p" "own q = Some k" by (auto split: if_splits)
      then obtain j where j: "(q - 12, False, j) \<in> set B" "12 \<le> q" "k + 28 \<le> j" by (auto elim: owns_block [OF o])
      moreover have "q - 12 \<noteq> p - 12" using \<open>q \<noteq> p\<close> j(2) l(1) by simp
      ultimately show "12 \<le> q \<and> (\<exists>l. (q - 12, False, l) \<in> set (live B') \<and> k + 28 \<le> l)" unfolding st by (auto simp: live_set)
    next
      fix d
      assume d: "d \<in> set (live B')"
      then have dB: "d \<in> set B" "d \<noteq> (p - 12, False, l)" "d \<in> set (live B)" by (auto simp: st live_set)
      then have "28 \<le> b_size d" using hok by (auto simp: heap_inv_def block_ok_def)
      then have "b_addr d \<noteq> p - 12" using ok_apart [OF hok dB(1) b dB(2)] l(2) by auto
      then show "(own(p := None)) (b_addr d + 12) \<noteq> None" using owns_hold [OF o dB(3)] l(1) by auto
    qed
    have "same_on (h_mem h) (h_mem h') (payload (own(p := None)))" unfolding same_on_def
      using m by (auto elim!: payload_range [OF o'] simp: same_on_def)
    then show ?thesis using r o' by auto
  next
    fix e
    assume "free p h = Panic e" "spans_free B (p - 12) l"
    then show ?thesis using owns_spans [OF o p b] by auto
  next
    fix e
    assume "free p h = Panic e" "HEAP_INDEX_SIZE \<le> length (h_index h)"
    then show ?thesis by simp
  qed
qed

lemma store_inside:
  assumes ok: "heap_ok B h" and b: "(a, False, l) \<in> set B" and x: "a + 12 \<le> x" "x + 16 < a + l"
  shows "heap_ok B (h\<lparr>h_mem := (h_mem h)(x := v)\<rparr>)"
proof -
  let ?m = "(h_mem h)(x := v)"
  have bo: "block_ok (h_mem h) d" if "d \<in> set B" for d using ok that by (simp add: heap_inv_def)
  have keep: "same_on (h_mem h) ?m {b_addr d..<b_addr d + 12} \<and> same_on (h_mem h) ?m {b_addr d + b_size d - 16..<b_addr d + b_size d - 16 + 16}"
    if d: "d \<in> set B" for d
  proof (cases "d = (a, False, l)")
    case False
    then have "b_addr d + b_size d \<le> a \<or> a + l \<le> b_addr d" using ok_apart [OF ok d b] by simp
    moreover have "28 \<le> b_size d" using bo [OF d] by (simp add: block_ok_def)
    ultimately show ?thesis using x by (auto simp: same_on_def)
  qed (use x in \<open>auto simp: same_on_def\<close>)
  have hs: "hd_size ?m (b_addr d) = hd_size (h_mem h) (b_addr d)" and bk: "block_ok ?m d" if "d \<in> set B" for d
    using header_cong [OF conjunct1 [OF keep [OF that]]] footer_cong [OF conjunct2 [OF keep [OF that]]] bo [OF that]
    by (simp_all add: block_ok_def Let_def)
  have "set (h_index h) = set (holes B)" using ok unfolding heap_inv_def by (metis set_mset_mset)
  then have "hd_size ?m c = hd_size (h_mem h) c" if "c \<in> set (h_index h)" for c using that hs by (auto simp: holes_def)
  then have "map (hd_size ?m) (h_index h) = map (hd_size (h_mem h)) (h_index h)" by simp
  then have "sorted (map (hd_size ?m) (h_index h))" using ok by (metis heap_inv_def)
  then show ?thesis using ok bk by (simp add: heap_inv_def)
qed

lemma store_step_ok:
  assumes o: "owns B h own" and x: "x \<in> payload own"
  shows "owns B (h\<lparr>h_mem := (h_mem h)(x := v)\<rparr>) own"
proof -
  obtain p n l where "p \<le> x" "x < p + n" "(p - 12, False, l) \<in> set (live B)" "12 \<le> p" "n + 28 \<le> l" by (rule payload_range [OF o x])
  then have "heap_ok B (h\<lparr>h_mem := (h_mem h)(x := v)\<rparr>)"
    using o by (intro store_inside [of _ _ "p - 12" l]) (auto simp: owns_def live_set)
  then show ?thesis using o by (simp add: owns_def)
qed

lemma heap_step_ok:
  assumes o: "owns B h own" and ok: "op_ok op (h, own)"
  shows "(\<exists>h' own' B'. heap_step kd op (h, own) = Ret (h', own') \<and> owns B' h' own' \<and> spec_step op (own, h_mem h) (own', h_mem h')) \<or>
    (\<forall>r. heap_step kd op (h, own) \<noteq> Ret r) \<and> may_stop op (h, own)"
proof (cases op)
  case (Alloc n al)
  have hok: "heap_ok B h" using o by (simp add: owns_def)
  show ?thesis
  proof (cases "\<exists>p h'. alloc kd n al h = Ret (p, h')")
    case True
    then obtain p h' where r: "alloc kd n al h = Ret (p, h')" by blast
    with alloc_step_ok [OF o ok [unfolded Alloc] r] show ?thesis unfolding Alloc by fastforce
  next
    case False
    have "find_smallest_hole (n + 28) al h = None"
    proof (rule ccontr)
      assume "find_smallest_hole (n + 28) al h \<noteq> None"
      then obtain i where "find_smallest_hole (n + 28) al h = Some i" by auto
      from alloc_fit [OF hok this, of kd] ok False show False by (auto simp: Alloc)
    qed
    then show ?thesis using False unfolding Alloc by (auto simp: obind_Ret_iff)
  qed
next
  case (Free p)
  then obtain n where "own p = Some n" using ok by auto
  from free_step_ok [OF o this] show ?thesis unfolding Free by fastforce
next
  case (Store x v)
  then show ?thesis using store_step_ok [OF o, of x v] ok by auto
qed

text \<open>Runs of the heap, and of the ideal heap.\<close>

fun heap_run :: "mmu_context \<Rightarrow> heap_op list \<Rightarrow> heap \<times> owned \<Rightarrow> (heap, heap \<times> owned) outcome" where
  "heap_run kd [] st = Ret st"
| "heap_run kd (op # ops) st = obind (heap_step kd op st) (heap_run kd ops)"

fun spec_run :: "heap_op list \<Rightarrow> owned \<times> hmem \<Rightarrow> owned \<times> hmem \<Rightarrow> bool" where
  "spec_run [] st st' \<longleftrightarrow> st' = st"
| "spec_run (op # ops) st st' \<longleftrightarrow> (\<exists>st1. spec_step op st st1 \<and> spec_run ops st1 st')"

text \<open>Every operation of the run is one its client may do in the state it is done in.\<close>

fun ops_ok :: "mmu_context \<Rightarrow> heap_op list \<Rightarrow> heap \<times> owned \<Rightarrow> bool" where
  "ops_ok kd [] st \<longleftrightarrow> True"
| "ops_ok kd (op # ops) st \<longleftrightarrow> op_ok op st \<and> (case heap_step kd op st of Ret st' \<Rightarrow> ops_ok kd ops st' | _ \<Rightarrow> True)"

lemma heap_run_ok:
  "owns B h own \<Longrightarrow> ops_ok kd ops (h, own) \<Longrightarrow>
   (\<exists>h' own' B'. heap_run kd ops (h, own) = Ret (h', own') \<and> owns B' h' own' \<and> spec_run ops (own, h_mem h) (own', h_mem h')) \<or>
   (\<forall>r. heap_run kd ops (h, own) \<noteq> Ret r) \<and> (\<exists>i<length ops. \<exists>st. heap_run kd (take i ops) (h, own) = Ret st \<and> may_stop (ops ! i) st)"
proof (induction ops arbitrary: B h own)
  case (Cons op ops)
  have ok: "op_ok op (h, own)" "\<And>st'. heap_step kd op (h, own) = Ret st' \<Longrightarrow> ops_ok kd ops st'" using Cons.prems(2) by auto
  from heap_step_ok [OF Cons.prems(1) ok(1), of kd] show ?case
  proof (elim disjE exE conjE)
    fix h1 own1 B1
    assume r: "heap_step kd op (h, own) = Ret (h1, own1)" and o: "owns B1 h1 own1" and s: "spec_step op (own, h_mem h) (own1, h_mem h1)"
    from Cons.IH [OF o ok(2) [OF r]] show ?thesis
    proof (elim disjE exE conjE)
      fix i st
      assume "\<forall>r. heap_run kd ops (h1, own1) \<noteq> Ret r" "i < length ops" "heap_run kd (take i ops) (h1, own1) = Ret st" "may_stop (ops ! i) st"
      then show ?thesis using r by (intro disjI2 conjI exI [of _ "Suc i"]) auto
    qed (use r s in fastforce)
  next
    assume "\<forall>r. heap_step kd op (h, own) \<noteq> Ret r" "may_stop op (h, own)"
    then show ?thesis by (intro disjI2 conjI exI [of _ 0]) (auto simp: obind_Ret_iff)
  qed
qed auto

section \<open>The heap from its creation\<close>

lemma round_up_page: "a \<le> a div 4096 * 4096 + 4096" "a div 4096 * 4096 + 4096 \<le> a + (4096 :: nat)"
proof -
  have "a = a div 4096 * 4096 + a mod 4096" "a mod 4096 < 4096" by simp_all
  then show "a \<le> a div 4096 * 4096 + 4096" "a div 4096 * 4096 + 4096 \<le> a + 4096" by linarith+
qed

definition heap_bounds :: "nat \<Rightarrow> nat \<Rightarrow> nat \<Rightarrow> bool" where
  "heap_bounds start fin mx \<longleftrightarrow> start + 0x102000 \<le> fin \<and> fin < start + 2 ^ 32 \<and> fin \<le> mx \<and> mx + 2 ^ 32 < 2 ^ 64"

lemma create_heap_ok:
  assumes c: "create_heap start fin mx su ro m s = Ret h" and b: "heap_bounds start fin mx" and m: "ft_magic m (fin - 16) \<noteq> HEAP_MAGIC"
  shows "heap_ok [(h_start h, True, fin - h_start h)] h" "h_index h = [h_start h]" "h_end h = fin"
    "start + 0x100000 \<le> h_start h" "h_start h \<le> start + 0x101000" "4096 dvd start \<Longrightarrow> h_start h = start + 0x100000"
proof -
  let ?s1 = "start + 0x100000"
  define s2 where "s2 = (if ?s1 mod 4096 \<noteq> 0 then ?s1 div 4096 * 4096 + 4096 else ?s1)"
  have s2: "?s1 \<le> s2" "s2 \<le> ?s1 + 4096" using round_up_page [of ?s1] by (auto simp: s2_def)
  have bb: "s2 + 28 \<le> fin" "fin - s2 < 2 ^ 32" "?s1 + 4096 < 2 ^ 64" "fin \<le> mx" "mx + 2 ^ 32 < 2 ^ 64" using b s2 by (auto simp: heap_bounds_def)
  have t: "t64 (start + 8 * HEAP_INDEX_SIZE) = ?s1" "t64 (?s1 div 4096 * 4096 + 4096) = ?s1 div 4096 * 4096 + 4096"
    "sub64 fin s2 = fin - s2" "t32 (fin - s2) = fin - s2"
    using bb round_up_page [of ?s1] by (simp_all add: arith_small HEAP_INDEX_SIZE_def)
  obtain p where h: "h = \<lparr>h_mem = put_header s2 True (fin - s2) m, h_index = [s2], h_start = s2, h_end = fin, h_max = mx,
      h_supervisor = su, h_readonly = ro, h_mmu = s\<lparr>m_pmm := p\<rparr>\<rparr>"
    using c unfolding create_heap_def Let_def t s2_def [symmetric]
    by (auto simp: insert_ordered_array_def HEAP_INDEX_SIZE_def split: outcome.splits)
  show "h_index h = [h_start h]" "h_end h = fin" "?s1 \<le> h_start h" "h_start h \<le> start + 0x101000" using s2 by (simp_all add: h)
  show "h_start h = ?s1" if "4096 dvd start"
  proof -
    have "?s1 mod 4096 = 0" using that by (simp add: dvd_imp_mod_0 mod_add_eq [symmetric])
    then show ?thesis by (simp add: h s2_def)
  qed
  have "same_on m (put_header s2 True (fin - s2) m) {fin - 16..<fin - 16 + 16}"
    unfolding same_on_def using bb(1) by (intro ballI put_header_outside) auto
  from footer_cong(1) [OF this] m have "ft_magic (put_header s2 True (fin - s2) m) (fin - 16) \<noteq> HEAP_MAGIC" by simp
  then have "block_ok (h_mem h) (s2, True, fin - s2)" using bb by (simp add: block_ok_def h)
  then show "heap_ok [(h_start h, True, fin - h_start h)] h" using bb s2 by (simp add: heap_inv_def h HEAP_INDEX_SIZE_def)
qed

lemma fresh_alloc:
  assumes ok: "heap_ok [(a, True, N)] h" and i: "h_index h = [a]" and n: "n + 56 \<le> N"
  shows "\<exists>h'. alloc kd n False h = Ret (a + 12, h') \<and> heap_ok [(a, False, n + 28), (a + (n + 28), True, N - (n + 28))] h'"
proof -
  have sz: "hd_size (h_mem h) a = N" using ok by (auto simp: heap_inv_def block_ok_def)
  have "find_smallest_hole (n + 28) False h = Some 0" using n by (simp add: find_smallest_hole_def i sz)
  moreover have bd: "a + N \<le> h_max h" "h_max h + 2 ^ 32 < 2 ^ 64" "h_start h = a" "N < 2 ^ 32" using ok by (auto simp: heap_inv_def)
  moreover have "t64 (n + 12 + 16) = n + 28" "\<not> sub64 (h_max h) (h_start h) < N" using bd n by (simp_all add: arith_small)
  ultimately have al: "alloc kd n False h = carve n (n + 28) a N (remove_ordered_array 0 h)"
    unfolding alloc_def Let_def by (simp add: alloc_at_def i sz)
  have "gap_inv [] a N [] [a] h" by (rule inv_open [of "[]" "[(a, True, N)]"]) (use ok in simp_all)
  then have g: "gap_inv [] a N [] (holes ([] @ [])) (remove_ordered_array 0 h)"
    by (auto simp: gap_inv_def remove_ordered_array_def i)
  have len: "length (h_index (remove_ordered_array 0 h)) < HEAP_INDEX_SIZE" by (simp add: remove_ordered_array_def i HEAP_INDEX_SIZE_def)
  have n': "n + 28 \<le> N" "28 \<le> N - (n + 28)" using n by simp_all
  from carve_ok [OF g n'(1) disjI2 [OF len]] n'(2) show ?thesis unfolding al by auto
qed

lemma free_spans:
  assumes ok: "heap_ok [(a, False, n), (a + n, True, q)] h" and s: "spans_pid2 a (n + q)"
  shows "free (a + 12) h = Panic ''HEAP: merge-right spans PID2 stack''"
proof -
  have inv: "heap_inv ([] @ (a, False, n) # [(a + n, True, q)]) (holes ([] @ [(a + n, True, q)])) h" using ok by simp
  have f: "block_full (h_mem h) (a, False, n)" using ok by (auto simp: heap_inv_def block_full_def block_ok_def Let_def)
  note d = block_fullD [OF f]
  have "a + n \<le> h_end h" "h_end h + 2 ^ 32 < 2 ^ 64" using ok by (auto simp: heap_inv_def)
  then have t: "sub64 (a + 12) 12 = a" "sub64 (a + n) 16 = a + n - 16" using d(1) by (simp_all add: arith_small)
  have "merge_right a (h\<lparr>h_mem := (h_mem h)(a + 4 := 1)\<rparr>) = Panic ''HEAP: merge-right spans PID2 stack''"
    using merge_right_hole [of "[]" a n "a + n" q "[]"] mark_hole [OF inv f] s by auto
  then show ?thesis unfolding free_def free_internal_def Let_def t d by simp
qed


definition boot_mmu :: mmu where
  "boot_mmu = \<lparr>m_pmm = \<lparr>frame_bitmap = None, frame_ref_count = None, total_frames = 0, free_mem_addr = 0x6800, pmm_is_ready = False\<rparr>,
     m_table = (\<lambda>_ _. 0), m_page = (\<lambda>_ _. 0)\<rparr>"

lemma create_heap_boot:
  obtains h where "create_heap start fin mx su ro m boot_mmu = Ret h"
  by (simp add: create_heap_def boot_mmu_def kmalloc_int_def insert_ordered_array_def HEAP_INDEX_SIZE_def Let_def)


section \<open>The heap of the kernel\<close>

text \<open>
  C38. In the heap \<open>init_paging\<close> creates, the first block cannot be freed: for every request of at most 15 MiB
  less the bookkeeping, releasing the block right after it was allocated merges it with the hole behind it
  into one that spans \<open>0xFFFFA00000104000\<close>, and the diagnostic in \<open>free_internal\<close> stops the kernel.
\<close>

theorem first_block_not_freeable:
  assumes c: "create_heap KHEAP_START (KHEAP_START + KHEAP_INITIAL_SIZE) KHEAP_MAX_ADDR False False m s = Ret h"
    and m: "ft_magic m (KHEAP_START + KHEAP_INITIAL_SIZE - 16) \<noteq> HEAP_MAGIC" and n: "n + 56 \<le> 0xF00000"
  shows "\<exists>h'. alloc kd n False h = Ret (KHEAP_START + 0x10000C, h') \<and>
    free (KHEAP_START + 0x10000C) h' = Panic ''HEAP: merge-right spans PID2 stack''"
proof -
  have b: "heap_bounds KHEAP_START (KHEAP_START + KHEAP_INITIAL_SIZE) KHEAP_MAX_ADDR"
    by (simp add: heap_bounds_def KHEAP_START_def KHEAP_INITIAL_SIZE_def KHEAP_MAX_ADDR_def)
  note ok = create_heap_ok [OF c b m]
  let ?a = "KHEAP_START + 0x100000" and ?q = "0xF00000 - (n + 28)"
  have "4096 dvd KHEAP_START" by (simp add: KHEAP_START_def)
  with ok(1,2,6) have h: "heap_ok [(?a, True, 0xF00000)] h" "h_index h = [?a]" by (simp_all add: KHEAP_INITIAL_SIZE_def)
  obtain h' where h': "alloc kd n False h = Ret (?a + 12, h')" "heap_ok [(?a, False, n + 28), (?a + (n + 28), True, ?q)] h'"
    using fresh_alloc [OF h n] by blast
  have "spans_pid2 ?a (n + 28 + ?q)" using n by (simp add: spans_pid2_def KHEAP_START_def)
  then have "free (?a + 12) h' = Panic ''HEAP: merge-right spans PID2 stack''" by (rule free_spans [OF h'(2)])
  then show ?thesis using h'(1) by (simp add: add.assoc)
qed

theorem first_block_not_freeable_witness:
  "\<exists>h h'. create_heap KHEAP_START (KHEAP_START + KHEAP_INITIAL_SIZE) KHEAP_MAX_ADDR False False (\<lambda>_. 0) boot_mmu = Ret h \<and>
     alloc 0 64 False h = Ret (KHEAP_START + 0x10000C, h') \<and>
     free (KHEAP_START + 0x10000C) h' = Panic ''HEAP: merge-right spans PID2 stack''"
proof -
  obtain h where c: "create_heap KHEAP_START (KHEAP_START + KHEAP_INITIAL_SIZE) KHEAP_MAX_ADDR False False (\<lambda>_. 0) boot_mmu = Ret h"
    by (rule create_heap_boot)
  have m: "ft_magic (\<lambda>_. 0) (KHEAP_START + KHEAP_INITIAL_SIZE - 16) \<noteq> HEAP_MAGIC" by (simp add: ft_magic_def rd32_def HEAP_MAGIC_def)
  from first_block_not_freeable [OF c m, of 64 0] c show ?thesis by auto
qed

end
