(* ===== verification/Spec2Isabelle.thy ===== *)
theory Spec2Isabelle
  imports Keyboard Pmm Signal FatData FdCalls Forking HeapRun
begin

text \<open>
  Verification of the Curls kernel, 64-bit build with SMP.

  \<^bold>\<open>Parts of the program and the theories that model them.\<close>

  \<^item> \<open>Prelude\<close>: machine words, byte lists read and written by offset, little-endian encoding, and the
    type of outcomes of kernel code: it returns, panics, hangs with a state, runs for ever, or commits a
    memory error.
  \<^item> \<open>Cstring\<close> models libc/string.c and the copy loops of libc/mem.c over byte buffers; \<open>Keyboard\<close> the
    scan code ring and line discipline of drivers/keyboard.c. \<open>Fifo\<close> is the queue interface both the
    keyboard ring and the pipe buffer implement.
  \<^item> \<open>Pmm\<close> models the frame bitmap and reference counts of kernel/cpu/paging.c and the early allocator of
    libc/mem.c, through the interface of \<open>Allocator\<close>. \<open>Mmu\<close> models the page tables of
    kernel/arch/x86_64/mmu/mmu.c and the copy-on-write branch of the page fault handler; \<open>MmuTree\<close> shows
    what mapping and unmapping do to the tree of tables. \<open>Cow\<close> shows what copying
    a tree of tables does to entries and frame counts, \<open>Spaces\<close> what each address space sees after a fork, a
    write fault, a store and a release, and \<open>Forking\<close> puts these together over whole runs.
  \<^item> \<open>Heap\<close> models the kernel heap of libc/kheap.c and its wrappers in libc/mem.c over byte-addressed memory.
    \<open>HeapLayout\<close> states the layout of headers, footers and holes, \<open>HeapSafe\<close> what splitting and merging do to
    it, \<open>HeapUse\<close> what a call does to the live blocks, \<open>HeapRun\<close> what a client sees over whole runs.
  \<^item> \<open>Kstate\<close> holds the kernel objects (tasks, files, nodes, pipes, buffers), by address, and the linked
    rings and lists of tasks. \<open>Task\<close> models the sleep queue, termination and signal queueing of
    kernel/core/task.c, \<open>Sched\<close> the scheduler, \<open>Signal\<close> delivery to user handlers and return from them.
  \<^item> \<open>Pipe\<close> models kernel/core/pipe.c: the ring buffer and the blocking reader and writer as passes
    between which other tasks run.
  \<^item> \<open>BlockDev\<close> models the block device layer with partitions; \<open>Sectors\<close> is its interface. \<open>FatFs\<close>,
    \<open>FatIo\<close> and \<open>FatNode\<close> model the FAT32 driver: the table, file data, directories and its adapter to
    the virtual file system. \<open>LinkTable\<close> is the interface of a table of chained clusters; \<open>FatTable\<close>
    and \<open>FatData\<close> show what deleting, writing and reading do to chains and contents.
  \<^item> \<open>Path\<close> models path canonicalisation and splitting, \<open>Initrd\<close> the initial RAM disk, \<open>Vfs\<close> mounts and
    path resolution, \<open>Fd\<close> the descriptor calls of kernel/core/vfs_core.c. \<open>FdInv\<close>, \<open>FdSafe\<close>,
    \<open>OpenSafe\<close> and \<open>FdCalls\<close> prove that descriptors never dangle.

  \<^bold>\<open>How state and operations correspond.\<close> A structure of the source is a record with its fields, a
  pointer is an address in a map from addresses to records, and an operation of the source is a definition
  of the same name that takes the state and returns it updated. A loop over the ring of tasks or the sleep
  list, a walk along a cluster chain and the polling loops are partial functions: if such a loop runs for
  ever its value is \<open>None\<close>, and the operation around it has the outcome \<open>Diverge\<close>; the theorems that say an
  operation returns prove that this does not happen. All other loops are total recursive functions. One
  loop has a bound the source does not have: the page loop of \<open>expand\<close> may go \<open>2 ^ 32\<close> rounds, more than there
  are frames. Locks are state where taking a lock twice matters (the scheduler) and
  left out elsewhere. An allocation gives an address that was not allocated before, and freeing an address
  that is not allocated is recorded in the state.

  \<^bold>\<open>What is shown.\<close>
  \<^item> Invariants kept by every operation: the pipe, the keyboard ring, the frame bitmap with its counts, the
    sleep queue, the ready ring, and the descriptor tables with the files, nodes and pipes they refer to,
    over all sequences of descriptor calls; the blocks and the index of the kernel heap (but for
    \<open>contract\<close>, which nothing calls and which may cut off live blocks); the page tables and
    frame counts under copying, faults and release.
  \<^item> Functional behaviour: what each operation does to the abstract contents (the bytes in a pipe, the data of
    a file, the tasks in the ready ring, the pages of an address space, the sectors of a disk), errors included.
  \<^item> The initial RAM disk, the mount table, growth of a FAT file and creation of FAT files and directories are
    definitions that the descriptor calls use; the descriptor invariant is shown for calls that reach them,
    but no invariant of the mount table or of the volume. The theorems on the contents of FAT files are about
    reads and writes within the clusters a file has.
  \<^item> Where the code does something else than it means to, the theorem states what it does.

  \<^bold>\<open>Idealisations.\<close> A disk behind a driver is a map from 64-bit sector numbers to sectors, while the IDE driver
  sends 28 bits of the number and the USB driver 32. A pipe and its ring buffer are one object. The
  components that allocate objects do not use the model of the heap: for them an allocation never fails.
  Lengths of strings are natural numbers: a string of 2 GiB or more is not covered, nor is a negative size
  given to \<open>write\<close>. One CPU runs the scheduler.

  \<^bold>\<open>Not modelled.\<close> Device and interrupt controller I/O (disk, USB, screen, serial line, APIC, ACPI), booting and
  the start of further CPUs; the stack frames built by assembly and by fork, exit and wait; program loading;
  the dispatch of system calls other than those for signals; tracing, the kernel shell, user programs and tests.
\<close>

end
